theory Spec2Isabelle
  imports Complex_Main
begin

section \<open>Arrays, errors and the Phred scale (utils.py)\<close>

text \<open>
  The program computes on numpy arrays of floating-point numbers.  The arrays are modelled
  as nested lists and the numbers as reals, so that \<open>10.0**y\<close> is \<open>10 powr y\<close> and
  \<open>np.log10\<close> is \<open>log 10\<close>.  Both modules run under
  \<open>warnings.filterwarnings('error')\<close>, hence a numpy warning (the logarithm of a number
  that is not positive, a division by zero) is an exception; every exception of the source
  is a value \<open>Inl e\<close> of the model.
\<close>

datatype error = ValueError | IndexError | AttributeError | RuntimeWarning

text \<open>Sequencing: the first exception ends the computation.\<close>

definition ebind :: "error + 'a \<Rightarrow> ('a \<Rightarrow> error + 'b) \<Rightarrow> error + 'b" where
  "ebind m f = (case m of Inl e \<Rightarrow> Inl e | Inr x \<Rightarrow> f x)"

fun mapE :: "('a \<Rightarrow> error + 'b) \<Rightarrow> 'a list \<Rightarrow> error + 'b list" where
  "mapE f [] = Inr []"
| "mapE f (x # xs) = ebind (f x) (\<lambda>y. ebind (mapE f xs) (\<lambda>ys. Inr (y # ys)))"

type_synonym vec = "real list"
type_synonym arr2 = "real list list"
type_synonym arr3 = "real list list list"

definition phred2p :: "real \<Rightarrow> real" where
  "phred2p x = 10 powr (- x / 10)"

definition p2phred :: "real \<Rightarrow> real" where
  "p2phred x = - 10 * log 10 x"

text \<open>\<open>p2phred\<close> on a whole array: \<open>np.log10\<close> warns on an entry that is not positive.\<close>

definition p2phred_vec :: "vec \<Rightarrow> error + vec" where
  "p2phred_vec xs = (if list_ex (\<lambda>x. x \<le> 0) xs then Inl RuntimeWarning
                     else Inr (map p2phred xs))"

definition normalize_PL :: "vec \<Rightarrow> error + vec" where
  "normalize_PL x =
     (let p = map phred2p x;
          s = sum_list p
      in if p \<noteq> [] \<and> s = 0 then Inl RuntimeWarning
         else p2phred_vec (map (\<lambda>pi. pi / s) p))"

section \<open>Genotype distance\<close>

text \<open>
  \<open>strdist\<close> is \<open>editdistance.eval\<close>, the Levenshtein distance of two strings.
\<close>

fun strdist :: "string \<Rightarrow> string \<Rightarrow> nat" where
  "strdist [] ys = length ys"
| "strdist (x # xs) [] = length (x # xs)"
| "strdist (x # xs) (y # ys) =
     (if x = y then strdist xs ys
      else 1 + min (strdist xs (y # ys)) (min (strdist (x # xs) ys) (strdist xs ys)))"

definition gtype_distance :: "string list \<Rightarrow> nat list list" where
  "gtype_distance gt =
     map (\<lambda>gi. map (\<lambda>gj. min (strdist gi gj) (strdist gi (rev gj))) gt) gt"

definition GTYPE10 :: "string list" where
  "GTYPE10 = [''AA'', ''AC'', ''AG'', ''AT'', ''CC'', ''CG'', ''CT'', ''GG'', ''GT'', ''TT'']"

section \<open>Substitution model\<close>

definition sum_axis0 :: "nat \<Rightarrow> arr2 \<Rightarrow> vec" where
  "sum_axis0 n mm = map (\<lambda>j. sum_list (map (\<lambda>row. row ! j) mm)) [0..<n]"

definition fill_diagonal :: "nat \<Rightarrow> arr2 \<Rightarrow> vec \<Rightarrow> arr2" where
  "fill_diagonal n mm vals =
     map (\<lambda>i. map (\<lambda>j. if i = j then vals ! j else mm ! i ! j) [0..<n]) [0..<n]"

definition diagonal :: "arr2 \<Rightarrow> vec" where
  "diagonal mm = map (\<lambda>i. mm ! i ! i) [0..<length mm]"

definition diagflat :: "vec \<Rightarrow> arr2" where
  "diagflat d =
     map (\<lambda>i. map (\<lambda>j. if i = j then d ! i else 0) [0..<length d]) [0..<length d]"

definition mat_sub :: "arr2 \<Rightarrow> arr2 \<Rightarrow> arr2" where
  "mat_sub a b = map2 (map2 (-)) a b"

definition mat_add :: "arr2 \<Rightarrow> arr2 \<Rightarrow> arr2" where
  "mat_add a b = map2 (map2 (+)) a b"

text \<open>
  \<open>make_mut_matrix\<close>: the distance matrix of \<open>n\<close> genotypes is \<open>n \<times> n\<close>, so every
  index below is in range.  \<open>mm.sum(axis=0)\<close> is taken before the diagonal is
  overwritten, so each column sum includes the diagonal entry \<open>pmu ** 0\<close>.
\<close>

definition make_mut_matrix :: "real \<Rightarrow> string list \<Rightarrow> arr2 \<times> arr2 \<times> arr2" where
  "make_mut_matrix mu gtypes =
     (let pmu = phred2p mu;
          gt_dist = gtype_distance gtypes;
          n = length gtypes;
          mm = map (map (\<lambda>d. pmu ^ d)) gt_dist;
          mm = fill_diagonal n mm (map (\<lambda>s. 2 - s) (sum_axis0 n mm));
          mm0 = diagflat (diagonal mm);
          mm1 = mat_sub mm mm0
      in (mm, mm0, mm1))"

definition make_mut_matrix_gtype10 :: "real \<Rightarrow> arr2 \<times> arr2 \<times> arr2" where
  "make_mut_matrix_gtype10 mu =
     (let pmu = phred2p mu;
          nmu = 1 - pmu;
          mm = [[nmu ^ 2, 2 * pmu * nmu, pmu * pmu],
                [nmu * pmu, pmu ^ 2 + nmu ^ 2, nmu * pmu],
                [pmu * pmu, 2 * pmu * nmu, (1 - pmu) ^ 2]];
          mm0 = diagflat (diagonal mm);
          mm1 = mat_sub mm mm0
      in (mm, mm0, mm1))"

section \<open>Prior\<close>

text \<open>\<open>g[0] != g[1]\<close> raises IndexError on a string shorter than two characters.\<close>

definition het_flag :: "string \<Rightarrow> error + real" where
  "het_flag g = (if length g < 2 then Inl IndexError
                 else Inr (if g ! 0 \<noteq> g ! 1 then 1 else 0))"

definition make_base_prior :: "real \<Rightarrow> string list \<Rightarrow> error + vec" where
  "make_base_prior het gtypes =
     ebind (mapE het_flag gtypes) (\<lambda>bs. normalize_PL (map (\<lambda>b. b * het) bs))"

section \<open>numpy operations used by the tree passes\<close>

text \<open>
  An array is the nested list of its entries, its shape the lengths of the levels; an
  array with no row has no further dimension in the model.  Integer indexing accepts
  \<open>-len \<le> i < len\<close>.  Arithmetic on two arrays broadcasts an axis of length one; an
  assignment broadcasts the value to the shape of the target only.
\<close>

definition np_get :: "'a list \<Rightarrow> int \<Rightarrow> error + 'a" where
  "np_get xs i =
     (if 0 \<le> i \<and> i < int (length xs) then Inr (xs ! nat i)
      else if - int (length xs) \<le> i \<and> i < 0 then Inr (xs ! nat (int (length xs) + i))
      else Inl IndexError)"

definition ncols :: "'a list list \<Rightarrow> nat" where
  "ncols a = (case a of [] \<Rightarrow> 0 | r # _ \<Rightarrow> length r)"

definition broadcast2 :: "('a \<Rightarrow> 'b \<Rightarrow> error + 'c) \<Rightarrow> 'a list \<Rightarrow> 'b list \<Rightarrow> error + 'c list" where
  "broadcast2 f xs ys =
     (if length xs = length ys then mapE (\<lambda>(x, y). f x y) (zip xs ys)
      else if length xs = 1 then mapE (f (hd xs)) ys
      else if length ys = 1 then mapE (\<lambda>x. f x (hd ys)) xs
      else Inl ValueError)"

definition add1 :: "vec \<Rightarrow> vec \<Rightarrow> error + vec" where
  "add1 = broadcast2 (\<lambda>x y. Inr (x + y))"

definition add2 :: "arr2 \<Rightarrow> arr2 \<Rightarrow> error + arr2" where
  "add2 = broadcast2 add1"

text \<open>A 2-d array plus a vector (\<open>tree.PL + base_prior\<close>).\<close>

definition add2_1 :: "arr2 \<Rightarrow> vec \<Rightarrow> error + arr2" where
  "add2_1 a v = mapE (\<lambda>row. add1 row v) a"

text \<open>A 3-d array plus a 2-d array: the latter is added to every slab.\<close>

definition add3_2 :: "arr3 \<Rightarrow> arr2 \<Rightarrow> error + arr3" where
  "add3_2 a b = mapE (\<lambda>slab. add2 slab b) a"

text \<open>In-place \<open>a += v\<close> on the last axis: \<open>v\<close> must broadcast to the shape of \<open>a\<close>.\<close>

definition iadd1 :: "vec \<Rightarrow> vec \<Rightarrow> error + vec" where
  "iadd1 row v =
     (if length v = length row then Inr (map2 (+) row v)
      else if length v = 1 then Inr (map (\<lambda>x. x + hd v) row)
      else Inl ValueError)"

definition iadd3_1 :: "arr3 \<Rightarrow> vec \<Rightarrow> error + arr3" where
  "iadd3_1 a v = mapE (mapE (\<lambda>row. iadd1 row v)) a"

text \<open>The value of an assignment, broadcast to a target of shape \<open>(n, g)\<close>.\<close>

definition assign1 :: "nat \<Rightarrow> vec \<Rightarrow> error + vec" where
  "assign1 g v =
     (if length v = g then Inr v
      else if length v = 1 then Inr (replicate g (hd v))
      else Inl ValueError)"

definition assign2 :: "nat \<Rightarrow> nat \<Rightarrow> arr2 \<Rightarrow> error + arr2" where
  "assign2 n g a =
     (if length a = n then mapE (assign1 g) a
      else if length a = 1 then ebind (assign1 g (hd a)) (\<lambda>r. Inr (replicate n r))
      else Inl ValueError)"

text \<open>\<open>np.dot\<close> of a vector and of the rows of an array with a matrix.\<close>

definition dot1 :: "vec \<Rightarrow> arr2 \<Rightarrow> error + vec" where
  "dot1 v mm =
     (if length v \<noteq> length mm then Inl ValueError
      else Inr (map (\<lambda>j. sum_list (map2 (\<lambda>x row. x * row ! j) v mm)) [0..<ncols mm]))"

definition dot2 :: "arr2 \<Rightarrow> arr2 \<Rightarrow> error + arr2" where
  "dot2 a mm = mapE (\<lambda>row. dot1 row mm) a"

definition dot3 :: "arr3 \<Rightarrow> arr2 \<Rightarrow> error + arr3" where
  "dot3 a mm = mapE (\<lambda>slab. dot2 slab mm) a"

definition p2phred_arr2 :: "arr2 \<Rightarrow> error + arr2" where
  "p2phred_arr2 a = mapE p2phred_vec a"

definition p2phred_arr3 :: "arr3 \<Rightarrow> error + arr3" where
  "p2phred_arr3 a = mapE p2phred_arr2 a"

text \<open>\<open>p2phred(np.dot(phred2p(a), mm))\<close>, for a 2-d and for a 3-d array \<open>a\<close>.\<close>

definition transfer2 :: "arr2 \<Rightarrow> arr2 \<Rightarrow> error + arr2" where
  "transfer2 a mm = ebind (dot2 (map (map phred2p) a) mm) p2phred_arr2"

definition transfer3 :: "arr3 \<Rightarrow> arr2 \<Rightarrow> error + arr3" where
  "transfer3 a mm = ebind (dot3 (map (map (map phred2p)) a) mm) p2phred_arr3"

text \<open>\<open>argmin\<close>: the first index of the least entry; ValueError on an empty array.\<close>

fun argmin_from :: "real \<Rightarrow> nat \<Rightarrow> nat \<Rightarrow> vec \<Rightarrow> nat" where
  "argmin_from best bi i [] = bi"
| "argmin_from best bi i (x # xs) =
     (if x < best then argmin_from x i (Suc i) xs else argmin_from best bi (Suc i) xs)"

definition argmin :: "vec \<Rightarrow> error + nat" where
  "argmin xs = (case xs of [] \<Rightarrow> Inl ValueError | x # r \<Rightarrow> Inr (argmin_from x 0 1 r))"

section \<open>The lineage tree\<close>

text \<open>
  A node of the \<open>ete2\<close> tree, after \<open>init_tree\<close>: the sorted sample identifiers \<open>sid\<close>,
  the children, and the arrays that the passes attach.  \<open>populate_tree_PL\<close> sets the
  attribute whose name it is given, so the 2-d likelihood attributes (\<open>PL\<close>, \<open>PL0\<close>) are
  a dictionary from names; the 3-d array \<open>PLm\<close> is a field of its own.
\<close>

datatype tree =
  Node (sid: "int list") (attrs: "string \<Rightarrow> arr2 option") (PLm: "arr3 option")
       (children: "tree list")

definition getattr :: "tree \<Rightarrow> string \<Rightarrow> error + arr2" where
  "getattr t a = (case attrs t a of None \<Rightarrow> Inl AttributeError | Some v \<Rightarrow> Inr v)"

definition get_PLm :: "tree \<Rightarrow> error + arr3" where
  "get_PLm t = (case PLm t of None \<Rightarrow> Inl AttributeError | Some v \<Rightarrow> Inr v)"

definition is_leaf :: "tree \<Rightarrow> bool" where
  "is_leaf t = (children t = [])"

text \<open>\<open>len(node)\<close> is the number of leaves under the node.\<close>

fun len :: "tree \<Rightarrow> nat" where
  "len (Node s a p cs) = (if cs = [] then 1 else sum_list (map len cs))"

text \<open>\<open>traverse(strategy='postorder')\<close> and \<open>iter_descendants(strategy='postorder')\<close>.\<close>

fun traverse_postorder :: "tree \<Rightarrow> tree list" where
  "traverse_postorder (Node s a p cs) = concat (map traverse_postorder cs) @ [Node s a p cs]"

definition iter_descendants :: "tree \<Rightarrow> tree list" where
  "iter_descendants t = concat (map traverse_postorder (children t))"

text \<open>
  \<open>tree.copy()\<close> pickles and unpickles the tree: the copy has the structure and every
  attribute of the original.  As a value it is the same tree.
\<close>

definition tree_copy :: "tree \<Rightarrow> tree" where
  "tree_copy t = t"

section \<open>Pruning pass (populate_tree_PL)\<close>

definition zeros2 :: "nat \<Rightarrow> nat \<Rightarrow> arr2" where
  "zeros2 n g = replicate n (replicate g 0)"

definition zeros3 :: "nat \<Rightarrow> nat \<Rightarrow> nat \<Rightarrow> arr3" where
  "zeros3 l n g = replicate l (zeros2 n g)"

text \<open>\<open>PLs[:, i,]\<close>: the vector of sample \<open>i\<close> at every site.\<close>

definition sample_column :: "arr3 \<Rightarrow> int \<Rightarrow> error + arr2" where
  "sample_column PLs i = mapE (\<lambda>site. np_get site i) PLs"

text \<open>The loop over the children of an internal node, on the running value of the attribute.\<close>

fun add_children :: "arr2 \<Rightarrow> tree list \<Rightarrow> arr2 \<Rightarrow> string \<Rightarrow> error + arr2" where
  "add_children acc [] mm attr = Inr acc"
| "add_children acc (child # rest) mm attr =
     ebind (getattr child attr) (\<lambda>a.
     ebind (transfer2 a mm) (\<lambda>x.
     ebind (add2 acc x) (\<lambda>acc'.
     add_children acc' rest mm attr)))"

text \<open>
  The post-order loop visits the subtrees of the children, in order, before the node.
  \<open>n\<close> and \<open>g\<close> are the first and the last entry of \<open>PLs.shape\<close>.
\<close>

fun populate_node :: "nat \<Rightarrow> nat \<Rightarrow> tree \<Rightarrow> arr3 \<Rightarrow> arr2 \<Rightarrow> string \<Rightarrow> error + tree"
and populate_nodes :: "nat \<Rightarrow> nat \<Rightarrow> tree list \<Rightarrow> arr3 \<Rightarrow> arr2 \<Rightarrow> string \<Rightarrow> error + tree list" where
  "populate_node n g (Node s a p cs) PLs mm attr =
     (if cs = [] then
        ebind (np_get s 0) (\<lambda>i.
        ebind (sample_column PLs i) (\<lambda>v.
        Inr (Node s (a(attr \<mapsto> v)) p [])))
      else
        ebind (populate_nodes n g cs PLs mm attr) (\<lambda>cs'.
        ebind (add_children (zeros2 n g) cs' mm attr) (\<lambda>v.
        Inr (Node s (a(attr \<mapsto> v)) p cs'))))"
| "populate_nodes n g [] PLs mm attr = Inr []"
| "populate_nodes n g (c # cs) PLs mm attr =
     ebind (populate_node n g c PLs mm attr) (\<lambda>c'.
     ebind (populate_nodes n g cs PLs mm attr) (\<lambda>cs'.
     Inr (c' # cs')))"

definition populate_tree_PL :: "tree \<Rightarrow> arr3 \<Rightarrow> arr2 \<Rightarrow> string \<Rightarrow> error + tree" where
  "populate_tree_PL tree PLs mm attr =
     populate_node (length PLs) (ncols (concat PLs)) tree PLs mm attr"

section \<open>Mutation placement (calc_mut_likelihoods)\<close>

text \<open>
  \<open>child.get_sisters()[0]\<close>: the first of the other children of the parent; IndexError
  when the child is the only one.
\<close>

definition get_sister :: "tree list \<Rightarrow> nat \<Rightarrow> error + tree" where
  "get_sister cs k =
     (case take k cs @ drop (Suc k) cs of [] \<Rightarrow> Inl IndexError | s # _ \<Rightarrow> Inr s)"

definition with_sisters :: "tree list \<Rightarrow> (tree \<times> (error + tree)) list" where
  "with_sisters cs = map (\<lambda>k. (cs ! k, get_sister cs k)) [0..<length cs]"

text \<open>
  \<open>p2phred(np.dot(phred2p(child.PLm), mm0)) + p2phred(np.dot(phred2p(sister.PL0), mm0))\<close>:
  the placements inside the subtree of the child, carried over the edge of the child.
\<close>

definition inherited :: "tree \<Rightarrow> tree \<Rightarrow> arr2 \<Rightarrow> error + arr3" where
  "inherited child sister mm0 =
     ebind (get_PLm child) (\<lambda>cm.
     ebind (transfer3 cm mm0) (\<lambda>x.
     ebind (getattr sister ''PL0'') (\<lambda>s0.
     ebind (transfer2 s0 mm0) (\<lambda>y.
     add3_2 x y))))"

text \<open>
  \<open>p2phred(np.dot(phred2p(child.PL0), mm1)) + p2phred(np.dot(phred2p(sister.PL0), mm0))\<close>:
  the mutation on the edge of the child itself.
\<close>

definition on_edge :: "tree \<Rightarrow> tree \<Rightarrow> arr2 \<Rightarrow> arr2 \<Rightarrow> error + arr2" where
  "on_edge child sister mm0 mm1 =
     ebind (getattr child ''PL0'') (\<lambda>c0.
     ebind (transfer2 c0 mm1) (\<lambda>x.
     ebind (getattr sister ''PL0'') (\<lambda>s0.
     ebind (transfer2 s0 mm0) (\<lambda>y.
     add2 x y))))"

text \<open>
  \<open>a[i:(i+l)] = v\<close> on an array \<open>a\<close> of slabs of shape \<open>(n, g)\<close>: the slice is cut at
  the end of \<open>a\<close>, and \<open>v\<close> must broadcast to its shape.  \<open>a[i] = v\<close> raises IndexError
  when \<open>i\<close> is past the end.
\<close>

definition set_slice :: "nat \<Rightarrow> nat \<Rightarrow> arr3 \<Rightarrow> nat \<Rightarrow> nat \<Rightarrow> arr3 \<Rightarrow> error + arr3" where
  "set_slice n g a i l v =
     (let t = min (i + l) (length a) - min i (length a) in
      ebind (mapE (assign2 n g) v) (\<lambda>v'.
      if length v' = t then Inr (take i a @ v' @ drop (i + t) a)
      else if length v' = 1 then Inr (take i a @ replicate t (hd v') @ drop (i + t) a)
      else Inl ValueError))"

definition set_item :: "nat \<Rightarrow> nat \<Rightarrow> arr3 \<Rightarrow> nat \<Rightarrow> arr2 \<Rightarrow> error + arr3" where
  "set_item n g a i v =
     (if i < length a then ebind (assign2 n g v) (\<lambda>v'. Inr (a[i := v']))
      else Inl IndexError)"

text \<open>The loop over the children of a node, with the array \<open>node.PLm\<close> and the index \<open>i\<close>.\<close>

fun fill_PLm ::
  "nat \<Rightarrow> nat \<Rightarrow> arr2 \<Rightarrow> arr2 \<Rightarrow> (tree \<times> (error + tree)) list \<Rightarrow> arr3 \<Rightarrow> nat \<Rightarrow> error + arr3" where
  "fill_PLm n g mm0 mm1 [] plm i = Inr plm"
| "fill_PLm n g mm0 mm1 ((child, sis) # rest) plm i =
     ebind sis (\<lambda>sister.
     ebind (if \<not> is_leaf child then
              ebind (get_PLm child) (\<lambda>cm.
              ebind (inherited child sister mm0) (\<lambda>v.
              ebind (set_slice n g plm i (length cm) v) (\<lambda>plm'.
              Inr (plm', i + length cm))))
            else Inr (plm, i)) (\<lambda>(plm', i').
     ebind (on_edge child sister mm0 mm1) (\<lambda>e.
     ebind (set_item n g plm' i' e) (\<lambda>plm''.
     fill_PLm n g mm0 mm1 rest plm'' (Suc i')))))"

text \<open>
  The first loop gives every internal node a zero array of \<open>2*len(node)-2\<close> slabs; the
  second, in post-order, fills the array of a node from its children, which are done.
\<close>

fun calc_node :: "nat \<Rightarrow> nat \<Rightarrow> arr2 \<Rightarrow> arr2 \<Rightarrow> tree \<Rightarrow> error + tree"
and calc_nodes :: "nat \<Rightarrow> nat \<Rightarrow> arr2 \<Rightarrow> arr2 \<Rightarrow> tree list \<Rightarrow> error + tree list" where
  "calc_node n g mm0 mm1 (Node s a p cs) =
     (if cs = [] then Inr (Node s a p [])
      else
        ebind (calc_nodes n g mm0 mm1 cs) (\<lambda>cs'.
        ebind (fill_PLm n g mm0 mm1 (with_sisters cs')
                 (zeros3 (2 * len (Node s a p cs) - 2) n g) 0) (\<lambda>plm.
        Inr (Node s a (Some plm) cs'))))"
| "calc_nodes n g mm0 mm1 [] = Inr []"
| "calc_nodes n g mm0 mm1 (c # cs) =
     ebind (calc_node n g mm0 mm1 c) (\<lambda>c'.
     ebind (calc_nodes n g mm0 mm1 cs) (\<lambda>cs'.
     Inr (c' # cs')))"

definition calc_mut_likelihoods :: "tree \<Rightarrow> arr2 \<Rightarrow> arr2 \<Rightarrow> error + tree" where
  "calc_mut_likelihoods tree mm0 mm1 =
     ebind (getattr tree ''PL0'') (\<lambda>pl0.
     calc_node (length pl0) (ncols pl0) mm0 mm1 tree)"

section \<open>Site caller (geno.py)\<close>

record site_record =
  chrom :: string
  pos :: int
  ref :: string
  null_p :: real
  mut_p :: real
  null_base :: string
  null_base_p :: real
  mut_base :: string
  mut_alt :: string
  mut_conf_p :: real
  mut_loc :: nat
  mut_smpl :: string

text \<open>\<open>str\<close> of an integer and \<open>','.join\<close>.\<close>

fun str_nat :: "nat \<Rightarrow> string" where
  "str_nat n = (if n < 10 then [''0123456789'' ! n]
                else str_nat (n div 10) @ [''0123456789'' ! (n mod 10)])"

definition str_int :: "int \<Rightarrow> string" where
  "str_int i = (if i < 0 then CHR ''-'' # str_nat (nat (- i)) else str_nat (nat i))"

fun join :: "string \<Rightarrow> string list \<Rightarrow> string" where
  "join sep [] = []"
| "join sep [x] = x"
| "join sep (x # y # ys) = x @ sep @ join sep (y # ys)"

text \<open>\<open>np.swapaxes(a, 0, 1)\<close> of a 3-d array and \<open>np.unravel_index\<close> on a 2-d shape.\<close>

definition swapaxes01 :: "arr3 \<Rightarrow> arr3" where
  "swapaxes01 a = map (\<lambda>s. map (\<lambda>slab. slab ! s) a) [0..<ncols a]"

definition unravel_index :: "nat \<Rightarrow> nat \<times> nat \<Rightarrow> nat \<times> nat" where
  "unravel_index k shape = (k div snd shape, k mod snd shape)"

text \<open>Elementwise division of two vectors of one length: numpy warns on a zero divisor.\<close>

definition div_vec :: "vec \<Rightarrow> vec \<Rightarrow> error + vec" where
  "div_vec a b = (if list_ex (\<lambda>x. x = 0) b then Inl RuntimeWarning else Inr (map2 (/) a b))"

text \<open>
  Indexing with index arrays: \<open>a[nn, ks]\<close>, \<open>a[nn, ls, ks]\<close>, \<open>a[ls, nn,]\<close> and \<open>a[ks]\<close>,
  where \<open>nn = arange(n)\<close>; the index arrays have one length.
\<close>

definition pick2 :: "'a list list \<Rightarrow> nat list \<Rightarrow> nat list \<Rightarrow> error + 'a list" where
  "pick2 a nn ks =
     (if length nn \<noteq> length ks then Inl IndexError
      else mapE (\<lambda>(s, k). ebind (np_get a (int s)) (\<lambda>row. np_get row (int k))) (zip nn ks))"

definition pick3 :: "'a list list list \<Rightarrow> nat list \<Rightarrow> nat list \<Rightarrow> nat list \<Rightarrow> error + 'a list" where
  "pick3 a nn ls ks =
     (if length nn \<noteq> length ls \<or> length nn \<noteq> length ks then Inl IndexError
      else mapE (\<lambda>(s, l, k). ebind (np_get a (int s)) (\<lambda>m. ebind (np_get m (int l)) (\<lambda>row.
                  np_get row (int k)))) (zip nn (zip ls ks)))"

definition pick :: "'a list \<Rightarrow> nat list \<Rightarrow> error + 'a list" where
  "pick a ks = mapE (\<lambda>k. np_get a (int k)) ks"

text \<open>
  \<open>genotype\<close>.  A row of \<open>variants\<close> is \<open>(chrom, pos, ref)\<close>.  The fields of a record
  are stored with the types \<open>a10\<close>, \<open>a1\<close>, \<open>a2\<close> and \<open>a128\<close>, which cut a longer string.
\<close>

definition genotype ::
  "arr3 \<Rightarrow> tree \<Rightarrow> (string \<times> int \<times> string) list \<Rightarrow> arr2 \<Rightarrow> arr2 \<Rightarrow> arr2 \<Rightarrow> vec
   \<Rightarrow> error + (site_record list \<times> real)" where
  "genotype PLs tree variants mm mm0 mm1 base_prior =
     ebind (populate_tree_PL (tree_copy tree) PLs mm ''PL'') (\<lambda>tree1.
     ebind (getattr tree1 ''PL'') (\<lambda>pl.
     ebind (add2_1 pl base_prior) (\<lambda>tree_PL.
     ebind (populate_tree_PL (tree_copy tree1) PLs mm0 ''PL0'') (\<lambda>tree2.
     ebind (getattr tree2 ''PL0'') (\<lambda>pl0.
     ebind (add2_1 pl0 base_prior) (\<lambda>tree_PL0.
     ebind (calc_mut_likelihoods (tree_copy tree2) mm0 mm1) (\<lambda>tree3.
     ebind (get_PLm tree3) (\<lambda>plm.
     ebind (iadd3_1 (swapaxes01 plm) base_prior) (\<lambda>mut_PLs.
     let n = length mut_PLs; l = ncols mut_PLs; g = ncols (concat mut_PLs);
         nn = [0..<n] in
     ebind (mapE argmin tree_PL) (\<lambda>k.
     let tree_P_per_site = map (\<lambda>row. sum_list (map phred2p row)) tree_PL in
     ebind (mapE argmin tree_PL0) (\<lambda>k0.
     ebind (pick2 tree_PL0 nn k0) (\<lambda>null_PL.
     let null_P_per_site = map (\<lambda>row. sum_list (map phred2p row)) tree_PL0 in
     ebind (mapE (\<lambda>s. ebind (argmin (concat s)) (\<lambda>j. Inr (unravel_index j (l, g)))) mut_PLs)
       (\<lambda>k1.
     if k1 = [] then Inl IndexError else
     let k1l = map fst k1; k1g = map snd k1 in
     ebind (pick3 mut_PLs nn k1l k1g) (\<lambda>mut_PL.
     let mut_P_per_site = map (\<lambda>s. sum_list (map phred2p (concat s))) mut_PLs in
     ebind (mapE (\<lambda>node. getattr node ''PL0'') (iter_descendants tree3)) (\<lambda>null_PLs.
     ebind (pick2 null_PLs k1l nn) (\<lambda>rows.
     ebind (mapE argmin rows) (\<lambda>k2.
     let node_sids = map (\<lambda>node. join '','' (map str_int (sid node))) (iter_descendants tree3) in
     ebind (pick variants nn) (\<lambda>vs.
     ebind (div_vec null_P_per_site tree_P_per_site) (\<lambda>null_P.
     ebind (div_vec mut_P_per_site tree_P_per_site) (\<lambda>mut_P.
     ebind (pick GTYPE10 k0) (\<lambda>null_bases.
     ebind (div_vec (map phred2p null_PL) tree_P_per_site) (\<lambda>null_base_P.
     ebind (pick GTYPE10 k1g) (\<lambda>mut_bases.
     ebind (pick GTYPE10 k2) (\<lambda>mut_alts.
     ebind (div_vec (map phred2p mut_PL) tree_P_per_site) (\<lambda>mut_conf_P.
     ebind (pick node_sids k1l) (\<lambda>mut_smpls.
     let records = map (\<lambda>s.
           \<lparr> chrom = take 10 (fst (vs ! s)), pos = fst (snd (vs ! s)),
             ref = take 1 (snd (snd (vs ! s))),
             null_p = null_P ! s, mut_p = mut_P ! s,
             null_base = take 2 (null_bases ! s), null_base_p = null_base_P ! s,
             mut_base = take 2 (mut_bases ! s), mut_alt = take 2 (mut_alts ! s),
             mut_conf_p = mut_conf_P ! s, mut_loc = k1l ! s,
             mut_smpl = take 128 (mut_smpls ! s) \<rparr>) nn in
     ebind (p2phred_vec (map (\<lambda>r. mut_p r + null_p r) records)) (\<lambda>ph.
     Inr (records, sum_list ph))))))))))))))))))))))))))))"

text \<open>A square matrix of side \<open>n\<close>.\<close>

definition square :: "nat \<Rightarrow> arr2 \<Rightarrow> bool" where
  "square n mm = (length mm = n \<and> list_all (\<lambda>row. length row = n) mm)"

text \<open>Shapes: an array of \<open>n\<close> rows of length \<open>g\<close>, and the genotype axis of \<open>PLs\<close>.\<close>

definition shape2 :: "nat \<Rightarrow> nat \<Rightarrow> 'a list list \<Rightarrow> bool" where
  "shape2 n g a = (length a = n \<and> list_all (\<lambda>row. length row = g) a)"

definition geno_axis :: "nat \<Rightarrow> 'a list list list \<Rightarrow> bool" where
  "geno_axis g PLs = list_all (list_all (\<lambda>v. length v = g)) PLs"

text \<open>
  Entry \<open>j\<close> of \<open>np.dot(phred2p(v), mm)\<close> for a matrix of \<open>g\<close> rows, and a matrix whose
  entries are not negative and whose columns each have a positive entry.
\<close>

definition prob_dot :: "nat \<Rightarrow> arr2 \<Rightarrow> vec \<Rightarrow> nat \<Rightarrow> real" where
  "prob_dot g mm v j = (\<Sum>i<g. phred2p (v ! i) * mm ! i ! j)"

definition positive_cols :: "nat \<Rightarrow> arr2 \<Rightarrow> bool" where
  "positive_cols g mm =
     list_all (\<lambda>j. list_all (\<lambda>i. 0 \<le> mm ! i ! j) [0..<g] \<and> list_ex (\<lambda>i. 0 < mm ! i ! j) [0..<g])
       [0..<g]"

text \<open>The tree without the attribute of a given name: structure and everything else.\<close>

fun erase :: "string \<Rightarrow> tree \<Rightarrow> tree" where
  "erase attr (Node s a p cs) = Node s (a(attr := None)) p (map (erase attr) cs)"

text \<open>Every leaf has a sample identifier that indexes one of \<open>m\<close> samples.\<close>

fun leaves_in :: "nat \<Rightarrow> tree \<Rightarrow> bool" where
  "leaves_in m (Node s a p cs) =
     (if cs = [] then s \<noteq> [] \<and> - int m \<le> hd s \<and> hd s < int m
      else list_all (leaves_in m) cs)"

text \<open>
  What the pruning pass leaves at one node \<open>u\<close>, for \<open>n\<close> sites and \<open>g\<close> genotypes: at a
  leaf the column of its sample, at an internal node the sum over the children of
  \<open>p2phred\<close> of the product of the child's probabilities with \<open>mm\<close>.
\<close>

definition pruned_at :: "arr3 \<Rightarrow> arr2 \<Rightarrow> string \<Rightarrow> tree \<Rightarrow> bool" where
  "pruned_at PLs mm attr u =
     (let n = length PLs; g = ncols (concat PLs) in
      case attrs u attr of
        None \<Rightarrow> False
      | Some v \<Rightarrow>
          if children u = [] then sid u \<noteq> [] \<and> sample_column PLs (hd (sid u)) = Inr v
          else shape2 n g v \<and>
               list_all (\<lambda>s. list_all (\<lambda>j.
                  v ! s ! j = (\<Sum>c\<leftarrow>children u. p2phred (prob_dot g mm (the (attrs c attr) ! s) j)))
                  [0..<g]) [0..<n])"

text \<open>A fully binary tree: every node has no child or two.\<close>

fun binary :: "tree \<Rightarrow> bool" where
  "binary (Node s a p cs) = (cs = [] \<or> (length cs = 2 \<and> list_all binary cs))"

text \<open>
  A node below the root is named by its path, the list of child indices from the root.
  \<open>descendant_paths\<close> lists the paths of all nodes other than the root in post-order.
\<close>

fun subtree_at :: "tree \<Rightarrow> nat list \<Rightarrow> tree" where
  "subtree_at t [] = t"
| "subtree_at t (k # p) = subtree_at (children t ! k) p"

fun valid_path :: "tree \<Rightarrow> nat list \<Rightarrow> bool" where
  "valid_path t [] = True"
| "valid_path t (k # p) = (k < length (children t) \<and> valid_path (children t ! k) p)"

fun descendant_paths :: "tree \<Rightarrow> nat list list"
and child_paths :: "nat \<Rightarrow> tree list \<Rightarrow> nat list list" where
  "descendant_paths (Node s a p cs) = child_paths 0 cs"
| "child_paths k [] = []"
| "child_paths k (c # cs) =
     map ((#) k) (descendant_paths c) @ [[k]] @ child_paths (Suc k) cs"

text \<open>
  The likelihood of one mutation on the edge above the node at a path, after section 4.6
  of the specification: on the edge of a child, the child's no-mutation aggregate goes
  through \<open>mm1\<close> and the sibling's through \<open>mm0\<close>; a placement deeper in the subtree of a
  child is the child's placement carried through \<open>mm0\<close>, with the sibling's no-mutation
  aggregate through \<open>mm0\<close>.  The root (the empty path) is no placement, and a path that
  leaves the tree names none.
\<close>

definition carried :: "arr2 \<Rightarrow> tree \<Rightarrow> arr2 \<Rightarrow> error + arr2" where
  "carried x sister mm0 =
     ebind (transfer2 x mm0) (\<lambda>x'.
     ebind (getattr sister ''PL0'') (\<lambda>s0.
     ebind (transfer2 s0 mm0) (\<lambda>y.
     add2 x' y)))"

fun placement :: "arr2 \<Rightarrow> arr2 \<Rightarrow> tree \<Rightarrow> nat list \<Rightarrow> error + arr2" where
  "placement mm0 mm1 t [] = Inl IndexError"
| "placement mm0 mm1 t [k] =
     (if k < length (children t) then
        ebind (get_sister (children t) k) (\<lambda>sister.
        on_edge (children t ! k) sister mm0 mm1)
      else Inl IndexError)"
| "placement mm0 mm1 t (k # k' # p) =
     (if k < length (children t) then
        ebind (get_sister (children t) k) (\<lambda>sister.
        ebind (placement mm0 mm1 (children t ! k) (k' # p)) (\<lambda>x.
        carried x sister mm0))
      else Inl IndexError)"

text \<open>The tree without its \<open>PLm\<close> arrays, and a tree whose \<open>PL0\<close> arrays all have one shape.\<close>

fun erase_PLm :: "tree \<Rightarrow> tree" where
  "erase_PLm (Node s a p cs) = Node s a None (map erase_PLm cs)"

definition all_PL0 :: "nat \<Rightarrow> nat \<Rightarrow> tree \<Rightarrow> bool" where
  "all_PL0 n g t =
     list_all (\<lambda>u. case attrs u ''PL0'' of None \<Rightarrow> False | Some a \<Rightarrow> shape2 n g a)
       (traverse_postorder t)"

text \<open>The placement entries that a node holds: none at a leaf.\<close>

definition slabs :: "tree \<Rightarrow> arr3" where
  "slabs c = (if is_leaf c then [] else case PLm c of None \<Rightarrow> [] | Some cm \<Rightarrow> cm)"

text \<open>The structure of a tree: its nodes and their sample identifiers, no array.\<close>

fun skel :: "tree \<Rightarrow> tree" where
  "skel (Node s a p cs) = Node s (\<lambda>x. None) None (map skel cs)"

section \<open>The passes read site by site\<close>

text \<open>
  The passes work on whole arrays, one row per site.  The functions below compute, for one
  site (the list of the vectors of its samples), what the passes leave in the row of that
  site; they are used to state and prove that the sites do not interact.  \<open>tr\<close> is
  \<open>p2phred\<close> of the product of the probabilities of a vector with a matrix, \<open>prune\<close> the
  aggregate of a node, \<open>place\<close> the likelihood of the mutation on the edge above the node
  at a path.  The \<open>_ok\<close> predicates say that no logarithm of a non-positive number is taken
  and that the leaves name samples of the site.
\<close>

definition tr :: "nat \<Rightarrow> arr2 \<Rightarrow> vec \<Rightarrow> vec" where
  "tr g mm v = map (\<lambda>j. p2phred (prob_dot g mm v j)) [0..<g]"

definition tr_ok :: "nat \<Rightarrow> arr2 \<Rightarrow> vec \<Rightarrow> bool" where
  "tr_ok g mm v = list_all (\<lambda>j. 0 < prob_dot g mm v j) [0..<g]"

fun prune :: "nat \<Rightarrow> arr2 \<Rightarrow> vec list \<Rightarrow> tree \<Rightarrow> vec" where
  "prune g mm site (Node s a p cs) =
     (if cs = [] then (case np_get site (hd s) of Inl e \<Rightarrow> [] | Inr v \<Rightarrow> v)
      else map (\<lambda>j. \<Sum>c\<leftarrow>cs. tr g mm (prune g mm site c) ! j) [0..<g])"

fun prune_ok :: "nat \<Rightarrow> arr2 \<Rightarrow> vec list \<Rightarrow> tree \<Rightarrow> bool" where
  "prune_ok g mm site (Node s a p cs) =
     (if cs = [] then s \<noteq> [] \<and> - int (length site) \<le> hd s \<and> hd s < int (length site)
      else list_all (\<lambda>c. prune_ok g mm site c \<and> tr_ok g mm (prune g mm site c)) cs)"

fun place :: "nat \<Rightarrow> arr2 \<Rightarrow> arr2 \<Rightarrow> vec list \<Rightarrow> tree \<Rightarrow> nat list \<Rightarrow> vec" where
  "place g mm0 mm1 site t [] = []"
| "place g mm0 mm1 site t [k] =
     map2 (+) (tr g mm1 (prune g mm0 site (children t ! k)))
              (tr g mm0 (prune g mm0 site (projr (get_sister (children t) k))))"
| "place g mm0 mm1 site t (k # k' # q) =
     map2 (+) (tr g mm0 (place g mm0 mm1 site (children t ! k) (k' # q)))
              (tr g mm0 (prune g mm0 site (projr (get_sister (children t) k))))"

fun place_ok :: "nat \<Rightarrow> arr2 \<Rightarrow> arr2 \<Rightarrow> vec list \<Rightarrow> tree \<Rightarrow> nat list \<Rightarrow> bool" where
  "place_ok g mm0 mm1 site t [] = False"
| "place_ok g mm0 mm1 site t [k] =
     (tr_ok g mm1 (prune g mm0 site (children t ! k))
      \<and> tr_ok g mm0 (prune g mm0 site (projr (get_sister (children t) k))))"
| "place_ok g mm0 mm1 site t (k # k' # q) =
     (place_ok g mm0 mm1 site (children t ! k) (k' # q)
      \<and> tr_ok g mm0 (place g mm0 mm1 site (children t ! k) (k' # q))
      \<and> tr_ok g mm0 (prune g mm0 site (projr (get_sister (children t) k))))"

text \<open>A tree whose no-mutation aggregates are the rows that \<open>prune\<close> computes.\<close>

definition PL0_rows :: "nat \<Rightarrow> arr2 \<Rightarrow> arr3 \<Rightarrow> tree \<Rightarrow> bool" where
  "PL0_rows g mm0 PLs t =
     list_all (\<lambda>u. attrs u ''PL0'' = Some (map (\<lambda>site. prune g mm0 site u) PLs)
                  \<and> list_all (\<lambda>site. length (prune g mm0 site u) = g) PLs)
       (traverse_postorder t)"

text \<open>The index that \<open>argmin\<close> returns on a vector that is not empty.\<close>

definition argmin_index :: "vec \<Rightarrow> nat" where
  "argmin_index xs = argmin_from (hd xs) 0 1 (tl xs)"

text \<open>The record of one site, and the conditions under which the site raises nothing.\<close>

definition site_call ::
  "nat \<Rightarrow> arr2 \<Rightarrow> arr2 \<Rightarrow> arr2 \<Rightarrow> vec \<Rightarrow> tree \<Rightarrow> vec list \<Rightarrow> string \<times> int \<times> string
   \<Rightarrow> site_record" where
  "site_call g mm mm0 mm1 base_prior tree site variant =
     (let tree_PL = map2 (+) (prune g mm site tree) base_prior;
          tree_PL0 = map2 (+) (prune g mm0 site tree) base_prior;
          mut_PLs = map (\<lambda>p. map2 (+) (place g mm0 mm1 site tree p) base_prior)
                      (descendant_paths tree);
          tree_P = sum_list (map phred2p tree_PL);
          k0 = argmin_index tree_PL0;
          k1 = argmin_index (concat mut_PLs);
          k1l = k1 div g;
          k1g = k1 mod g;
          node = iter_descendants tree ! k1l;
          k2 = argmin_index (prune g mm0 site node)
      in \<lparr> chrom = take 10 (fst variant), pos = fst (snd variant),
           ref = take 1 (snd (snd variant)),
           null_p = sum_list (map phred2p tree_PL0) / tree_P,
           mut_p = sum_list (map phred2p (concat mut_PLs)) / tree_P,
           null_base = take 2 (GTYPE10 ! k0),
           null_base_p = phred2p (tree_PL0 ! k0) / tree_P,
           mut_base = take 2 (GTYPE10 ! k1g),
           mut_alt = take 2 (GTYPE10 ! k2),
           mut_conf_p = phred2p (mut_PLs ! k1l ! k1g) / tree_P,
           mut_loc = k1l,
           mut_smpl = take 128 (join '','' (map str_int (sid node))) \<rparr>)"

definition site_ok :: "nat \<Rightarrow> arr2 \<Rightarrow> arr2 \<Rightarrow> arr2 \<Rightarrow> tree \<Rightarrow> vec list \<Rightarrow> bool" where
  "site_ok g mm mm0 mm1 tree site =
     (prune_ok g mm site tree \<and> prune_ok g mm0 site tree
      \<and> list_all (place_ok g mm0 mm1 site tree) (descendant_paths tree))"

text \<open>
  The batch read site by site: it raises on an empty batch, on a batch longer than
  \<open>variants\<close> and when a site raises; otherwise it returns the records of the sites, in
  order, and the sum of their scores.
\<close>

definition genotype_by_site ::
  "nat \<Rightarrow> arr3 \<Rightarrow> tree \<Rightarrow> (string \<times> int \<times> string) list \<Rightarrow> arr2 \<Rightarrow> arr2 \<Rightarrow> arr2 \<Rightarrow> vec
   \<Rightarrow> (site_record list \<times> real) option" where
  "genotype_by_site g PLs tree variants mm mm0 mm1 base_prior =
     (if PLs \<noteq> [] \<and> length PLs \<le> length variants \<and> list_all (site_ok g mm mm0 mm1 tree) PLs
      then let records = map2 (site_call g mm mm0 mm1 base_prior tree) PLs variants
           in Some (records, \<Sum>r\<leftarrow>records. p2phred (mut_p r + null_p r))
      else None)"


text \<open>
  The second half of \<open>genotype\<close>, after the three passes over the tree: the part that reads
  the arrays \<open>tree_PL\<close>, \<open>tree_PL0\<close> and \<open>mut_PLs\<close> and builds the records.
\<close>

definition call_sites ::
  "arr2 \<Rightarrow> arr2 \<Rightarrow> arr3 \<Rightarrow> tree \<Rightarrow> (string \<times> int \<times> string) list
   \<Rightarrow> error + (site_record list \<times> real)" where
  "call_sites tree_PL tree_PL0 mut_PLs tree3 variants =
     (let n = length mut_PLs; l = ncols mut_PLs; g = ncols (concat mut_PLs);
         nn = [0..<n] in
     ebind (mapE argmin tree_PL) (\<lambda>k.
     let tree_P_per_site = map (\<lambda>row. sum_list (map phred2p row)) tree_PL in
     ebind (mapE argmin tree_PL0) (\<lambda>k0.
     ebind (pick2 tree_PL0 nn k0) (\<lambda>null_PL.
     let null_P_per_site = map (\<lambda>row. sum_list (map phred2p row)) tree_PL0 in
     ebind (mapE (\<lambda>s. ebind (argmin (concat s)) (\<lambda>j. Inr (unravel_index j (l, g)))) mut_PLs)
       (\<lambda>k1.
     if k1 = [] then Inl IndexError else
     let k1l = map fst k1; k1g = map snd k1 in
     ebind (pick3 mut_PLs nn k1l k1g) (\<lambda>mut_PL.
     let mut_P_per_site = map (\<lambda>s. sum_list (map phred2p (concat s))) mut_PLs in
     ebind (mapE (\<lambda>node. getattr node ''PL0'') (iter_descendants tree3)) (\<lambda>null_PLs.
     ebind (pick2 null_PLs k1l nn) (\<lambda>rows.
     ebind (mapE argmin rows) (\<lambda>k2.
     let node_sids = map (\<lambda>node. join '','' (map str_int (sid node))) (iter_descendants tree3) in
     ebind (pick variants nn) (\<lambda>vs.
     ebind (div_vec null_P_per_site tree_P_per_site) (\<lambda>null_P.
     ebind (div_vec mut_P_per_site tree_P_per_site) (\<lambda>mut_P.
     ebind (pick GTYPE10 k0) (\<lambda>null_bases.
     ebind (div_vec (map phred2p null_PL) tree_P_per_site) (\<lambda>null_base_P.
     ebind (pick GTYPE10 k1g) (\<lambda>mut_bases.
     ebind (pick GTYPE10 k2) (\<lambda>mut_alts.
     ebind (div_vec (map phred2p mut_PL) tree_P_per_site) (\<lambda>mut_conf_P.
     ebind (pick node_sids k1l) (\<lambda>mut_smpls.
     let records = map (\<lambda>s.
           \<lparr> chrom = take 10 (fst (vs ! s)), pos = fst (snd (vs ! s)),
             ref = take 1 (snd (snd (vs ! s))),
             null_p = null_P ! s, mut_p = mut_P ! s,
             null_base = take 2 (null_bases ! s), null_base_p = null_base_P ! s,
             mut_base = take 2 (mut_bases ! s), mut_alt = take 2 (mut_alts ! s),
             mut_conf_p = mut_conf_P ! s, mut_loc = k1l ! s,
             mut_smpl = take 128 (mut_smpls ! s) \<rparr>) nn in
     ebind (p2phred_vec (map (\<lambda>r. mut_p r + null_p r) records)) (\<lambda>ph.
     Inr (records, sum_list ph))))))))))))))))))))"

text \<open>
  The nodes that step 4 of the specification names, in its words (``all internal nodes''):
  the nodes that are not leaves, in post-order.  The caller does not use this list, it
  lists all nodes below the root (\<open>iter_descendants\<close>); the two are compared below.
\<close>

definition spec_internal_nodes :: "tree \<Rightarrow> tree list" where
  "spec_internal_nodes t = filter (\<lambda>u. \<not> is_leaf u) (traverse_postorder t)"

section \<open>The caller with a store\<close>

text \<open>
  The definitions above take the tree and the arrays as values, so they cannot say whether
  \<open>genotype\<close> changes what its caller holds.  Here the node objects and the array buffers
  live in a store.  A node object has an identifier and a dictionary of attributes, each a
  reference to an array; an array is a buffer of its own (\<open>Own\<close>) or the view
  \<open>PLs[:, i,]\<close> of a buffer (\<open>Col\<close>), as the leaves get from \<open>populate_tree_PL\<close>.  The
  structure of a tree (\<open>sid\<close>, \<open>children\<close>) is never assigned to by the code and is kept
  in the handle \<open>obj\<close>.
\<close>

datatype buf = A2 arr2 | A3 arr3

datatype ref = Own nat | Col nat int

record store =
  objs :: "nat \<Rightarrow> (string \<times> ref) list"
  bufs :: "nat \<Rightarrow> buf option"
  nobj :: nat
  nbuf :: nat

datatype obj = Obj (oid: nat) (osid: "int list") (okids: "obj list")

text \<open>Computations on the store that may raise: the store is kept when they do.\<close>

type_synonym 'a st = "store \<Rightarrow> (error + 'a) \<times> store"

definition ret :: "'a \<Rightarrow> 'a st" where
  "ret x = (\<lambda>s. (Inr x, s))"

definition lft :: "error + 'a \<Rightarrow> 'a st" where
  "lft r = (\<lambda>s. (r, s))"

definition bnd :: "'a st \<Rightarrow> ('a \<Rightarrow> 'b st) \<Rightarrow> 'b st" where
  "bnd m f = (\<lambda>s. case m s of (Inl e, s') \<Rightarrow> (Inl e, s') | (Inr x, s') \<Rightarrow> f x s')"

text \<open>A new array and a new node object take the next free identifier.\<close>

definition new_buf :: "buf \<Rightarrow> nat st" where
  "new_buf v = (\<lambda>s. (Inr (nbuf s), s\<lparr>bufs := (bufs s)(nbuf s \<mapsto> v), nbuf := Suc (nbuf s)\<rparr>))"

definition new_obj :: "(string \<times> ref) list \<Rightarrow> nat st" where
  "new_obj d = (\<lambda>s. (Inr (nobj s), s\<lparr>objs := (objs s)(nobj s := d), nobj := Suc (nobj s)\<rparr>))"

text \<open>The value of an array: a view reads the buffer it is a view of.\<close>

definition read :: "ref \<Rightarrow> buf st" where
  "read r = (\<lambda>s.
     (case r of
        Own b \<Rightarrow> (case bufs s b of None \<Rightarrow> Inl AttributeError | Some v \<Rightarrow> Inr v)
      | Col b i \<Rightarrow> (case bufs s b of
                     Some (A3 a) \<Rightarrow> (case sample_column a i of Inl e \<Rightarrow> Inl e
                                                             | Inr c \<Rightarrow> Inr (A2 c))
                   | _ \<Rightarrow> Inl IndexError), s))"

definition read2 :: "ref \<Rightarrow> arr2 st" where
  "read2 r = bnd (read r) (\<lambda>v. case v of A2 a \<Rightarrow> ret a | A3 a \<Rightarrow> lft (Inl ValueError))"

definition read3 :: "ref \<Rightarrow> arr3 st" where
  "read3 r = bnd (read r) (\<lambda>v. case v of A3 a \<Rightarrow> ret a | A2 a \<Rightarrow> lft (Inl ValueError))"

text \<open>\<open>getattr\<close> and \<open>setattr\<close> on a node object.\<close>

definition get_attr :: "nat \<Rightarrow> string \<Rightarrow> ref st" where
  "get_attr i name = (\<lambda>s.
     (case map_of (objs s i) name of None \<Rightarrow> Inl AttributeError | Some r \<Rightarrow> Inr r, s))"

definition set_attr :: "nat \<Rightarrow> string \<Rightarrow> ref \<Rightarrow> unit st" where
  "set_attr i name r = (\<lambda>s.
     (Inr (), s\<lparr>objs := (objs s)(i := (name, r) # filter (\<lambda>kv. fst kv \<noteq> name) (objs s i))\<rparr>))"

text \<open>
  Assignment into an array in place: a buffer of its own is overwritten; through a view the
  buffer under the view is written, at the column of the view.
\<close>

definition put_column :: "arr3 \<Rightarrow> int \<Rightarrow> arr2 \<Rightarrow> arr3" where
  "put_column a i c =
     map2 (\<lambda>site row. site[nat (if i < 0 then i + int (length site) else i) := row]) a c"

definition store_back :: "ref \<Rightarrow> buf \<Rightarrow> unit st" where
  "store_back r v = (\<lambda>s.
     (case r of
        Own b \<Rightarrow> (Inr (), s\<lparr>bufs := (bufs s)(b \<mapsto> v)\<rparr>)
      | Col b i \<Rightarrow> (case bufs s b of
                     Some (A3 a) \<Rightarrow> (case v of
                                       A2 c \<Rightarrow> (Inr (), s\<lparr>bufs := (bufs s)(b \<mapsto> A3 (put_column a i c))\<rparr>)
                                     | A3 c \<Rightarrow> (Inl ValueError, s))
                   | _ \<Rightarrow> (Inl IndexError, s))))"

definition update_ref :: "ref \<Rightarrow> (buf \<Rightarrow> error + buf) \<Rightarrow> unit st" where
  "update_ref r f = bnd (read r) (\<lambda>v. bnd (lft (f v)) (\<lambda>v'. store_back r v'))"

text \<open>
  \<open>tree.copy()\<close> (pickling): every node is a new object, and every attribute of the copy is
  a new array with the value of the original, also where the original is a view.
\<close>

fun copy_attrs :: "(string \<times> ref) list \<Rightarrow> (string \<times> ref) list st" where
  "copy_attrs [] = ret []"
| "copy_attrs (kr # d) =
     bnd (read (snd kr)) (\<lambda>v.
     bnd (new_buf v) (\<lambda>b.
     bnd (copy_attrs d) (\<lambda>d'.
     ret ((fst kr, Own b) # d'))))"

fun copy_obj :: "obj \<Rightarrow> obj st"
and copy_objs :: "obj list \<Rightarrow> obj list st" where
  "copy_obj (Obj i sd ks) =
     bnd (copy_objs ks) (\<lambda>ks'.
     bnd (\<lambda>s. (Inr (objs s i), s)) (\<lambda>d.
     bnd (copy_attrs d) (\<lambda>d'.
     bnd (new_obj d') (\<lambda>j.
     ret (Obj j sd ks')))))"
| "copy_objs [] = ret []"
| "copy_objs (k # ks) =
     bnd (copy_obj k) (\<lambda>k'.
     bnd (copy_objs ks) (\<lambda>ks'.
     ret (k' # ks')))"

text \<open>\<open>populate_tree_PL\<close>: \<open>PLs\<close> is the buffer \<open>P\<close>; a leaf gets a view of it.\<close>

fun add_children_h :: "nat \<Rightarrow> obj list \<Rightarrow> arr2 \<Rightarrow> string \<Rightarrow> unit st" where
  "add_children_h i [] mm attr = ret ()"
| "add_children_h i (c # rest) mm attr =
     bnd (get_attr i attr) (\<lambda>ra.
     bnd (read2 ra) (\<lambda>a.
     bnd (get_attr (oid c) attr) (\<lambda>rc.
     bnd (read2 rc) (\<lambda>cv.
     bnd (lft (transfer2 cv mm)) (\<lambda>x.
     bnd (lft (add2 a x)) (\<lambda>y.
     bnd (new_buf (A2 y)) (\<lambda>b.
     bnd (set_attr i attr (Own b)) (\<lambda>u.
     add_children_h i rest mm attr))))))))"

fun populate_obj :: "nat \<Rightarrow> nat \<Rightarrow> obj \<Rightarrow> nat \<Rightarrow> arr2 \<Rightarrow> string \<Rightarrow> unit st"
and populate_objs :: "nat \<Rightarrow> nat \<Rightarrow> obj list \<Rightarrow> nat \<Rightarrow> arr2 \<Rightarrow> string \<Rightarrow> unit st" where
  "populate_obj n g (Obj i sd ks) P mm attr =
     (if ks = [] then
        bnd (lft (np_get sd 0)) (\<lambda>idx.
        bnd (read (Col P idx)) (\<lambda>v.
        set_attr i attr (Col P idx)))
      else
        bnd (populate_objs n g ks P mm attr) (\<lambda>u.
        bnd (new_buf (A2 (zeros2 n g))) (\<lambda>z.
        bnd (set_attr i attr (Own z)) (\<lambda>u.
        add_children_h i ks mm attr))))"
| "populate_objs n g [] P mm attr = ret ()"
| "populate_objs n g (c # cs) P mm attr =
     bnd (populate_obj n g c P mm attr) (\<lambda>u. populate_objs n g cs P mm attr)"

definition populate_tree_PL_h :: "obj \<Rightarrow> nat \<Rightarrow> arr2 \<Rightarrow> string \<Rightarrow> unit st" where
  "populate_tree_PL_h tree P mm attr =
     bnd (read3 (Own P)) (\<lambda>a.
     populate_obj (length a) (ncols (concat a)) tree P mm attr)"

text \<open>\<open>calc_mut_likelihoods\<close>: the arrays \<open>PLm\<close> are new, and are then assigned into in place.\<close>

fun len_obj :: "obj \<Rightarrow> nat" where
  "len_obj (Obj i sd ks) = (if ks = [] then 1 else sum_list (map len_obj ks))"

fun alloc_PLm :: "nat \<Rightarrow> nat \<Rightarrow> obj \<Rightarrow> unit st"
and alloc_PLms :: "nat \<Rightarrow> nat \<Rightarrow> obj list \<Rightarrow> unit st" where
  "alloc_PLm n g (Obj i sd ks) =
     bnd (alloc_PLms n g ks) (\<lambda>u.
     if ks = [] then ret ()
     else bnd (new_buf (A3 (zeros3 (2 * len_obj (Obj i sd ks) - 2) n g))) (\<lambda>b.
          set_attr i ''PLm'' (Own b)))"
| "alloc_PLms n g [] = ret ()"
| "alloc_PLms n g (c # cs) = bnd (alloc_PLm n g c) (\<lambda>u. alloc_PLms n g cs)"

definition get_sister_obj :: "obj list \<Rightarrow> nat \<Rightarrow> error + obj" where
  "get_sister_obj cs k =
     (case take k cs @ drop (Suc k) cs of [] \<Rightarrow> Inl IndexError | s # r \<Rightarrow> Inr s)"

definition with_sisters_obj :: "obj list \<Rightarrow> (obj \<times> (error + obj)) list" where
  "with_sisters_obj cs = map (\<lambda>k. (cs ! k, get_sister_obj cs k)) [0..<length cs]"

definition sister_PL0 :: "obj \<Rightarrow> arr2 \<Rightarrow> arr2 st" where
  "sister_PL0 sister mm0 =
     bnd (get_attr (oid sister) ''PL0'') (\<lambda>rs.
     bnd (read2 rs) (\<lambda>s0.
     lft (transfer2 s0 mm0)))"

definition inherited_h :: "obj \<Rightarrow> obj \<Rightarrow> arr2 \<Rightarrow> arr3 st" where
  "inherited_h child sister mm0 =
     bnd (get_attr (oid child) ''PLm'') (\<lambda>rc.
     bnd (read3 rc) (\<lambda>cm.
     bnd (lft (transfer3 cm mm0)) (\<lambda>x.
     bnd (sister_PL0 sister mm0) (\<lambda>y.
     lft (add3_2 x y)))))"

definition on_edge_h :: "obj \<Rightarrow> obj \<Rightarrow> arr2 \<Rightarrow> arr2 \<Rightarrow> arr2 st" where
  "on_edge_h child sister mm0 mm1 =
     bnd (get_attr (oid child) ''PL0'') (\<lambda>rc.
     bnd (read2 rc) (\<lambda>c0.
     bnd (lft (transfer2 c0 mm1)) (\<lambda>x.
     bnd (sister_PL0 sister mm0) (\<lambda>y.
     lft (add2 x y)))))"

definition assign_slice :: "nat \<Rightarrow> nat \<Rightarrow> nat \<Rightarrow> nat \<Rightarrow> arr3 \<Rightarrow> buf \<Rightarrow> error + buf" where
  "assign_slice n g k l v old =
     (case old of A3 plm \<Rightarrow> ebind (set_slice n g plm k l v) (\<lambda>p. Inr (A3 p))
                | A2 a \<Rightarrow> Inl ValueError)"

definition assign_item :: "nat \<Rightarrow> nat \<Rightarrow> nat \<Rightarrow> arr2 \<Rightarrow> buf \<Rightarrow> error + buf" where
  "assign_item n g k e old =
     (case old of A3 plm \<Rightarrow> ebind (set_item n g plm k e) (\<lambda>p. Inr (A3 p))
                | A2 a \<Rightarrow> Inl ValueError)"

fun fill_h ::
  "nat \<Rightarrow> nat \<Rightarrow> arr2 \<Rightarrow> arr2 \<Rightarrow> nat \<Rightarrow> (obj \<times> (error + obj)) list \<Rightarrow> nat \<Rightarrow> unit st" where
  "fill_h n g mm0 mm1 i [] k = ret ()"
| "fill_h n g mm0 mm1 i (cs # rest) k =
     bnd (lft (snd cs)) (\<lambda>sister.
     bnd (if okids (fst cs) \<noteq> [] then
            bnd (get_attr (oid (fst cs)) ''PLm'') (\<lambda>rc.
            bnd (read3 rc) (\<lambda>cm.
            bnd (inherited_h (fst cs) sister mm0) (\<lambda>v.
            bnd (get_attr i ''PLm'') (\<lambda>rp.
            bnd (update_ref rp (assign_slice n g k (length cm) v)) (\<lambda>u.
            ret (k + length cm))))))
          else ret k) (\<lambda>k'.
     bnd (on_edge_h (fst cs) sister mm0 mm1) (\<lambda>e.
     bnd (get_attr i ''PLm'') (\<lambda>rp.
     bnd (update_ref rp (assign_item n g k' e)) (\<lambda>u.
     fill_h n g mm0 mm1 i rest (Suc k'))))))"

fun fill_obj :: "nat \<Rightarrow> nat \<Rightarrow> arr2 \<Rightarrow> arr2 \<Rightarrow> obj \<Rightarrow> unit st"
and fill_objs :: "nat \<Rightarrow> nat \<Rightarrow> arr2 \<Rightarrow> arr2 \<Rightarrow> obj list \<Rightarrow> unit st" where
  "fill_obj n g mm0 mm1 (Obj i sd ks) =
     bnd (fill_objs n g mm0 mm1 ks) (\<lambda>u.
     fill_h n g mm0 mm1 i (with_sisters_obj ks) 0)"
| "fill_objs n g mm0 mm1 [] = ret ()"
| "fill_objs n g mm0 mm1 (c # cs) =
     bnd (fill_obj n g mm0 mm1 c) (\<lambda>u. fill_objs n g mm0 mm1 cs)"

definition calc_mut_likelihoods_h :: "obj \<Rightarrow> arr2 \<Rightarrow> arr2 \<Rightarrow> unit st" where
  "calc_mut_likelihoods_h tree mm0 mm1 =
     bnd (get_attr (oid tree) ''PL0'') (\<lambda>r.
     bnd (read2 r) (\<lambda>pl0.
     bnd (alloc_PLm (length pl0) (ncols pl0) tree) (\<lambda>u.
     fill_obj (length pl0) (ncols pl0) mm0 mm1 tree)))"

text \<open>The tree of values that a handle stands for in a store.\<close>

definition attr_value :: "store \<Rightarrow> nat \<Rightarrow> string \<Rightarrow> buf option" where
  "attr_value s i name =
     (case map_of (objs s i) name of
        None \<Rightarrow> None
      | Some r \<Rightarrow> (case fst (read r s) of Inl e \<Rightarrow> None | Inr v \<Rightarrow> Some v))"

fun snapshot :: "store \<Rightarrow> obj \<Rightarrow> tree" where
  "snapshot s (Obj i sd ks) =
     Node sd (\<lambda>name. case attr_value s i name of Some (A2 a) \<Rightarrow> Some a | _ \<Rightarrow> None)
       (case attr_value s i ''PLm'' of Some (A3 a) \<Rightarrow> Some a | _ \<Rightarrow> None)
       (map (snapshot s) ks)"

text \<open>
  \<open>genotype\<close>: \<open>mut_PLs\<close> is a view of the array \<open>tree.PLm\<close> with two axes swapped, so
  \<open>mut_PLs += base_prior\<close> writes that array.  What follows only reads.
\<close>

definition genotype_h ::
  "nat \<Rightarrow> obj \<Rightarrow> (string \<times> int \<times> string) list \<Rightarrow> arr2 \<Rightarrow> arr2 \<Rightarrow> arr2 \<Rightarrow> vec
   \<Rightarrow> (site_record list \<times> real) st" where
  "genotype_h P tree variants mm mm0 mm1 base_prior =
     bnd (copy_obj tree) (\<lambda>t1.
     bnd (populate_tree_PL_h t1 P mm ''PL'') (\<lambda>u.
     bnd (get_attr (oid t1) ''PL'') (\<lambda>r.
     bnd (read2 r) (\<lambda>pl.
     bnd (lft (add2_1 pl base_prior)) (\<lambda>tree_PL.
     bnd (copy_obj t1) (\<lambda>t2.
     bnd (populate_tree_PL_h t2 P mm0 ''PL0'') (\<lambda>u.
     bnd (get_attr (oid t2) ''PL0'') (\<lambda>r0.
     bnd (read2 r0) (\<lambda>pl0.
     bnd (lft (add2_1 pl0 base_prior)) (\<lambda>tree_PL0.
     bnd (copy_obj t2) (\<lambda>t3.
     bnd (calc_mut_likelihoods_h t3 mm0 mm1) (\<lambda>u.
     bnd (get_attr (oid t3) ''PLm'') (\<lambda>rp.
     bnd (read3 rp) (\<lambda>plm.
     bnd (lft (iadd3_1 (swapaxes01 plm) base_prior)) (\<lambda>mut_PLs.
     bnd (store_back rp (A3 (swapaxes01 mut_PLs))) (\<lambda>u.
     (\<lambda>s. (call_sites tree_PL tree_PL0 mut_PLs (snapshot s t3) variants, s))))))))))))))))))"

text \<open>
  What a run leaves alone: the objects and the buffers that exist in the store \<open>s0\<close> at the
  start.  Along a run every attribute \<open>PLm\<close> of an object made since the start is a
  buffer made since the start; \<open>M\<close> is a bound below the next free object.
\<close>

definition keeps :: "store \<Rightarrow> store \<Rightarrow> bool" where
  "keeps s0 s = ((\<forall>i<nobj s0. objs s i = objs s0 i) \<and> (\<forall>b<nbuf s0. bufs s b = bufs s0 b)
                 \<and> nobj s0 \<le> nobj s \<and> nbuf s0 \<le> nbuf s)"

definition new_ref :: "store \<Rightarrow> ref \<Rightarrow> bool" where
  "new_ref s0 r = (case r of Own b \<Rightarrow> nbuf s0 \<le> b | Col b i \<Rightarrow> False)"

definition fresh_PLm :: "store \<Rightarrow> store \<Rightarrow> bool" where
  "fresh_PLm s0 s = (\<forall>i r. nobj s0 \<le> i \<and> i < nobj s \<and> map_of (objs s i) ''PLm'' = Some r
                        \<longrightarrow> new_ref s0 r)"

definition frame_inv :: "store \<Rightarrow> nat \<Rightarrow> store \<Rightarrow> bool" where
  "frame_inv s0 M s = (keeps s0 s \<and> fresh_PLm s0 s \<and> M \<le> nobj s)"

definition hoare :: "(store \<Rightarrow> bool) \<Rightarrow> 'a st \<Rightarrow> ('a \<Rightarrow> store \<Rightarrow> bool) \<Rightarrow> (store \<Rightarrow> bool) \<Rightarrow> bool" where
  "hoare P m Q E = (\<forall>s. P s \<longrightarrow> (case m s of (Inl e, s') \<Rightarrow> E s' | (Inr x, s') \<Rightarrow> Q x s'))"

fun bounded :: "nat \<Rightarrow> nat \<Rightarrow> obj \<Rightarrow> bool" where
  "bounded lo hi (Obj i sd ks) = (lo \<le> i \<and> i < hi \<and> list_all (bounded lo hi) ks)"

fun oids :: "obj \<Rightarrow> nat list" where
  "oids (Obj i sd ks) = i # concat (map oids ks)"

fun buf_of :: "ref \<Rightarrow> nat" where
  "buf_of (Own b) = b"
| "buf_of (Col b i) = b"

definition refs_below :: "store \<Rightarrow> bool" where
  "refs_below s =
     list_all (\<lambda>i. list_all (\<lambda>kr. buf_of (snd kr) < nbuf s) (objs s i)) [0..<nobj s]"

definition example_store :: store where
  "example_store =
     \<lparr>objs = (\<lambda>i. if i = 0 then [(''PL'', Own 1)] else if i = 1 then [(''PL'', Col 0 0)] else []),
      bufs = (\<lambda>b. if b = 0 then Some (A3 [[[10, 0], [0, 20]]])
                   else if b = 1 then Some (A2 [[5, 7]]) else None),
      nobj = 3, nbuf = 2\<rparr>"

definition example_handle :: obj where
  "example_handle = Obj 0 [0, 1] [Obj 1 [0] [], Obj 2 [1] []]"

section \<open>Properties of the genotype distance\<close>

lemma gdist2:
  "min (strdist [a, b] [c, d]) (strdist [a, b] (rev [c, d])) =
     (if (a = c \<and> b = d) \<or> (a = d \<and> b = c) then 0
      else if a = c \<or> b = d \<or> a = d \<or> b = c then 1 else 2)"
  by auto

lemma length2E:
  assumes "length g = 2" obtains a b where "g = [a, b]"
  using assms by (cases g; cases "tl g"; auto)

lemma gtype_distance_nth:
  "i < length gt \<Longrightarrow> j < length gt \<Longrightarrow>
   gtype_distance gt ! i ! j = min (strdist (gt ! i) (gt ! j)) (strdist (gt ! i) (rev (gt ! j)))"
  by (simp add: gtype_distance_def)

lemma gdist_entry_props:
  assumes "length g1 = 2" "length g2 = 2"
  shows "min (strdist g1 g1) (strdist g1 (rev g1)) = 0"
    and "min (strdist g1 g2) (strdist g1 (rev g2)) = min (strdist g2 g1) (strdist g2 (rev g1))"
    and "min (strdist (rev g1) g2) (strdist (rev g1) (rev g2)) =
         min (strdist g1 g2) (strdist g1 (rev g2))"
    and "min (strdist g1 (rev g2)) (strdist g1 (rev (rev g2))) =
         min (strdist g1 g2) (strdist g1 (rev g2))"
proof -
  obtain a b where g1: "g1 = [a, b]" using assms(1) by (rule length2E)
  obtain c d where g2: "g2 = [c, d]" using assms(2) by (rule length2E)
  have r1: "rev g1 = [b, a]" by (simp add: g1)
  show "min (strdist g1 g1) (strdist g1 (rev g1)) = 0"
    unfolding g1 by (subst gdist2) simp
  show "min (strdist g1 g2) (strdist g1 (rev g2)) = min (strdist g2 g1) (strdist g2 (rev g1))"
    unfolding g1 g2 by (subst gdist2, subst gdist2) auto
  show "min (strdist (rev g1) g2) (strdist (rev g1) (rev g2)) =
        min (strdist g1 g2) (strdist g1 (rev g2))"
    unfolding r1 unfolding g1 g2 by (subst gdist2, subst gdist2) auto
  show "min (strdist g1 (rev g2)) (strdist g1 (rev (rev g2))) =
        min (strdist g1 g2) (strdist g1 (rev g2))"
    by (simp add: min.commute)
qed

text \<open>
  Claim C9.  On every array of two-letter genotypes (the ten genotypes of \<open>GTYPE10\<close>
  among them) the distance matrix is zero on the diagonal and symmetric, and an entry does
  not change when the two alleles of either genotype are swapped; the distance of
  \<open>AC\<close> and \<open>CA\<close> is 0.
\<close>

theorem gtype_distance_unordered:
  assumes two: "\<forall>g \<in> set gt. length g = 2" and i: "i < length gt" and j: "j < length gt"
  shows "gtype_distance gt ! i ! i = 0
       \<and> gtype_distance gt ! i ! j = gtype_distance gt ! j ! i
       \<and> gtype_distance (map rev gt) ! i ! j = gtype_distance gt ! i ! j
       \<and> gtype_distance (gt[i := rev (gt ! i)]) ! i ! j = gtype_distance gt ! i ! j
       \<and> gtype_distance (gt[j := rev (gt ! j)]) ! i ! j = gtype_distance gt ! i ! j
       \<and> gtype_distance [''AC'', ''CA''] ! 0 ! 1 = 0"
proof -
  have li: "length (gt ! i) = 2" and lj: "length (gt ! j) = 2"
    using two i j by simp_all
  note P = gdist_entry_props
  have a: "gtype_distance gt ! i ! i = 0"
    using i P(1)[OF li li] by (simp add: gtype_distance_nth)
  have b: "gtype_distance gt ! i ! j = gtype_distance gt ! j ! i"
    using i j P(2)[OF li lj] by (simp add: gtype_distance_nth)
  have c: "gtype_distance (map rev gt) ! i ! j = gtype_distance gt ! i ! j"
    using i j P(3)[OF li lj] by (simp add: gtype_distance_nth min.commute)
  have d: "gtype_distance (gt[i := rev (gt ! i)]) ! i ! j = gtype_distance gt ! i ! j"
  proof (cases "i = j")
    case True
    have "length (rev (gt ! i)) = 2" using li by simp
    from P(1)[OF this this] P(1)[OF li li] i True show ?thesis
      by (simp add: gtype_distance_nth)
  next
    case False
    with i j P(3)[OF li lj] show ?thesis by (simp add: gtype_distance_nth)
  qed
  have e: "gtype_distance (gt[j := rev (gt ! j)]) ! i ! j = gtype_distance gt ! i ! j"
  proof (cases "i = j")
    case True
    have "length (rev (gt ! i)) = 2" using li by simp
    from P(1)[OF this this] P(1)[OF li li] i True show ?thesis
      by (simp add: gtype_distance_nth)
  next
    case False
    with i j P(4)[OF li lj] show ?thesis by (simp add: gtype_distance_nth)
  qed
  have f: "gtype_distance [''AC'', ''CA''] ! 0 ! 1 = 0"
    by (simp add: gtype_distance_def)
  from a b c d e f show ?thesis by blast
qed

theorem gtype_distance_unordered_witness:
  "(1::nat) < length GTYPE10 \<and> (5::nat) < length GTYPE10
   \<and> gtype_distance GTYPE10 ! 1 ! 1 = 0
   \<and> gtype_distance GTYPE10 ! 1 ! 5 = gtype_distance GTYPE10 ! 5 ! 1
   \<and> gtype_distance (map rev GTYPE10) ! 1 ! 5 = gtype_distance GTYPE10 ! 1 ! 5
   \<and> gtype_distance (GTYPE10[1 := rev (GTYPE10 ! 1)]) ! 1 ! 5 = gtype_distance GTYPE10 ! 1 ! 5
   \<and> gtype_distance (GTYPE10[5 := rev (GTYPE10 ! 5)]) ! 1 ! 5 = gtype_distance GTYPE10 ! 1 ! 5"
proof -
  have h1: "\<forall>g \<in> set GTYPE10. length g = 2" by (simp add: GTYPE10_def)
  have h2: "(1::nat) < length GTYPE10" and h3: "(5::nat) < length GTYPE10"
    by (simp_all add: GTYPE10_def)
  from gtype_distance_unordered[OF h1 h2 h3] h2 h3 show ?thesis by blast
qed

section \<open>Basic facts\<close>

lemma ebind_Inr [simp]: "ebind (Inr x) f = f x" by (simp add: ebind_def)
lemma ebind_Inl [simp]: "ebind (Inl e) f = Inl e" by (simp add: ebind_def)

lemma ebind_eq_Inr: "ebind m f = Inr y \<longleftrightarrow> (\<exists>x. m = Inr x \<and> f x = Inr y)"
  by (cases m) simp_all

lemma mapE_total: "(\<And>x. x \<in> set xs \<Longrightarrow> f x = Inr (h x)) \<Longrightarrow> mapE f xs = Inr (map h xs)"
  by (induction xs) simp_all

lemma phred2p_pos [simp]: "0 < phred2p x" by (simp add: phred2p_def)

lemma phred2p_p2phred: "0 < x \<Longrightarrow> phred2p (p2phred x) = x"
  by (simp add: phred2p_def p2phred_def)

lemma p2phred_phred2p: "p2phred (phred2p x) = x"
  by (simp add: phred2p_def p2phred_def)

lemma p2phred_vec_pos: "\<forall>x \<in> set xs. 0 < x \<Longrightarrow> p2phred_vec xs = Inr (map p2phred xs)"
  by (fastforce simp: p2phred_vec_def list_ex_iff)

lemma sum_list_pos_real:
  fixes xs :: "real list"
  shows "xs \<noteq> [] \<Longrightarrow> (\<And>x. x \<in> set xs \<Longrightarrow> 0 < x) \<Longrightarrow> 0 < sum_list xs"
  by (induction xs) (auto simp: add_pos_nonneg sum_list_nonneg less_imp_le)

lemma sum_list_divide:
  fixes xs :: "real list"
  shows "sum_list (map (\<lambda>x. x / s) xs) = sum_list xs / s"
  by (induction xs) (simp_all add: add_divide_distrib)

section \<open>Properties of the substitution model\<close>

lemma square_nth: "square n mm \<Longrightarrow> i < n \<Longrightarrow> length (mm ! i) = n"
  by (simp add: square_def list_all_length)

lemma square_fill_diagonal: "square n (fill_diagonal n mm vals)"
  by (simp add: square_def fill_diagonal_def list_all_length)

lemma fill_diagonal_nth:
  "i < n \<Longrightarrow> j < n \<Longrightarrow>
   fill_diagonal n mm vals ! i ! j = (if i = j then vals ! j else mm ! i ! j)"
  by (simp add: fill_diagonal_def)

lemma diagflat_diagonal:
  assumes "square n mm"
  shows "diagflat (diagonal mm) =
         map (\<lambda>i. map (\<lambda>j. if i = j then mm ! i ! j else 0) [0..<n]) [0..<n]"
  using assms by (simp add: diagflat_def diagonal_def square_def)

lemma map2_upt_row:
  assumes "length r = n"
  shows "map2 f r (map h [0..<n]) = map (\<lambda>j. f (r ! j) (h j)) [0..<n]"
  using assms by (auto intro!: nth_equalityI)

lemma map2_upt_row':
  "map2 f (map h1 [0..<n]) (map h2 [0..<n]) = map (\<lambda>j. f (h1 j) (h2 j)) [0..<n]"
  by (auto intro!: nth_equalityI)

lemma mat_sub_diag:
  assumes "square n mm"
  shows "mat_sub mm (diagflat (diagonal mm)) =
         map (\<lambda>i. map (\<lambda>j. if i = j then 0 else mm ! i ! j) [0..<n]) [0..<n]"
proof -
  have len: "length mm = n" using assms by (simp add: square_def)
  have "mat_sub mm (diagflat (diagonal mm)) =
        map (\<lambda>i. map2 (-) (mm ! i) (map (\<lambda>j. if i = j then mm ! i ! j else 0) [0..<n])) [0..<n]"
    unfolding diagflat_diagonal[OF assms] mat_sub_def by (simp add: map2_upt_row[OF len])
  also have "\<dots> = map (\<lambda>i. map (\<lambda>j. if i = j then 0 else mm ! i ! j) [0..<n]) [0..<n]"
    using square_nth[OF assms] by (simp add: map2_upt_row)
  finally show ?thesis .
qed

lemma mat_add_diag:
  assumes "square n mm"
  shows "mat_add (diagflat (diagonal mm)) (mat_sub mm (diagflat (diagonal mm))) = mm"
proof -
  have len: "length mm = n" using assms by (simp add: square_def)
  have "mat_add (diagflat (diagonal mm)) (mat_sub mm (diagflat (diagonal mm))) =
        map (\<lambda>i. map (\<lambda>j. mm ! i ! j) [0..<n]) [0..<n]"
    unfolding mat_sub_diag[OF assms] unfolding diagflat_diagonal[OF assms] mat_add_def
    by (simp add: map2_upt_row')
  also have "\<dots> = mm"
    using square_nth[OF assms] len by (auto intro!: nth_equalityI)
  finally show ?thesis .
qed

lemma square3: "square 3 [[a, b, c], [d, e, f], [g, h, k]]"
  by (simp add: square_def)

lemma decomposition:
  assumes "square n mm"
  shows "mat_add (diagflat (diagonal mm)) (mat_sub mm (diagflat (diagonal mm))) = mm
       \<and> diagflat (diagonal mm) = map (\<lambda>i. map (\<lambda>j. if i = j then mm ! i ! j else 0) [0..<n]) [0..<n]
       \<and> mat_sub mm (diagflat (diagonal mm)) = map (\<lambda>i. map (\<lambda>j. if i = j then 0 else mm ! i ! j) [0..<n]) [0..<n]"
  using mat_add_diag[OF assms] diagflat_diagonal[OF assms] mat_sub_diag[OF assms] by blast

text \<open>
  Claim C6.  For every mutation rate, both builders (the one of the pipeline,
  \<open>make_mut_matrix_gtype10\<close>, and the general \<open>make_mut_matrix\<close> on any genotype array)
  return \<open>(mm, mm0, mm1)\<close> with \<open>mm0 + mm1 = mm\<close> entry by entry, \<open>mm0\<close> the diagonal of
  \<open>mm\<close> with zeros elsewhere and \<open>mm1\<close> equal to \<open>mm\<close> with zeros on the diagonal.
\<close>

theorem mut_matrix_decomposition:
  "(case make_mut_matrix_gtype10 mu of (mm, mm0, mm1) \<Rightarrow>
      mat_add mm0 mm1 = mm
    \<and> mm0 = map (\<lambda>i. map (\<lambda>j. if i = j then mm ! i ! j else 0) [0..<3]) [0..<3]
    \<and> mm1 = map (\<lambda>i. map (\<lambda>j. if i = j then 0 else mm ! i ! j) [0..<3]) [0..<3])
 \<and> (case make_mut_matrix mu gtypes of (mm, mm0, mm1) \<Rightarrow>
      mat_add mm0 mm1 = mm
    \<and> mm0 = map (\<lambda>i. map (\<lambda>j. if i = j then mm ! i ! j else 0) [0..<length gtypes])
               [0..<length gtypes]
    \<and> mm1 = map (\<lambda>i. map (\<lambda>j. if i = j then 0 else mm ! i ! j) [0..<length gtypes])
               [0..<length gtypes])"
  unfolding make_mut_matrix_gtype10_def make_mut_matrix_def Let_def prod.case
  using decomposition[OF square3] decomposition[OF square_fill_diagonal]
  by blast

lemma gtype_distance_length [simp]: "length (gtype_distance gt) = length gt"
  by (simp add: gtype_distance_def)

lemma gtype_distance_row_length [simp]:
  "i < length gt \<Longrightarrow> length (gtype_distance gt ! i) = length gt"
  by (simp add: gtype_distance_def)

lemma sum_axis0_pow:
  "sum_axis0 (length gt) (map (map (\<lambda>d. p ^ d)) (gtype_distance gt)) =
   map (\<lambda>j. \<Sum>k<length gt. p ^ (gtype_distance gt ! k ! j)) [0..<length gt]"
proof -
  have "sum_list (map (\<lambda>row. row ! j) (map (map (\<lambda>d. p ^ d)) (gtype_distance gt)))
      = (\<Sum>k<length gt. p ^ (gtype_distance gt ! k ! j))" if "j < length gt" for j
  proof -
    have "map (\<lambda>row. row ! j) (map (map (\<lambda>d. p ^ d)) (gtype_distance gt))
        = map (\<lambda>k. p ^ (gtype_distance gt ! k ! j)) [0..<length gt]"
      using that by (auto intro!: nth_equalityI)
    then show ?thesis
      by (simp add: interv_sum_list_conv_sum_set_nat atLeast0LessThan)
  qed
  then show ?thesis by (simp add: sum_axis0_def)
qed

lemma make_mut_matrix_entries:
  "fst (make_mut_matrix mu gt) =
     map (\<lambda>i. map (\<lambda>j. if i = j then 2 - (\<Sum>k<length gt. phred2p mu ^ (gtype_distance gt ! k ! j))
                        else phred2p mu ^ (gtype_distance gt ! i ! j))
                [0..<length gt]) [0..<length gt]"
  unfolding make_mut_matrix_def Let_def fst_conv sum_axis0_pow fill_diagonal_def
  by simp

lemma GTYPE10_dist:
  "gtype_distance GTYPE10 =
    [[0, 1, 1, 1, 2, 2, 2, 2, 2, 2], [1, 0, 1, 1, 1, 1, 1, 2, 2, 2],
     [1, 1, 0, 1, 2, 1, 2, 1, 1, 2], [1, 1, 1, 0, 2, 2, 1, 2, 1, 1],
     [2, 1, 2, 2, 0, 1, 1, 2, 2, 2], [2, 1, 1, 2, 1, 0, 1, 1, 1, 2],
     [2, 1, 2, 1, 1, 1, 0, 2, 1, 1], [2, 2, 1, 2, 2, 1, 2, 0, 1, 2],
     [2, 2, 1, 1, 2, 1, 1, 1, 0, 1], [2, 2, 2, 1, 2, 2, 1, 2, 1, 0]]"
  by (simp add: gtype_distance_def GTYPE10_def)

lemma GTYPE10_length [simp]: "length GTYPE10 = 10" by (simp add: GTYPE10_def)

lemma GTYPE10_diag: "j < 10 \<Longrightarrow> gtype_distance GTYPE10 ! j ! j = 0"
proof -
  assume "j < 10"
  then have "j \<in> {0,1,2,3,4,5,6,7,8,9}" by auto
  then show ?thesis unfolding GTYPE10_dist by auto
qed

text \<open>
  The general builder \<open>make_mut_matrix\<close>, which \<open>genotype_main\<close> names in its docstring
  and does not call: on the ten genotypes in alphabetical order it returns a \<open>10 \<times> 10\<close>
  matrix whose off-diagonal entry \<open>(i, j)\<close> is \<open>(10^(-mu/10))^distance(i, j)\<close> and whose
  diagonal entry \<open>(j, j)\<close> is 2 minus the whole sum of column \<open>j\<close>, the diagonal's own
  entry \<open>p^0 = 1\<close> included: that is 1 minus the sum of the column without the diagonal.
\<close>

lemma make_mut_matrix_GTYPE10:
  "fst (make_mut_matrix mu GTYPE10) =
     map (\<lambda>i. map (\<lambda>j. if i = j
                        then 2 - (\<Sum>k<10. phred2p mu ^ (gtype_distance GTYPE10 ! k ! j))
                        else phred2p mu ^ (gtype_distance GTYPE10 ! i ! j))
                [0..<10]) [0..<10]
   \<and> map (\<lambda>j. fst (make_mut_matrix mu GTYPE10) ! j ! j) [0..<10] =
     map (\<lambda>j. 1 - (\<Sum>k\<in>{..<10} - {j}. phred2p mu ^ (gtype_distance GTYPE10 ! k ! j))) [0..<10]"
proof -
  let ?p = "phred2p mu" and ?D = "gtype_distance GTYPE10"
  have a: "fst (make_mut_matrix mu GTYPE10) =
     map (\<lambda>i. map (\<lambda>j. if i = j then 2 - (\<Sum>k<10. ?p ^ (?D ! k ! j)) else ?p ^ (?D ! i ! j))
                [0..<10]) [0..<10]"
    using make_mut_matrix_entries[of mu GTYPE10] by simp
  have d: "2 - (\<Sum>k<10. ?p ^ (?D ! k ! j)) = 1 - (\<Sum>k\<in>{..<10} - {j}. ?p ^ (?D ! k ! j))"
    if "j < 10" for j :: nat
  proof -
    have "(\<Sum>k<10. ?p ^ (?D ! k ! j)) = ?p ^ (?D ! j ! j) + (\<Sum>k\<in>{..<10} - {j}. ?p ^ (?D ! k ! j))"
      using that by (intro sum.remove) auto
    then show ?thesis using GTYPE10_diag[OF that] by simp
  qed
  have b: "map (\<lambda>j. fst (make_mut_matrix mu GTYPE10) ! j ! j) [0..<10] =
     map (\<lambda>j. 1 - (\<Sum>k\<in>{..<10} - {j}. ?p ^ (?D ! k ! j))) [0..<10]"
    unfolding a using d by simp
  from a b show ?thesis by blast
qed

lemma phred2p_10: "phred2p 10 = 1 / 10"
  by (simp add: phred2p_def powr_minus)

lemma make_mut_matrix_gtype10_at_10:
  "make_mut_matrix_gtype10 10 =
     ([[81/100, 18/100, 1/100], [9/100, 82/100, 9/100], [1/100, 18/100, 81/100]],
      [[81/100, 0, 0], [0, 82/100, 0], [0, 0, 81/100]],
      [[0, 18/100, 1/100], [9/100, 0, 9/100], [1/100, 18/100, 0]])"
  by (simp add: make_mut_matrix_gtype10_def Let_def phred2p_10 diagflat_def diagonal_def
        mat_sub_def power2_eq_square eval_nat_numeral)

text \<open>
  Claim C1.  The builder that \<open>genotype_main\<close> calls is \<open>make_mut_matrix_gtype10\<close>.  At
  \<open>mu = 10\<close> it returns a matrix of three rows, the matrix of \<open>make_mut_matrix_gtype3\<close>,
  where the claim has a \<open>10 \<times> 10\<close> matrix over the ten genotypes (the general builder
  \<open>make_mut_matrix\<close> gives ten rows).  With it the pruning pass raises ValueError on an
  array of ten genotypes: the product of a vector of ten probabilities with a matrix of
  three rows is not defined.
\<close>

theorem make_mut_matrix_gtype10_three_rows:
  "fst (make_mut_matrix_gtype10 10) =
     [[81/100, 18/100, 1/100], [9/100, 82/100, 9/100], [1/100, 18/100, 81/100]]
   \<and> length (fst (make_mut_matrix_gtype10 10)) = 3
   \<and> length (fst (make_mut_matrix 10 GTYPE10)) = 10
   \<and> populate_tree_PL
        (Node [0, 1] Map.empty None [Node [0] Map.empty None [], Node [1] Map.empty None []])
        [[[0, 255, 255, 255, 255, 255, 255, 255, 255, 255],
          [255, 0, 255, 255, 255, 255, 255, 255, 255, 255]]]
        (fst (make_mut_matrix_gtype10 10)) ''PL'' = Inl ValueError"
  unfolding make_mut_matrix_gtype10_at_10
  by (simp add: make_mut_matrix_def Let_def fill_diagonal_def
        populate_tree_PL_def ncols_def sample_column_def np_get_def getattr_def
        transfer2_def dot2_def dot1_def)

section \<open>Properties of the prior\<close>

lemma normalize_PL_ok:
  assumes "x \<noteq> []"
  shows "\<exists>v. normalize_PL x = Inr v
     \<and> v = map (\<lambda>xi. xi - p2phred (sum_list (map phred2p x))) x
     \<and> sum_list (map phred2p v) = 1"
proof -
  let ?p = "map phred2p x"
  let ?s = "sum_list ?p"
  have spos: "0 < ?s" using assms by (intro sum_list_pos_real) auto
  have pos: "\<forall>y \<in> set (map (\<lambda>pi. pi / ?s) ?p). 0 < y"
    using spos by auto
  have n: "normalize_PL x = Inr (map p2phred (map (\<lambda>pi. pi / ?s) ?p))"
    using spos p2phred_vec_pos[OF pos] by (simp add: normalize_PL_def Let_def del: map_map)
  have e: "map p2phred (map (\<lambda>pi. pi / ?s) ?p) = map (\<lambda>xi. xi - p2phred ?s) x"
    using spos by (simp add: p2phred_def phred2p_def log_divide)
  have "sum_list (map phred2p (map p2phred (map (\<lambda>pi. pi / ?s) ?p))) = sum_list (map (\<lambda>pi. pi / ?s) ?p)"
    using spos by (simp add: o_def phred2p_p2phred)
  also have "\<dots> = 1" using spos sum_list_divide[of ?s ?p] by simp
  finally show ?thesis using n e by simp
qed

text \<open>
  Claim C8.  For every heterozygosity rate \<open>het\<close> the prior builder returns the
  normalisation of the raw scores (\<open>het\<close> for a genotype whose two alleles differ, 0 for a
  homozygous one): each raw score minus the Phred value of the total probability, so the
  probabilities of the returned vector sum to 1.  This holds on every non-empty array of
  genotypes of two letters or more, \<open>GTYPE10\<close> among them.
\<close>

theorem make_base_prior_normalized:
  assumes ne: "gtypes \<noteq> []" and two: "\<forall>g \<in> set gtypes. 2 \<le> length g"
  shows "\<exists>prior. make_base_prior het gtypes = Inr prior
     \<and> make_base_prior het gtypes =
         normalize_PL (map (\<lambda>g. if g ! 0 \<noteq> g ! 1 then het else 0) gtypes)
     \<and> prior = map (\<lambda>g. (if g ! 0 \<noteq> g ! 1 then het else 0)
                 - p2phred (sum_list (map (\<lambda>g. phred2p (if g ! 0 \<noteq> g ! 1 then het else 0)) gtypes)))
               gtypes
     \<and> sum_list (map phred2p prior) = 1"
proof -
  let ?raw = "map (\<lambda>g. if g ! 0 \<noteq> g ! 1 then het else 0) gtypes"
  have "mapE het_flag gtypes = Inr (map (\<lambda>g. if g ! 0 \<noteq> g ! 1 then 1 else 0) gtypes)"
    using two by (intro mapE_total) (auto simp: het_flag_def)
  then have m: "make_base_prior het gtypes = normalize_PL ?raw"
    by (simp add: make_base_prior_def o_def if_distrib[of "\<lambda>b. b * het"] cong: if_cong)
  have "?raw \<noteq> []" using ne by simp
  from normalize_PL_ok[OF this] m show ?thesis by (simp add: o_def)
qed

theorem make_base_prior_normalized_witness:
  "GTYPE10 \<noteq> [] \<and> (\<exists>prior. make_base_prior 30 GTYPE10 = Inr prior
     \<and> make_base_prior 30 GTYPE10 = normalize_PL [0, 30, 30, 30, 0, 30, 30, 0, 30, 0]
     \<and> length prior = 10
     \<and> sum_list (map phred2p prior) = 1)"
proof -
  have ne: "GTYPE10 \<noteq> []" by (simp add: GTYPE10_def)
  have two: "\<forall>g \<in> set GTYPE10. 2 \<le> length g" by (simp add: GTYPE10_def)
  have raw: "map (\<lambda>g. if g ! 0 \<noteq> g ! 1 then (30::real) else 0) GTYPE10 = [0, 30, 30, 30, 0, 30, 30, 0, 30, 0]"
    by (simp add: GTYPE10_def)
  from make_base_prior_normalized[OF ne two, of 30] obtain prior where
    p: "make_base_prior 30 GTYPE10 = Inr prior"
       "make_base_prior 30 GTYPE10 = normalize_PL (map (\<lambda>g. if g ! 0 \<noteq> g ! 1 then 30 else 0) GTYPE10)"
       "prior = map (\<lambda>g. (if g ! 0 \<noteq> g ! 1 then 30 else 0)
                 - p2phred (sum_list (map (\<lambda>g. phred2p (if g ! 0 \<noteq> g ! 1 then 30 else 0)) GTYPE10)))
               GTYPE10"
       "sum_list (map phred2p prior) = 1"
    by blast
  have "length prior = 10" unfolding p(3) by (simp add: GTYPE10_def)
  with p ne show ?thesis unfolding raw by blast
qed

section \<open>Properties of the pruning pass\<close>

lemma ebind_eq_Inl: "ebind m f = Inl e \<longleftrightarrow> m = Inl e \<or> (\<exists>x. m = Inr x \<and> f x = Inl e)"
  by (cases m) simp_all

lemma mapE_eq_Inr_iff:
  "mapE f xs = Inr ys \<longleftrightarrow> length ys = length xs \<and> (\<forall>i<length xs. f (xs ! i) = Inr (ys ! i))"
proof (induction xs arbitrary: ys)
  case Nil
  then show ?case by auto
next
  case (Cons x xs)
  show ?case
  proof (cases ys)
    case Nil
    then show ?thesis by (auto simp: ebind_eq_Inr)
  next
    case (Cons y ys')
    then show ?thesis
      by (auto simp: ebind_eq_Inr Cons.IH All_less_Suc2 less_Suc_eq_0_disj)
  qed
qed

lemma mapE_length: "mapE f xs = Inr ys \<Longrightarrow> length ys = length xs"
  by (simp add: mapE_eq_Inr_iff)

lemma mapE_nth: "mapE f xs = Inr ys \<Longrightarrow> i < length xs \<Longrightarrow> f (xs ! i) = Inr (ys ! i)"
  by (simp add: mapE_eq_Inr_iff)

lemma mapE_cong: "xs = ys \<Longrightarrow> (\<And>x. x \<in> set ys \<Longrightarrow> f x = h x) \<Longrightarrow> mapE f xs = mapE h ys"
  by (induction ys arbitrary: xs) auto

lemma mapE_map: "mapE f (map h xs) = mapE (\<lambda>x. f (h x)) xs"
  by (induction xs) auto

lemma mapE_append:
  "mapE f (xs @ ys) = ebind (mapE f xs) (\<lambda>a. ebind (mapE f ys) (\<lambda>b. Inr (a @ b)))"
proof (induction xs)
  case Nil
  show ?case by (cases "mapE f ys") simp_all
next
  case (Cons x xs)
  show ?case
    by (cases "f x"; cases "mapE f xs"; cases "mapE f ys"; simp add: Cons.IH)
qed

lemma mapE_success:
  "(\<forall>x \<in> set xs. \<exists>y. f x = Inr y) \<Longrightarrow> \<exists>ys. mapE f xs = Inr ys"
  by (induction xs) auto

lemma shape2_nth: "shape2 n g a \<Longrightarrow> s < n \<Longrightarrow> length (a ! s) = g"
  by (simp add: shape2_def list_all_length)

lemma shape2_length: "shape2 n g a \<Longrightarrow> length a = n"
  by (simp add: shape2_def)

lemma shape2I: "length a = n \<Longrightarrow> (\<And>s. s < n \<Longrightarrow> length (a ! s) = g) \<Longrightarrow> shape2 n g a"
  by (simp add: shape2_def list_all_length)

lemma square_shape2: "square g mm = shape2 g g mm"
  by (simp add: square_def shape2_def)

lemma shape2_zeros2 [simp]: "shape2 n g (zeros2 n g)"
  by (simp add: shape2_def zeros2_def list_all_length)

lemma zeros2_nth [simp]: "s < n \<Longrightarrow> j < g \<Longrightarrow> zeros2 n g ! s ! j = 0"
  by (simp add: zeros2_def)

lemma mapE_pure: "mapE (\<lambda>x. Inr (h x)) xs = Inr (map h xs)"
  by (induction xs) auto

lemma broadcast2_same:
  "length xs = length ys \<Longrightarrow> broadcast2 f xs ys = mapE (\<lambda>(x, y). f x y) (zip xs ys)"
  by (simp add: broadcast2_def)

lemma add1_same: "length xs = length ys \<Longrightarrow> add1 xs ys = Inr (map2 (+) xs ys)"
  by (simp add: add1_def broadcast2_same mapE_pure case_prod_unfold)

lemma add2_same:
  assumes "shape2 n g a" "shape2 n g b"
  shows "add2 a b = Inr (map2 (map2 (+)) a b)"
proof -
  have len: "length a = length b" using assms by (simp add: shape2_def)
  have "mapE (\<lambda>(x, y). add1 x y) (zip a b) = mapE (\<lambda>(x, y). Inr (map2 (+) x y)) (zip a b)"
  proof (rule mapE_cong[OF refl])
    fix p assume "p \<in> set (zip a b)"
    then obtain s where "s < length a" "s < length b" "p = (a ! s, b ! s)"
      by (auto simp: set_zip)
    then show "(case p of (x, y) \<Rightarrow> add1 x y) = (case p of (x, y) \<Rightarrow> Inr (map2 (+) x y))"
      using assms by (simp add: add1_same shape2_def list_all_length)
  qed
  then show ?thesis
    by (simp add: add2_def broadcast2_same[OF len] mapE_pure case_prod_unfold)
qed

lemma shape2_map2:
  "shape2 n g a \<Longrightarrow> shape2 n g b \<Longrightarrow> shape2 n g (map2 (map2 f) a b)"
  by (auto simp: shape2_def list_all_length)

lemma map2_map2_nth:
  "shape2 n g a \<Longrightarrow> shape2 n g b \<Longrightarrow> s < n \<Longrightarrow> j < g \<Longrightarrow>
   map2 (map2 f) a b ! s ! j = f (a ! s ! j) (b ! s ! j)"
  by (simp add: shape2_def list_all_length)

lemma ncols_square: "square g mm \<Longrightarrow> ncols mm = g"
  by (cases mm) (auto simp: ncols_def square_def)

lemma sum_list_map2_nth:
  fixes f :: "'a \<Rightarrow> 'b \<Rightarrow> real"
  assumes "length xs = g" "length ys = g"
  shows "sum_list (map2 f xs ys) = (\<Sum>i<g. f (xs ! i) (ys ! i))"
proof -
  have "map2 f xs ys = map (\<lambda>i. f (xs ! i) (ys ! i)) [0..<g]"
    using assms by (auto intro!: nth_equalityI)
  then show ?thesis
    by (simp add: interv_sum_list_conv_sum_set_nat atLeast0LessThan)
qed

lemma dot1_square:
  assumes "square g mm" "length v = g"
  shows "dot1 (map phred2p v) mm = Inr (map (prob_dot g mm v) [0..<g])"
proof -
  have len: "length mm = g" using assms by (simp add: square_def)
  have "sum_list (map2 (\<lambda>x row. x * row ! j) (map phred2p v) mm) = prob_dot g mm v j" for j
    using sum_list_map2_nth[of "map phred2p v" g mm "\<lambda>x row. x * row ! j"] assms(2) len
    by (simp add: prob_dot_def)
  then show ?thesis
    using assms(2) len by (simp add: dot1_def ncols_square[OF assms(1)])
qed

lemma dot2_square:
  assumes "square g mm" "shape2 n g a"
  shows "dot2 (map (map phred2p) a) mm = Inr (map (\<lambda>row. map (prob_dot g mm row) [0..<g]) a)"
proof -
  have "mapE (\<lambda>row. dot1 (map phred2p row) mm) a
      = mapE (\<lambda>row. Inr (map (prob_dot g mm row) [0..<g])) a"
    using assms by (intro mapE_cong[OF refl] dot1_square) (auto simp: shape2_def list_all_iff)
  then show ?thesis by (simp add: dot2_def mapE_map mapE_pure)
qed

lemma p2phred_vec_eq_Inr:
  "p2phred_vec xs = Inr ys \<longleftrightarrow> (\<forall>x \<in> set xs. 0 < x) \<and> ys = map p2phred xs"
proof (cases "list_ex (\<lambda>x. x \<le> 0) xs")
  case True
  then show ?thesis by (fastforce simp: p2phred_vec_def list_ex_iff)
next
  case False
  then have "\<forall>x \<in> set xs. 0 < x" by (simp add: list_ex_iff not_le)
  with False show ?thesis by (auto simp: p2phred_vec_def)
qed

text \<open>\<open>transfer2\<close> on well-shaped arguments.\<close>

lemma transfer2_eq_Inr:
  assumes "square g mm" "shape2 n g a"
  shows "transfer2 a mm = Inr x \<longleftrightarrow>
           (\<forall>s<n. \<forall>j<g. 0 < prob_dot g mm (a ! s) j)
         \<and> x = map (\<lambda>row. map (\<lambda>j. p2phred (prob_dot g mm row j)) [0..<g]) a"
proof -
  have n: "length a = n" using assms(2) by (simp add: shape2_def)
  have "transfer2 a mm = Inr x \<longleftrightarrow>
        mapE p2phred_vec (map (\<lambda>row. map (prob_dot g mm row) [0..<g]) a) = Inr x"
    by (simp add: transfer2_def dot2_square[OF assms] p2phred_arr2_def)
  also have "\<dots> \<longleftrightarrow> length x = n \<and>
      (\<forall>s<n. (\<forall>j<g. 0 < prob_dot g mm (a ! s) j) \<and> x ! s = map (\<lambda>j. p2phred (prob_dot g mm (a ! s) j)) [0..<g])"
    by (auto simp: mapE_eq_Inr_iff n p2phred_vec_eq_Inr)
  also have "\<dots> \<longleftrightarrow> (\<forall>s<n. \<forall>j<g. 0 < prob_dot g mm (a ! s) j)
         \<and> x = map (\<lambda>row. map (\<lambda>j. p2phred (prob_dot g mm row j)) [0..<g]) a"
    using n by (auto intro!: nth_equalityI)
  finally show ?thesis .
qed

lemma prob_dot_pos:
  assumes "positive_cols g mm" "j < g"
  shows "0 < prob_dot g mm v j"
proof -
  from assms have nn: "\<forall>i<g. 0 \<le> mm ! i ! j" and ex: "\<exists>i<g. 0 < mm ! i ! j"
    by (fastforce simp: positive_cols_def list_all_iff list_ex_iff)+
  from ex obtain k where k: "k < g" "0 < mm ! k ! j" by blast
  have "0 < (\<Sum>i<g. phred2p (v ! i) * mm ! i ! j)"
  proof (rule sum_pos2[where i = k])
    show "0 < phred2p (v ! k) * mm ! k ! j" using k by simp
    show "\<And>i. i \<in> {..<g} \<Longrightarrow> 0 \<le> phred2p (v ! i) * mm ! i ! j"
      using nn by (simp add: less_imp_le)
  qed (use k in auto)
  then show ?thesis by (simp add: prob_dot_def)
qed

lemma populate_nodes_mapE:
  "populate_nodes n g cs PLs mm attr = mapE (\<lambda>c. populate_node n g c PLs mm attr) cs"
  by (induction cs) simp_all

lemma np_get_first: "np_get s 0 = Inr i \<longleftrightarrow> s \<noteq> [] \<and> i = hd s"
  by (cases s) (auto simp: np_get_def)

lemma np_get_Inr_length: "np_get xs i = Inr x \<Longrightarrow> x \<in> set xs"
  by (auto simp: np_get_def split: if_splits)

lemma np_get_in_range:
  "- int (length xs) \<le> i \<Longrightarrow> i < int (length xs) \<Longrightarrow> \<exists>x. np_get xs i = Inr x"
  by (auto simp: np_get_def)

lemma sample_column_shape:
  assumes "sample_column PLs i = Inr v" "geno_axis g PLs"
  shows "shape2 (length PLs) g v"
proof (rule shape2I)
  show "length v = length PLs" using assms(1) by (simp add: sample_column_def mapE_length)
next
  fix s assume s: "s < length PLs"
  from assms(1) s have "np_get (PLs ! s) i = Inr (v ! s)"
    by (simp add: sample_column_def mapE_eq_Inr_iff)
  then have "v ! s \<in> set (PLs ! s)" by (rule np_get_Inr_length)
  then show "length (v ! s) = g"
    using assms(2) s by (auto simp: geno_axis_def list_all_iff)
qed

text \<open>The loop over the children, on arrays of one shape.\<close>

lemma add_children_shaped:
  assumes sq: "square g mm"
      and cs: "\<forall>c \<in> set cs. \<exists>a. attrs c attr = Some a \<and> shape2 n g a"
      and acc: "shape2 n g acc"
  shows "add_children acc cs mm attr = Inr v \<longleftrightarrow>
           (\<forall>c \<in> set cs. \<forall>s<n. \<forall>j<g. 0 < prob_dot g mm (the (attrs c attr) ! s) j)
         \<and> shape2 n g v
         \<and> (\<forall>s<n. \<forall>j<g. v ! s ! j =
               acc ! s ! j + (\<Sum>c\<leftarrow>cs. p2phred (prob_dot g mm (the (attrs c attr) ! s) j)))"
  using cs acc
proof (induction cs arbitrary: acc)
  case Nil
  have "acc = v \<longleftrightarrow> shape2 n g v \<and> (\<forall>s<n. \<forall>j<g. v ! s ! j = acc ! s ! j)"
  proof
    assume "acc = v" then show "shape2 n g v \<and> (\<forall>s<n. \<forall>j<g. v ! s ! j = acc ! s ! j)"
      using Nil.prems(2) by simp
  next
    assume h: "shape2 n g v \<and> (\<forall>s<n. \<forall>j<g. v ! s ! j = acc ! s ! j)"
    show "acc = v"
    proof (rule nth_equalityI)
      show "length acc = length v" using h Nil.prems(2) by (simp add: shape2_def)
    next
      fix s assume "s < length acc"
      then have s: "s < n" using Nil.prems(2) by (simp add: shape2_def)
      show "acc ! s = v ! s"
        using h s shape2_nth[OF Nil.prems(2) s] shape2_nth[of n g v s]
        by (auto intro!: nth_equalityI)
    qed
  qed
  then show ?case by auto
next
  case (Cons c cs)
  from Cons.prems(1) obtain a where a: "attrs c attr = Some a" "shape2 n g a" by auto
  let ?x = "map (\<lambda>row. map (\<lambda>j. p2phred (prob_dot g mm row j)) [0..<g]) a"
  have xs: "shape2 n g ?x" using a(2) by (simp add: shape2_def list_all_length)
  let ?acc' = "map2 (map2 (+)) acc ?x"
  have acc': "shape2 n g ?acc'" using shape2_map2[OF Cons.prems(2) xs] .
  have rest: "\<forall>c \<in> set cs. \<exists>a. attrs c attr = Some a \<and> shape2 n g a"
    using Cons.prems(1) by simp
  note IH = Cons.IH[OF rest acc']
  have n: "length a = n" using a(2) by (simp add: shape2_def)
  have acc'_nth: "?acc' ! s ! j = acc ! s ! j + p2phred (prob_dot g mm (a ! s) j)"
    if "s < n" "j < g" for s j
    using map2_map2_nth[OF Cons.prems(2) xs that] that n by simp
  show ?case
  proof (cases "\<forall>s<n. \<forall>j<g. 0 < prob_dot g mm (a ! s) j")
    case True
    then have t: "transfer2 a mm = Inr ?x"
      using transfer2_eq_Inr[OF sq a(2)] by simp
    have "add_children acc (c # cs) mm attr = add_children ?acc' cs mm attr"
      by (simp add: getattr_def a(1) t add2_same[OF Cons.prems(2) xs])
    then show ?thesis
      using IH True a(1) acc'_nth by (auto simp: add.assoc)
  next
    case False
    then have "\<And>x. transfer2 a mm \<noteq> Inr x"
      using transfer2_eq_Inr[OF sq a(2)] by blast
    then have "add_children acc (c # cs) mm attr \<noteq> Inr v"
      by (auto simp: getattr_def a(1) ebind_eq_Inr)
    then show ?thesis using False a(1) by auto
  qed
qed

lemma pruned_at_shape:
  assumes "pruned_at PLs mm attr u" "geno_axis (ncols (concat PLs)) PLs"
  shows "\<exists>a. attrs u attr = Some a \<and> shape2 (length PLs) (ncols (concat PLs)) a"
  using assms sample_column_shape[of PLs "hd (sid u)" _ "ncols (concat PLs)"]
  by (auto simp: pruned_at_def Let_def split: option.splits if_splits)

lemma root_in_postorder [simp]: "t \<in> set (traverse_postorder t)"
  by (cases t) simp

lemma traverse_postorder_Node:
  "set (traverse_postorder (Node s a p cs)) =
     insert (Node s a p cs) (\<Union>c \<in> set cs. set (traverse_postorder c))"
  by auto

lemma populate_node_pruned:
  assumes sq: "square (ncols (concat PLs)) mm"
      and ax: "geno_axis (ncols (concat PLs)) PLs"
  shows "populate_node (length PLs) (ncols (concat PLs)) t PLs mm attr = Inr t' \<Longrightarrow>
         erase attr t' = erase attr t \<and> (\<forall>u \<in> set (traverse_postorder t'). pruned_at PLs mm attr u)"
proof (induction t arbitrary: t')
  case (Node s a p cs)
  let ?n = "length PLs" and ?g = "ncols (concat PLs)"
  show ?case
  proof (cases "cs = []")
    case True
    with Node.prems obtain v where
      v: "s \<noteq> []" "sample_column PLs (hd s) = Inr v" "t' = Node s (a(attr \<mapsto> v)) p []"
      by (auto simp: ebind_eq_Inr np_get_first)
    then show ?thesis using True by (simp add: pruned_at_def)
  next
    case False
    with Node.prems obtain cs' v where
      cs': "mapE (\<lambda>c. populate_node ?n ?g c PLs mm attr) cs = Inr cs'"
      and v: "add_children (zeros2 ?n ?g) cs' mm attr = Inr v"
      and t': "t' = Node s (a(attr \<mapsto> v)) p cs'"
      by (auto simp: ebind_eq_Inr populate_nodes_mapE)
    have len: "length cs' = length cs" using cs' by (rule mapE_length)
    have each: "populate_node ?n ?g (cs ! k) PLs mm attr = Inr (cs' ! k)" if "k < length cs" for k
      using mapE_nth[OF cs' that] .
    have IH: "erase attr (cs' ! k) = erase attr (cs ! k)
            \<and> (\<forall>u \<in> set (traverse_postorder (cs' ! k)). pruned_at PLs mm attr u)"
      if "k < length cs" for k
      using Node.IH[OF _ each[OF that]] that by simp
    have er: "map (erase attr) cs' = map (erase attr) cs"
      using IH len by (auto intro!: nth_equalityI)
    have sub: "\<forall>c \<in> set cs'. \<forall>u \<in> set (traverse_postorder c). pruned_at PLs mm attr u"
    proof
      fix c assume "c \<in> set cs'"
      then obtain k where "k < length cs" "c = cs' ! k" using len by (auto simp: in_set_conv_nth)
      with IH[of k] show "\<forall>u \<in> set (traverse_postorder c). pruned_at PLs mm attr u" by simp
    qed
    then have roots: "\<forall>c \<in> set cs'. pruned_at PLs mm attr c" by auto
    have shp: "\<forall>c \<in> set cs'. \<exists>a. attrs c attr = Some a \<and> shape2 ?n ?g a"
      using roots pruned_at_shape[OF _ ax] by blast
    from v have vv: "shape2 ?n ?g v"
      "\<forall>s<?n. \<forall>j<?g. v ! s ! j = (\<Sum>c\<leftarrow>cs'. p2phred (prob_dot ?g mm (the (attrs c attr) ! s) j))"
      using add_children_shaped[OF sq shp shape2_zeros2, of v] by auto
    have ne: "cs' \<noteq> []" using False len by auto
    have "pruned_at PLs mm attr t'"
      using vv ne by (simp add: t' pruned_at_def Let_def list_all_iff)
    then show ?thesis using sub er by (simp add: t')
  qed
qed

lemma sample_column_ok:
  assumes "list_all (\<lambda>site. length site = m) PLs" "- int m \<le> i" "i < int m"
  shows "\<exists>v. sample_column PLs i = Inr v"
  unfolding sample_column_def
proof (rule mapE_success, rule ballI)
  fix site assume "site \<in> set PLs"
  then have "length site = m" using assms(1) by (simp add: list_all_iff)
  then show "\<exists>y. np_get site i = Inr y" using np_get_in_range[of site i] assms(2,3) by simp
qed

lemma populate_node_succeeds:
  assumes sq: "square (ncols (concat PLs)) mm"
      and ax: "geno_axis (ncols (concat PLs)) PLs"
      and pc: "positive_cols (ncols (concat PLs)) mm"
      and m: "list_all (\<lambda>site. length site = m) PLs"
  shows "leaves_in m t \<Longrightarrow>
         \<exists>t'. populate_node (length PLs) (ncols (concat PLs)) t PLs mm attr = Inr t'"
proof (induction t)
  case (Node s a p cs)
  let ?n = "length PLs" and ?g = "ncols (concat PLs)"
  show ?case
  proof (cases "cs = []")
    case True
    with Node.prems have s: "s \<noteq> []" "- int m \<le> hd s" "hd s < int m" by simp_all
    from sample_column_ok[OF m s(2,3)] obtain v where "sample_column PLs (hd s) = Inr v" ..
    moreover have "np_get s 0 = Inr (hd s)" using s(1) by (simp add: np_get_first)
    ultimately show ?thesis using True by simp
  next
    case False
    with Node.prems have "\<forall>c \<in> set cs. leaves_in m c" by (simp add: list_all_iff)
    with Node.IH have "\<forall>c \<in> set cs. \<exists>c'. populate_node ?n ?g c PLs mm attr = Inr c'" by blast
    from mapE_success[OF this] obtain cs' where
      cs': "mapE (\<lambda>c. populate_node ?n ?g c PLs mm attr) cs = Inr cs'" ..
    have "\<forall>c \<in> set cs'. pruned_at PLs mm attr c"
    proof
      fix c assume "c \<in> set cs'"
      then obtain k where k: "k < length cs'" "c = cs' ! k" by (auto simp: in_set_conv_nth)
      then have "populate_node ?n ?g (cs ! k) PLs mm attr = Inr c"
        using mapE_nth[OF cs', of k] mapE_length[OF cs'] by simp
      from populate_node_pruned[OF sq ax this] show "pruned_at PLs mm attr c" by simp
    qed
    then have shp: "\<forall>c \<in> set cs'. \<exists>a. attrs c attr = Some a \<and> shape2 ?n ?g a"
      using pruned_at_shape[OF _ ax] by blast
    let ?v = "map (\<lambda>s. map (\<lambda>j. (\<Sum>c\<leftarrow>cs'. p2phred (prob_dot ?g mm (the (attrs c attr) ! s) j)))
                 [0..<?g]) [0..<?n]"
    have "add_children (zeros2 ?n ?g) cs' mm attr = Inr ?v"
      unfolding add_children_shaped[OF sq shp shape2_zeros2]
      using prob_dot_pos[OF pc] by (simp add: shape2_def list_all_length)
    then show ?thesis using False cs' by (simp add: populate_nodes_mapE)
  qed
qed

lemma phred2p_0 [simp]: "phred2p 0 = 1" by (simp add: phred2p_def)
lemma p2phred_1 [simp]: "p2phred 1 = 0" by (simp add: p2phred_def)

lemma upt_2: "[0..<2] = [0, 1]" by (simp add: numeral_2_eq_2)

lemma p2phred_one_tenth: "p2phred (1 / 10) = 10"
  by (simp add: p2phred_def log_divide)

lemma eval_populate_eleventh:
  "populate_tree_PL
          (Node [0, 1] Map.empty None
             [Node [0] Map.empty None [], Node [1] Map.empty None []])
          [[[0, 10], [10, 0]]] [[1/11, 1/11], [1/11, 1/11]] ''PL'' =
   Inr (Node [0, 1] (Map.empty(''PL'' \<mapsto> [[20, 20]])) None
             [Node [0] (Map.empty(''PL'' \<mapsto> [[0, 10]])) None [],
              Node [1] (Map.empty(''PL'' \<mapsto> [[10, 0]])) None []])"
  by (simp add: populate_tree_PL_def ncols_def sample_column_def np_get_def getattr_def
        transfer2_def dot2_def dot1_def p2phred_arr2_def p2phred_vec_def add2_def add1_def
        broadcast2_def zeros2_def phred2p_10 p2phred_one_tenth eval_nat_numeral)

lemma populate_tree_PL_pruned:
  assumes g: "g = ncols (concat PLs)"
      and ax: "geno_axis g PLs"
      and sq: "square g mm"
      and ok: "populate_tree_PL tree PLs mm attr = Inr tree'"
  shows "erase attr tree' = erase attr tree"
    and "\<forall>u \<in> set (traverse_postorder tree'). \<exists>v. attrs u attr = Some v \<and>
               (if is_leaf u
                then sid u \<noteq> [] \<and> length v = length PLs
                   \<and> (\<forall>s<length PLs. np_get (PLs ! s) (hd (sid u)) = Inr (v ! s))
                else shape2 (length PLs) g v
                   \<and> (\<forall>s<length PLs. \<forall>j<g. v ! s ! j =
                        (\<Sum>c\<leftarrow>children u.
                           p2phred (\<Sum>i<g. phred2p (the (attrs c attr) ! s ! i) * mm ! i ! j))))"
proof -
  from ok have ok': "populate_node (length PLs) (ncols (concat PLs)) tree PLs mm attr = Inr tree'"
    by (simp add: populate_tree_PL_def)
  note P = populate_node_pruned[OF sq[unfolded g] ax[unfolded g] ok']
  from P show "erase attr tree' = erase attr tree" by simp
  show "\<forall>u \<in> set (traverse_postorder tree'). \<exists>v. attrs u attr = Some v \<and>
               (if is_leaf u
                then sid u \<noteq> [] \<and> length v = length PLs
                   \<and> (\<forall>s<length PLs. np_get (PLs ! s) (hd (sid u)) = Inr (v ! s))
                else shape2 (length PLs) g v
                   \<and> (\<forall>s<length PLs. \<forall>j<g. v ! s ! j =
                        (\<Sum>c\<leftarrow>children u.
                           p2phred (\<Sum>i<g. phred2p (the (attrs c attr) ! s ! i) * mm ! i ! j))))"
  proof
    fix u assume "u \<in> set (traverse_postorder tree')"
    with P have "pruned_at PLs mm attr u" by simp
    then show "\<exists>v. attrs u attr = Some v \<and>
               (if is_leaf u
                then sid u \<noteq> [] \<and> length v = length PLs
                   \<and> (\<forall>s<length PLs. np_get (PLs ! s) (hd (sid u)) = Inr (v ! s))
                else shape2 (length PLs) g v
                   \<and> (\<forall>s<length PLs. \<forall>j<g. v ! s ! j =
                        (\<Sum>c\<leftarrow>children u.
                           p2phred (\<Sum>i<g. phred2p (the (attrs c attr) ! s ! i) * mm ! i ! j))))"
      unfolding pruned_at_def Let_def g[symmetric]
      by (auto simp: is_leaf_def sample_column_def mapE_eq_Inr_iff list_all_iff prob_dot_def
               split: option.splits if_splits)
  qed
qed

text \<open>
  Over the reals the pass returns when the entries of \<open>mm\<close> are not negative, each of its
  columns has a positive entry, and every leaf names one of the \<open>m\<close> samples.  (In floating
  point a probability can underflow to zero, and the logarithm then raises.)
\<close>

lemma populate_tree_PL_returns:
  assumes g: "g = ncols (concat PLs)"
      and ax: "geno_axis g PLs"
      and sq: "square g mm"
      and pc: "positive_cols g mm" and m: "list_all (\<lambda>site. length site = m) PLs"
      and lv: "leaves_in m tree"
  shows "\<exists>t. populate_tree_PL tree PLs mm attr = Inr t"
  using populate_node_succeeds[OF sq[unfolded g] ax[unfolded g], of m tree attr] pc m lv
  by (simp add: populate_tree_PL_def g)

text \<open>
  Claim C2.  Let \<open>g\<close> be the number of genotypes of \<open>PLs\<close> and \<open>mm\<close> a \<open>g \<times> g\<close> matrix.
  When the pruning pass returns, the tree it returns is the given tree with the attribute
  set at every node: a leaf holds the vector of its sample at every site, unchanged, and
  an internal node holds, at site \<open>s\<close> and genotype \<open>j\<close>, the sum over its children \<open>c\<close> of
  \<open>-10 log\<^sub>1\<^sub>0 (\<Sum>\<^sub>i 10^(-c[s][i]/10) * mm[i][j])\<close>, where \<open>c[s]\<close> is the row of the child at the
  site.
\<close>

theorem populate_tree_PL_assigns:
  assumes g: "g = ncols (concat PLs)"
      and ax: "geno_axis g PLs"
      and sq: "square g mm"
  shows "populate_tree_PL tree PLs mm attr = Inr tree' \<longrightarrow>
            erase attr tree' = erase attr tree
          \<and> (\<forall>u \<in> set (traverse_postorder tree'). \<exists>v. attrs u attr = Some v \<and>
               (if is_leaf u
                then sid u \<noteq> [] \<and> length v = length PLs
                   \<and> (\<forall>s<length PLs. np_get (PLs ! s) (hd (sid u)) = Inr (v ! s))
                else shape2 (length PLs) g v
                   \<and> (\<forall>s<length PLs. \<forall>j<g. v ! s ! j =
                        (\<Sum>c\<leftarrow>children u.
                           - 10 * log 10 (\<Sum>i<g. 10 powr (- (the (attrs c attr) ! s ! i) / 10)
                                                  * mm ! i ! j)))))"
proof
  assume ok: "populate_tree_PL tree PLs mm attr = Inr tree'"
  from populate_tree_PL_pruned[OF g ax sq ok]
  show "erase attr tree' = erase attr tree
          \<and> (\<forall>u \<in> set (traverse_postorder tree'). \<exists>v. attrs u attr = Some v \<and>
               (if is_leaf u
                then sid u \<noteq> [] \<and> length v = length PLs
                   \<and> (\<forall>s<length PLs. np_get (PLs ! s) (hd (sid u)) = Inr (v ! s))
                else shape2 (length PLs) g v
                   \<and> (\<forall>s<length PLs. \<forall>j<g. v ! s ! j =
                        (\<Sum>c\<leftarrow>children u.
                           - 10 * log 10 (\<Sum>i<g. 10 powr (- (the (attrs c attr) ! s ! i) / 10)
                                                  * mm ! i ! j)))))"
    unfolding p2phred_def phred2p_def by blast
qed

theorem populate_tree_PL_assigns_witness:
  "populate_tree_PL
          (Node [0, 1] Map.empty None
             [Node [0] Map.empty None [], Node [1] Map.empty None []])
          [[[0, 10], [10, 0]]] [[1/11, 1/11], [1/11, 1/11]] ''PL'' =
   Inr (Node [0, 1] (Map.empty(''PL'' \<mapsto> [[20, 20]])) None
             [Node [0] (Map.empty(''PL'' \<mapsto> [[0, 10]])) None [],
              Node [1] (Map.empty(''PL'' \<mapsto> [[10, 0]])) None []])
   \<and> erase ''PL''
        (Node [0, 1] (Map.empty(''PL'' \<mapsto> [[20, 20]])) None
             [Node [0] (Map.empty(''PL'' \<mapsto> [[0, 10]])) None [],
              Node [1] (Map.empty(''PL'' \<mapsto> [[10, 0]])) None []])
     = erase ''PL'' (Node [0, 1] Map.empty None
             [Node [0] Map.empty None [], Node [1] Map.empty None []])
   \<and> (20 :: real)
     = - 10 * log 10 (10 powr (- 0 / 10) * (1/11) + 10 powr (- 10 / 10) * (1/11))
       + - 10 * log 10 (10 powr (- 10 / 10) * (1/11) + 10 powr (- 0 / 10) * (1/11))"
proof -
  let ?T = "Node [0, 1] Map.empty None [Node [0] Map.empty None [], Node [1] Map.empty None []]"
  let ?T' = "Node [0, 1] (Map.empty(''PL'' \<mapsto> [[20, 20]])) None
             [Node [0] (Map.empty(''PL'' \<mapsto> [[0, 10]])) None [],
              Node [1] (Map.empty(''PL'' \<mapsto> [[10, 0]])) None []]"
  let ?P = "[[[0, 10], [10, 0]]] :: arr3"
  let ?M = "[[1/11, 1/11], [1/11, 1/11]] :: arr2"
  have g: "(2::nat) = ncols (concat ?P)" by (simp add: ncols_def)
  have ax: "geno_axis 2 ?P" by (simp add: geno_axis_def)
  have sq: "square 2 ?M" by (simp add: square_def)
  have t: "populate_tree_PL ?T ?P ?M ''PL'' = Inr ?T'" by (rule eval_populate_eleventh)
  from populate_tree_PL_assigns[OF g ax sq, of "?T" "''PL''" "?T'"] t
  have e: "erase ''PL'' ?T' = erase ''PL'' ?T"
    and a: "\<forall>u \<in> set (traverse_postorder ?T'). \<exists>v. attrs u ''PL'' = Some v \<and>
               (if is_leaf u
                then sid u \<noteq> [] \<and> length v = length ?P
                   \<and> (\<forall>s<length ?P. np_get (?P ! s) (hd (sid u)) = Inr (v ! s))
                else shape2 (length ?P) 2 v
                   \<and> (\<forall>s<length ?P. \<forall>j<2. v ! s ! j =
                        (\<Sum>c\<leftarrow>children u.
                           - 10 * log 10 (\<Sum>i<2. 10 powr (- (the (attrs c ''PL'') ! s ! i) / 10)
                                                  * ?M ! i ! j))))"
    by blast+
  have "?T' \<in> set (traverse_postorder ?T')" by simp
  with a have "\<exists>v. attrs ?T' ''PL'' = Some v \<and>
               (if is_leaf ?T'
                then sid ?T' \<noteq> [] \<and> length v = length ?P
                   \<and> (\<forall>s<length ?P. np_get (?P ! s) (hd (sid ?T')) = Inr (v ! s))
                else shape2 (length ?P) 2 v
                   \<and> (\<forall>s<length ?P. \<forall>j<2. v ! s ! j =
                        (\<Sum>c\<leftarrow>children ?T'.
                           - 10 * log 10 (\<Sum>i<2. 10 powr (- (the (attrs c ''PL'') ! s ! i) / 10)
                                                  * ?M ! i ! j))))"
    by blast
  then have A: "\<forall>s<length ?P. \<forall>j<2. [[20, 20 :: real]] ! s ! j =
                        (\<Sum>c\<leftarrow>children ?T'.
                           - 10 * log 10 (\<Sum>i<2. 10 powr (- (the (attrs c ''PL'') ! s ! i) / 10)
                                                  * ?M ! i ! j))"
    by (simp add: is_leaf_def)
  have "[[20, 20 :: real]] ! 0 ! 0 =
                        (\<Sum>c\<leftarrow>children ?T'.
                           - 10 * log 10 (\<Sum>i<2. 10 powr (- (the (attrs c ''PL'') ! 0 ! i) / 10)
                                                  * ?M ! i ! 0))"
    by (rule A[rule_format, of 0 0]) simp_all
  then have v: "(20 :: real)
     = - 10 * log 10 (10 powr (- 0 / 10) * (1/11) + 10 powr (- 10 / 10) * (1/11))
       + - 10 * log 10 (10 powr (- 10 / 10) * (1/11) + 10 powr (- 0 / 10) * (1/11))"
    by (simp add: numeral_2_eq_2)
  from t e v show ?thesis by blast
qed

section \<open>Properties of the mutation placement\<close>

lemma calc_nodes_mapE:
  "calc_nodes n g mm0 mm1 cs = mapE (calc_node n g mm0 mm1) cs"
  by (induction cs) simp_all

lemma calc_node_erase:
  "calc_node n g mm0 mm1 t = Inr t' \<Longrightarrow> erase_PLm t' = erase_PLm t"
proof (induction t arbitrary: t')
  case (Node s a p cs)
  show ?case
  proof (cases "cs = []")
    case True
    with Node.prems show ?thesis by simp
  next
    case False
    with Node.prems obtain cs' plm where
      cs': "mapE (calc_node n g mm0 mm1) cs = Inr cs'" and t': "t' = Node s a (Some plm) cs'"
      by (auto simp: ebind_eq_Inr calc_nodes_mapE)
    have "map erase_PLm cs' = map erase_PLm cs"
    proof (rule nth_equalityI)
      show "length (map erase_PLm cs') = length (map erase_PLm cs)"
        using mapE_length[OF cs'] by simp
    next
      fix k assume "k < length (map erase_PLm cs')"
      then have k: "k < length cs" using mapE_length[OF cs'] by simp
      from Node.IH[OF _ mapE_nth[OF cs' k]] k mapE_length[OF cs']
      show "map erase_PLm cs' ! k = map erase_PLm cs ! k" by simp
    qed
    then show ?thesis by (simp add: t')
  qed
qed

text \<open>Facts that depend on the tree without its \<open>PLm\<close> arrays only.\<close>

lemma erase_PLm_children:
  "erase_PLm t' = erase_PLm t \<Longrightarrow> length (children t') = length (children t)"
  by (cases t; cases t') (auto dest: map_eq_imp_length_eq)

lemma erase_PLm_child:
  "erase_PLm t' = erase_PLm t \<Longrightarrow> k < length (children t) \<Longrightarrow>
   erase_PLm (children t' ! k) = erase_PLm (children t ! k)"
proof (cases t; cases t')
  fix s a p cs s' a' p' cs'
  assume e: "erase_PLm t' = erase_PLm t" and k: "k < length (children t)"
    and t: "t = Node s a p cs" and t': "t' = Node s' a' p' cs'"
  from e t t' have m: "map erase_PLm cs' = map erase_PLm cs" by simp
  then have "length cs' = length cs" by (rule map_eq_imp_length_eq)
  with m k t have "map erase_PLm cs' ! k = map erase_PLm cs ! k" by simp
  with k t \<open>length cs' = length cs\<close> show ?thesis by (simp add: t')
qed

lemma erase_PLm_attrs: "erase_PLm t' = erase_PLm t \<Longrightarrow> attrs t' = attrs t"
  by (cases t; cases t') simp

lemma erase_PLm_sid: "erase_PLm t' = erase_PLm t \<Longrightarrow> sid t' = sid t"
  by (cases t; cases t') simp

lemma erase_PLm_is_leaf: "erase_PLm t' = erase_PLm t \<Longrightarrow> is_leaf t' = is_leaf t"
proof -
  assume "erase_PLm t' = erase_PLm t"
  then have "length (children t') = length (children t)" by (rule erase_PLm_children)
  then have "(children t' = []) = (children t = [])" by (metis length_0_conv)
  then show ?thesis by (simp add: is_leaf_def)
qed

lemma erase_PLm_getattr: "erase_PLm t' = erase_PLm t \<Longrightarrow> getattr t' a = getattr t a"
  using erase_PLm_attrs[of t' t] by (simp add: getattr_def)

lemma erase_PLm_len: "erase_PLm t' = erase_PLm t \<Longrightarrow> len t' = len t"
proof (induction t arbitrary: t')
  case (Node s a p cs)
  obtain s' a' p' cs' where t': "t' = Node s' a' p' cs'" by (cases t')
  from Node.prems t' have m: "map erase_PLm cs' = map erase_PLm cs" by simp
  then have l: "length cs' = length cs" by (rule map_eq_imp_length_eq)
  have "map len cs' = map len cs"
  proof (rule nth_equalityI)
    show "length (map len cs') = length (map len cs)" using l by simp
  next
    fix k assume "k < length (map len cs')"
    then have k: "k < length cs" using l by simp
    from m have "map erase_PLm cs' ! k = map erase_PLm cs ! k" by simp
    with k l have "erase_PLm (cs' ! k) = erase_PLm (cs ! k)" by simp
    from Node.IH[OF _ this] k l show "map len cs' ! k = map len cs ! k" by simp
  qed
  moreover have "(cs' = []) = (cs = [])" using l by (metis length_0_conv)
  ultimately show ?case unfolding t' len.simps by presburger
qed

text \<open>Writing into the placement array.\<close>

lemma assign1_same: "length v = g \<Longrightarrow> assign1 g v = Inr v"
  by (simp add: assign1_def)

lemma assign2_same: "shape2 n g a \<Longrightarrow> assign2 n g a = Inr a"
proof -
  assume a: "shape2 n g a"
  then have "mapE (assign1 g) a = mapE Inr a"
    by (intro mapE_cong[OF refl] assign1_same) (auto simp: shape2_def list_all_iff)
  also have "\<dots> = Inr a" using mapE_pure[of id a] by simp
  finally show ?thesis using a by (simp add: assign2_def shape2_def)
qed

lemma mapE_assign2_same:
  "\<forall>x \<in> set v. shape2 n g x \<Longrightarrow> mapE (assign2 n g) v = Inr v"
proof -
  assume "\<forall>x \<in> set v. shape2 n g x"
  then have "mapE (assign2 n g) v = mapE Inr v"
    by (intro mapE_cong[OF refl] assign2_same) auto
  also have "\<dots> = Inr v" using mapE_pure[of id v] by simp
  finally show ?thesis .
qed

lemma set_slice_fits:
  assumes "\<forall>x \<in> set v. shape2 n g x" "i + length v \<le> length a"
  shows "set_slice n g a i (length v) v = Inr (take i a @ v @ drop (i + length v) a)"
  using assms by (simp add: set_slice_def Let_def mapE_assign2_same min_def)

lemma set_item_fits:
  assumes "shape2 n g e" "i < length a"
  shows "set_item n g a i e = Inr (take i a @ [e] @ drop (Suc i) a)"
  using assms by (simp add: set_item_def assign2_same upd_conv_take_nth_drop)

lemma written_take:
  "i + length b \<le> length a \<Longrightarrow>
   take (i + length b) (take i a @ b @ drop (i + length b) a) = take i a @ b"
  by simp

lemma written_drop:
  "i + length b \<le> length a \<Longrightarrow>
   drop (i + length b + r) (take i a @ b @ drop (i + length b) a) = drop (i + length b + r) a"
  by (simp add: add.commute add.left_commute)

lemma written_length:
  "i + length b \<le> length a \<Longrightarrow> length (take i a @ b @ drop (i + length b) a) = length a"
  by simp

text \<open>The arrays that are carried over an edge keep their shape.\<close>

lemma transfer2_shape:
  assumes "square g mm" "shape2 n g a" "transfer2 a mm = Inr x"
  shows "shape2 n g x"
  using assms(3) assms(2) unfolding transfer2_eq_Inr[OF assms(1,2)]
  by (simp add: shape2_def list_all_length)

lemma transfer2_positive:
  assumes "square g mm" "shape2 n g a" "positive_cols g mm"
  shows "\<exists>x. transfer2 a mm = Inr x"
  unfolding transfer2_eq_Inr[OF assms(1,2)] using prob_dot_pos[OF assms(3)] by simp

lemma add2_shape:
  assumes "shape2 n g a" "shape2 n g b" "add2 a b = Inr c"
  shows "shape2 n g c"
  using assms(3) shape2_map2[OF assms(1,2), of "(+)"] by (simp add: add2_same[OF assms(1,2)])

lemma carried_shape:
  assumes sq: "square g mm0" and x: "shape2 n g x"
      and s: "attrs sister ''PL0'' = Some s0" "shape2 n g s0"
      and c: "carried x sister mm0 = Inr v"
  shows "shape2 n g v"
proof -
  from c obtain x' y where
    x': "transfer2 x mm0 = Inr x'" and y: "transfer2 s0 mm0 = Inr y" and v: "add2 x' y = Inr v"
    by (auto simp: carried_def ebind_eq_Inr getattr_def s(1))
  from add2_shape[OF transfer2_shape[OF sq x x'] transfer2_shape[OF sq s(2) y] v]
  show ?thesis .
qed

lemma carried_positive:
  assumes sq: "square g mm0" and x: "shape2 n g x"
      and s: "attrs sister ''PL0'' = Some s0" "shape2 n g s0"
      and pc: "positive_cols g mm0"
  shows "\<exists>v. carried x sister mm0 = Inr v"
proof -
  from transfer2_positive[OF sq x pc] obtain x' where x': "transfer2 x mm0 = Inr x'" ..
  from transfer2_positive[OF sq s(2) pc] obtain y where y: "transfer2 s0 mm0 = Inr y" ..
  have "add2 x' y = Inr (map2 (map2 (+)) x' y)"
    using add2_same[OF transfer2_shape[OF sq x x'] transfer2_shape[OF sq s(2) y]] .
  then show ?thesis by (simp add: carried_def getattr_def s(1) x' y)
qed

lemma on_edge_shape:
  assumes sq0: "square g mm0" and sq1: "square g mm1"
      and c: "attrs child ''PL0'' = Some c0" "shape2 n g c0"
      and s: "attrs sister ''PL0'' = Some s0" "shape2 n g s0"
      and e: "on_edge child sister mm0 mm1 = Inr v"
  shows "shape2 n g v"
proof -
  from e obtain x y where
    x: "transfer2 c0 mm1 = Inr x" and y: "transfer2 s0 mm0 = Inr y" and v: "add2 x y = Inr v"
    by (auto simp: on_edge_def ebind_eq_Inr getattr_def s(1) c(1))
  from add2_shape[OF transfer2_shape[OF sq1 c(2) x] transfer2_shape[OF sq0 s(2) y] v]
  show ?thesis .
qed

lemma on_edge_positive:
  assumes sq0: "square g mm0" and sq1: "square g mm1"
      and c: "attrs child ''PL0'' = Some c0" "shape2 n g c0"
      and s: "attrs sister ''PL0'' = Some s0" "shape2 n g s0"
      and pc0: "positive_cols g mm0" and pc1: "positive_cols g mm1"
  shows "\<exists>v. on_edge child sister mm0 mm1 = Inr v"
proof -
  from transfer2_positive[OF sq1 c(2) pc1] obtain x where x: "transfer2 c0 mm1 = Inr x" ..
  from transfer2_positive[OF sq0 s(2) pc0] obtain y where y: "transfer2 s0 mm0 = Inr y" ..
  have "add2 x y = Inr (map2 (map2 (+)) x y)"
    using add2_same[OF transfer2_shape[OF sq1 c(2) x] transfer2_shape[OF sq0 s(2) y]] .
  then show ?thesis by (simp add: on_edge_def getattr_def s(1) c(1) x y)
qed

lemma mapE_ebind_fuse:
  "(ebind (mapE f xs) (mapE h) = Inr ys) = (mapE (\<lambda>x. ebind (f x) h) xs = Inr ys)"
proof (induction xs arbitrary: ys)
  case Nil
  show ?case by simp
next
  case (Cons x xs)
  show ?case
  proof (cases "f x")
    case (Inl e)
    then show ?thesis by simp
  next
    case (Inr y)
    show ?thesis
    proof (cases "mapE f xs")
      case (Inl e)
      with Cons.IH have "\<And>zs. mapE (\<lambda>x. ebind (f x) h) xs \<noteq> Inr zs" by simp
      then show ?thesis using Inl Inr by (auto simp: ebind_eq_Inr)
    next
      case r: (Inr ds)
      with Cons.IH have "\<And>zs. (mapE h ds = Inr zs) = (mapE (\<lambda>x. ebind (f x) h) xs = Inr zs)"
        by simp
      then show ?thesis using r Inr by (auto simp: ebind_eq_Inr)
    qed
  qed
qed

lemma transfer3_eq_Inr:
  "transfer3 a mm = Inr xs \<longleftrightarrow>
     length xs = length a \<and> (\<forall>k<length a. transfer2 (a ! k) mm = Inr (xs ! k))"
proof -
  have "transfer3 a mm = ebind (mapE (\<lambda>slab. dot2 (map (map phred2p) slab) mm) a) (mapE p2phred_arr2)"
    by (simp add: transfer3_def dot3_def mapE_map p2phred_arr3_def[abs_def])
  then show ?thesis
    by (simp add: mapE_ebind_fuse mapE_eq_Inr_iff transfer2_def)
qed

lemma inherited_slabs:
  assumes "inherited child sister mm0 = Inr block"
  shows "\<exists>cm. PLm child = Some cm \<and> list_all2 (\<lambda>x v. carried x sister mm0 = Inr v) cm block"
proof -
  from assms obtain cm x s0 y where
    cm: "PLm child = Some cm" and x: "transfer3 cm mm0 = Inr x"
    and s0: "getattr sister ''PL0'' = Inr s0" and y: "transfer2 s0 mm0 = Inr y"
    and b: "add3_2 x y = Inr block"
    by (auto simp: inherited_def ebind_eq_Inr get_PLm_def split: option.splits)
  from x have lx: "length x = length cm" and xk: "\<forall>k<length cm. transfer2 (cm ! k) mm0 = Inr (x ! k)"
    by (simp_all add: transfer3_eq_Inr)
  from b have lb: "length block = length x" and bk: "\<forall>k<length x. add2 (x ! k) y = Inr (block ! k)"
    by (simp_all add: add3_2_def mapE_eq_Inr_iff)
  have "list_all2 (\<lambda>x v. carried x sister mm0 = Inr v) cm block"
    using lx lb xk bk s0 y by (simp add: list_all2_conv_all_nth carried_def)
  with cm show ?thesis by blast
qed

lemma inherited_from_slabs:
  assumes cm: "PLm child = Some cm"
      and s0: "getattr sister ''PL0'' = Inr s0" and y: "transfer2 s0 mm0 = Inr y"
      and each: "list_all2 (\<lambda>x v. carried x sister mm0 = Inr v) cm block"
  shows "inherited child sister mm0 = Inr block"
proof -
  have len: "length block = length cm" using each by (simp add: list_all2_lengthD)
  have k: "\<forall>k<length cm. \<exists>x'. transfer2 (cm ! k) mm0 = Inr x' \<and> add2 x' y = Inr (block ! k)"
    using each s0 y by (auto simp: list_all2_conv_all_nth carried_def ebind_eq_Inr)
  define x where "x = map (\<lambda>k. projr (transfer2 (cm ! k) mm0)) [0..<length cm]"
  have xk: "transfer2 (cm ! k) mm0 = Inr (x ! k) \<and> add2 (x ! k) y = Inr (block ! k)"
    if "k < length cm" for k
    using k that by (auto simp: x_def)
  have lx: "length x = length cm" by (simp add: x_def)
  have "transfer3 cm mm0 = Inr x" using xk lx by (simp add: transfer3_eq_Inr)
  moreover have "add3_2 x y = Inr block"
    using xk lx len by (simp add: add3_2_def mapE_eq_Inr_iff)
  ultimately show ?thesis by (simp add: inherited_def get_PLm_def cm s0 y)
qed

lemma written_twice:
  assumes "w = take i a @ b @ drop (i + length b) a"
      and "i + length b \<le> length a"
      and "r = take (i + length b) w @ c @ drop (i + length b + length c) w"
  shows "r = take i a @ (b @ c) @ drop (i + length (b @ c)) a"
  using assms written_take[of i b a] written_drop[of i b a "length c"]
  by (simp add: add.assoc)

lemma set_item_after_slice:
  assumes "i + length v < length a"
  shows "take (i + length v) (take i a @ v @ drop (i + length v) a) @ [e]
           @ drop (Suc (i + length v)) (take i a @ v @ drop (i + length v) a)
         = take i a @ (v @ [e]) @ drop (i + length (v @ [e])) a"
proof -
  have le: "i + length v \<le> length a" using assms by simp
  show ?thesis
    using written_take[OF le] written_drop[OF le, of 1] by simp
qed

lemma fill_PLm_writes:
  assumes sq0: "square g mm0" and sq1: "square g mm1"
  shows "\<lbrakk> \<forall>(c, sis) \<in> set ps. \<exists>s c0 s0. sis = Inr s
              \<and> attrs c ''PL0'' = Some c0 \<and> shape2 n g c0
              \<and> attrs s ''PL0'' = Some s0 \<and> shape2 n g s0
              \<and> (\<not> is_leaf c \<longrightarrow> PLm c \<noteq> None)
              \<and> (\<forall>x \<in> set (slabs c). shape2 n g x);
           i + sum_list (map (\<lambda>(c, sis). Suc (length (slabs c))) ps) \<le> length plm;
           fill_PLm n g mm0 mm1 ps plm i = Inr plm' \<rbrakk>
         \<Longrightarrow> \<exists>bs. plm' = take i plm @ concat bs @ drop (i + length (concat bs)) plm
               \<and> length (concat bs) = sum_list (map (\<lambda>(c, sis). Suc (length (slabs c))) ps)
               \<and> list_all2 (\<lambda>(c, sis) b. \<exists>block e. b = block @ [e]
                     \<and> on_edge c (projr sis) mm0 mm1 = Inr e \<and> shape2 n g e
                     \<and> list_all2 (\<lambda>x v. carried x (projr sis) mm0 = Inr v \<and> shape2 n g v)
                          (slabs c) block) ps bs"
proof (induction ps arbitrary: plm i plm')
  case Nil
  then have "plm' = plm" by simp
  then show ?case by (intro exI[of _ "[]"]) simp
next
  case (Cons pr rest)
  obtain c sis where pr: "pr = (c, sis)" by (cases pr)
  from Cons.prems(1) pr obtain s c0 s0 where
    sis: "sis = Inr s" and c0: "attrs c ''PL0'' = Some c0" "shape2 n g c0"
    and s0: "attrs s ''PL0'' = Some s0" "shape2 n g s0"
    and plmc: "\<not> is_leaf c \<longrightarrow> PLm c \<noteq> None"
    and shc: "\<forall>x \<in> set (slabs c). shape2 n g x"
    by auto
  have rest_ok: "\<forall>(c, sis) \<in> set rest. \<exists>s c0 s0. sis = Inr s
              \<and> attrs c ''PL0'' = Some c0 \<and> shape2 n g c0
              \<and> attrs s ''PL0'' = Some s0 \<and> shape2 n g s0
              \<and> (\<not> is_leaf c \<longrightarrow> PLm c \<noteq> None)
              \<and> (\<forall>x \<in> set (slabs c). shape2 n g x)"
    using Cons.prems(1) by simp
  let ?tot = "sum_list (map (\<lambda>(c, sis). Suc (length (slabs c))) rest)"
  from Cons.prems(2) pr have fit: "i + Suc (length (slabs c)) + ?tot \<le> length plm" by simp
  text \<open>The slice for the placements inside the child.\<close>
  have "\<exists>v. list_all2 (\<lambda>x v. carried x s mm0 = Inr v \<and> shape2 n g v) (slabs c) v
        \<and> (\<exists>e plm2. on_edge c s mm0 mm1 = Inr e
              \<and> plm2 = take i plm @ (v @ [e]) @ drop (i + length (v @ [e])) plm
              \<and> fill_PLm n g mm0 mm1 rest plm2 (i + length (v @ [e])) = Inr plm')"
  proof (cases "is_leaf c")
    case True
    then have sl: "slabs c = []" by (simp add: slabs_def)
    from Cons.prems(3) pr sis True obtain e plm2 where
      e: "on_edge c s mm0 mm1 = Inr e" and w: "set_item n g plm i e = Inr plm2"
      and f: "fill_PLm n g mm0 mm1 rest plm2 (Suc i) = Inr plm'"
      by (auto simp: ebind_eq_Inr)
    have she: "shape2 n g e" using on_edge_shape[OF sq0 sq1 c0 s0 e] .
    have "i < length plm" using fit by simp
    from set_item_fits[OF she this] w have "plm2 = take i plm @ [e] @ drop (Suc i) plm" by simp
    with e f sl show ?thesis by (intro exI[of _ "[]"]) simp
  next
    case False
    with plmc obtain cm where cm: "PLm c = Some cm" by auto
    with False have sl: "slabs c = cm" by (simp add: slabs_def)
    from Cons.prems(3) pr sis False cm obtain v plm1 e plm2 where
      v: "inherited c s mm0 = Inr v" and w1: "set_slice n g plm i (length cm) v = Inr plm1"
      and e: "on_edge c s mm0 mm1 = Inr e" and w2: "set_item n g plm1 (i + length cm) e = Inr plm2"
      and f: "fill_PLm n g mm0 mm1 rest plm2 (Suc (i + length cm)) = Inr plm'"
      by (auto simp: ebind_eq_Inr get_PLm_def)
    from inherited_slabs[OF v] cm have car: "list_all2 (\<lambda>x v. carried x s mm0 = Inr v) cm v"
      by simp
    then have lv: "length v = length cm" by (simp add: list_all2_lengthD)
    have shv: "\<forall>x \<in> set v. shape2 n g x"
    proof
      fix x assume "x \<in> set v"
      then obtain k where k: "k < length v" "x = v ! k" by (auto simp: in_set_conv_nth)
      with car lv have "carried (cm ! k) s mm0 = Inr x" by (simp add: list_all2_conv_all_nth)
      moreover have "shape2 n g (cm ! k)" using shc sl k lv by simp
      ultimately show "shape2 n g x" using carried_shape[OF sq0 _ s0] by blast
    qed
    have car': "list_all2 (\<lambda>x v. carried x s mm0 = Inr v \<and> shape2 n g v) (slabs c) v"
      using car shv sl lv by (simp add: list_all2_conv_all_nth)
    have she: "shape2 n g e" using on_edge_shape[OF sq0 sq1 c0 s0 e] .
    have le: "i + length v < length plm" using fit sl lv by simp
    then have le': "i + length v \<le> length plm" by simp
    from set_slice_fits[OF shv le'] w1 lv
    have p1: "plm1 = take i plm @ v @ drop (i + length v) plm" by simp
    then have l1: "length plm1 = length plm" using le' by simp
    from set_item_fits[OF she, of "i + length v" plm1] w2 lv l1 le
    have "plm2 = take (i + length v) plm1 @ [e] @ drop (Suc (i + length v)) plm1" by simp
    then have "plm2 = take i plm @ (v @ [e]) @ drop (i + length (v @ [e])) plm"
      unfolding p1 using set_item_after_slice[OF le, of e] by simp
    with e f car' lv show ?thesis by (intro exI[of _ v]) simp
  qed
  then obtain v e plm2 where
    car: "list_all2 (\<lambda>x v. carried x s mm0 = Inr v \<and> shape2 n g v) (slabs c) v"
    and e: "on_edge c s mm0 mm1 = Inr e"
    and p2: "plm2 = take i plm @ (v @ [e]) @ drop (i + length (v @ [e])) plm"
    and f: "fill_PLm n g mm0 mm1 rest plm2 (i + length (v @ [e])) = Inr plm'"
    by blast
  let ?b = "v @ [e]"
  have lv: "length v = length (slabs c)" using car by (simp add: list_all2_lengthD)
  have lb: "length ?b = Suc (length (slabs c))" using lv by simp
  have le: "i + length ?b \<le> length plm" using fit lb by simp
  have l2: "length plm2 = length plm" unfolding p2 using written_length[OF le] .
  have fit2: "(i + length ?b) + ?tot \<le> length plm2" using fit lb l2 by simp
  from Cons.IH[OF rest_ok fit2 f] obtain bs where
    r: "plm' = take (i + length ?b) plm2 @ concat bs @ drop (i + length ?b + length (concat bs)) plm2"
    and lbs: "length (concat bs) = ?tot"
    and all: "list_all2 (\<lambda>(c, sis) b. \<exists>block e. b = block @ [e]
                     \<and> on_edge c (projr sis) mm0 mm1 = Inr e \<and> shape2 n g e
                     \<and> list_all2 (\<lambda>x v. carried x (projr sis) mm0 = Inr v \<and> shape2 n g v)
                          (slabs c) block) rest bs"
    by blast
  have she: "shape2 n g e" using on_edge_shape[OF sq0 sq1 c0 s0 e] .
  have "plm' = take i plm @ (?b @ concat bs) @ drop (i + length (?b @ concat bs)) plm"
    using written_twice[OF p2 le r] .
  then have a: "plm' = take i plm @ concat (?b # bs) @ drop (i + length (concat (?b # bs))) plm"
    by simp
  have b: "length (concat (?b # bs)) = sum_list (map (\<lambda>(c, sis). Suc (length (slabs c))) (pr # rest))"
    using lbs lb pr by simp
  have c: "list_all2 (\<lambda>(c, sis) b. \<exists>block e. b = block @ [e]
                     \<and> on_edge c (projr sis) mm0 mm1 = Inr e \<and> shape2 n g e
                     \<and> list_all2 (\<lambda>x v. carried x (projr sis) mm0 = Inr v \<and> shape2 n g v)
                          (slabs c) block) (pr # rest) (?b # bs)"
    using all car e she pr sis by auto
  from a b c show ?case by blast
qed

text \<open>Paths and the post-order listing of the nodes below the root.\<close>

lemma paths_nonempty:
  "\<forall>p \<in> set (descendant_paths t). p \<noteq> []"
  "\<forall>p \<in> set (child_paths k cs). p \<noteq> []"
  by (induction t and k cs rule: descendant_paths_child_paths.induct) auto

lemma paths_erase:
  "descendant_paths (erase_PLm t) = descendant_paths t"
  "child_paths k (map erase_PLm cs) = child_paths k cs"
  by (induction t and k cs rule: descendant_paths_child_paths.induct) auto

lemma descendant_paths_cong:
  "erase_PLm t' = erase_PLm t \<Longrightarrow> descendant_paths t' = descendant_paths t"
  using paths_erase(1)[of t'] paths_erase(1)[of t] by simp

lemma child_paths_first:
  "\<forall>p \<in> set (descendant_paths t). True"
  "\<forall>p \<in> set (child_paths k cs). k \<le> hd p"
  by (induction t and k cs rule: descendant_paths_child_paths.induct) auto

lemma paths_distinct:
  "distinct (descendant_paths t)"
  "distinct (child_paths k cs)"
proof (induction t and k cs rule: descendant_paths_child_paths.induct)
  case (1 s a p cs)
  then show ?case by simp
next
  case (2 k)
  then show ?case by simp
next
  case (3 k c cs)
  have d1: "distinct (map ((#) k) (descendant_paths c))"
    using 3(1) by (simp add: distinct_map inj_on_def)
  have n1: "[k] \<notin> set (map ((#) k) (descendant_paths c))"
    using paths_nonempty(1)[of c] by auto
  have far: "\<forall>p \<in> set (child_paths (Suc k) cs). Suc k \<le> hd p"
    using child_paths_first(2) by blast
  have n2: "[k] \<notin> set (child_paths (Suc k) cs)" using far by fastforce
  have n3: "set (map ((#) k) (descendant_paths c)) \<inter> set (child_paths (Suc k) cs) = {}"
    using far by fastforce
  show ?case using d1 n1 n2 n3 3(2) by auto
qed

lemma paths_valid:
  "set (descendant_paths t) = {p. p \<noteq> [] \<and> valid_path t p}"
  "set (child_paths k cs) = {p. \<exists>j q. p = (k + j) # q \<and> j < length cs \<and> valid_path (cs ! j) q}"
proof (induction t and k cs rule: descendant_paths_child_paths.induct)
  case (1 s a p cs)
  show ?case
  proof (rule set_eqI)
    fix q
    show "q \<in> set (descendant_paths (Node s a p cs)) \<longleftrightarrow> q \<in> {p'. p' \<noteq> [] \<and> valid_path (Node s a p cs) p'}"
      using 1 by (cases q) auto
  qed
next
  case (2 k)
  show ?case by simp
next
  case (3 k c cs)
  show ?case
  proof (rule set_eqI)
    fix p
    have "p \<in> set (child_paths k (c # cs)) \<longleftrightarrow>
          (\<exists>q. p = k # q \<and> q \<noteq> [] \<and> valid_path c q) \<or> p = [k]
        \<or> (\<exists>j q. p = (Suc k + j) # q \<and> j < length cs \<and> valid_path (cs ! j) q)"
      using 3 by auto
    also have "\<dots> \<longleftrightarrow> (\<exists>q. p = k # q \<and> valid_path c q)
        \<or> (\<exists>j q. p = (Suc k + j) # q \<and> j < length cs \<and> valid_path (cs ! j) q)"
      by (metis valid_path.simps(1))
    also have "\<dots> \<longleftrightarrow> (\<exists>j q. p = (k + j) # q \<and> j < length (c # cs) \<and> valid_path ((c # cs) ! j) q)"
    proof
      assume "(\<exists>q. p = k # q \<and> valid_path c q)
        \<or> (\<exists>j q. p = (Suc k + j) # q \<and> j < length cs \<and> valid_path (cs ! j) q)"
      then show "\<exists>j q. p = (k + j) # q \<and> j < length (c # cs) \<and> valid_path ((c # cs) ! j) q"
      proof
        assume "\<exists>q. p = k # q \<and> valid_path c q"
        then obtain q where "p = k # q" "valid_path c q" by blast
        then show ?thesis by (intro exI[of _ 0] exI[of _ q]) simp
      next
        assume "\<exists>j q. p = (Suc k + j) # q \<and> j < length cs \<and> valid_path (cs ! j) q"
        then obtain j q where "p = (Suc k + j) # q" "j < length cs" "valid_path (cs ! j) q" by blast
        then show ?thesis by (intro exI[of _ "Suc j"] exI[of _ q]) simp
      qed
    next
      assume "\<exists>j q. p = (k + j) # q \<and> j < length (c # cs) \<and> valid_path ((c # cs) ! j) q"
      then obtain j q where j: "p = (k + j) # q" "j < length (c # cs)" "valid_path ((c # cs) ! j) q"
        by blast
      show "(\<exists>q. p = k # q \<and> valid_path c q)
        \<or> (\<exists>j q. p = (Suc k + j) # q \<and> j < length cs \<and> valid_path (cs ! j) q)"
      proof (cases j)
        case 0
        with j show ?thesis by simp
      next
        case (Suc j')
        with j show ?thesis by (intro disjI2 exI[of _ j'] exI[of _ q]) simp
      qed
    qed
    finally show "p \<in> set (child_paths k (c # cs)) \<longleftrightarrow>
        p \<in> {p. \<exists>j q. p = (k + j) # q \<and> j < length (c # cs) \<and> valid_path ((c # cs) ! j) q}"
      by simp
  qed
qed

lemma traverse_postorder_iter: "traverse_postorder t = iter_descendants t @ [t]"
  by (cases t) (simp add: iter_descendants_def)

lemma paths_subtrees_aux:
  "map (subtree_at t) (descendant_paths t) = iter_descendants t"
  "\<forall>pre cs0. k = length pre \<and> cs0 = pre @ cs \<longrightarrow>
     map (\<lambda>p. subtree_at (cs0 ! hd p) (tl p)) (child_paths k cs)
       = concat (map traverse_postorder cs)"
proof (induction t and k cs rule: descendant_paths_child_paths.induct)
  case (1 s a p cs)
  have "map (subtree_at (Node s a p cs)) (child_paths 0 cs)
      = map (\<lambda>p. subtree_at (cs ! hd p) (tl p)) (child_paths 0 cs)"
  proof (rule map_cong[OF refl])
    fix q assume "q \<in> set (child_paths 0 cs)"
    then have "q \<noteq> []" using paths_nonempty(2) by blast
    then show "subtree_at (Node s a p cs) q = subtree_at (cs ! hd q) (tl q)"
      by (cases q) simp_all
  qed
  also have "\<dots> = concat (map traverse_postorder cs)"
    using 1 by simp
  finally show ?case by (simp add: iter_descendants_def)
next
  case (2 k)
  show ?case by simp
next
  case (3 k c cs)
  show ?case
  proof (intro allI impI)
    fix pre cs0 assume h: "k = length pre \<and> cs0 = pre @ c # cs"
    then have ck: "cs0 ! k = c" by simp
    have r: "map (\<lambda>p. subtree_at (cs0 ! hd p) (tl p)) (child_paths (Suc k) cs)
           = concat (map traverse_postorder cs)"
      using 3(2) h by (auto dest!: spec[of _ "pre @ [c]"])
    have "map (\<lambda>p. subtree_at (cs0 ! hd p) (tl p)) (map ((#) k) (descendant_paths c))
        = map (subtree_at c) (descendant_paths c)"
      by (simp add: ck o_def)
    then have f: "map (\<lambda>p. subtree_at (cs0 ! hd p) (tl p)) (map ((#) k) (descendant_paths c))
        = iter_descendants c" using 3(1) by simp
    show "map (\<lambda>p. subtree_at (cs0 ! hd p) (tl p)) (child_paths k (c # cs))
        = concat (map traverse_postorder (c # cs))"
      using f r ck by (simp add: traverse_postorder_iter del: map_map)
  qed
qed

lemma paths_subtrees: "iter_descendants t = map (subtree_at t) (descendant_paths t)"
  by (simp add: paths_subtrees_aux(1))

lemma len_pos: "0 < len t"
proof (induction t)
  case (Node s a p cs)
  show ?case
  proof (cases cs)
    case Nil
    then show ?thesis by simp
  next
    case (Cons c cs')
    with Node.IH[of c] show ?thesis by simp
  qed
qed

lemma binary_two:
  assumes "binary (Node s a p cs)" "cs \<noteq> []"
  obtains c0 c1 where "cs = [c0, c1]" "binary c0" "binary c1"
proof -
  from assms have l: "length cs = 2" and b: "list_all binary cs" by auto
  from l obtain c0 c1 where "cs = [c0, c1]"
    by (cases cs; cases "tl cs") auto
  with b that show ?thesis by simp
qed

lemma binary_paths_length: "binary t \<Longrightarrow> length (descendant_paths t) = 2 * len t - 2"
proof (induction t)
  case (Node s a p cs)
  show ?case
  proof (cases "cs = []")
    case True
    then show ?thesis by simp
  next
    case False
    from binary_two[OF Node.prems False] obtain c0 c1 where
      cs: "cs = [c0, c1]" and b: "binary c0" "binary c1" by blast
    have "length (descendant_paths c0) = 2 * len c0 - 2" "length (descendant_paths c1) = 2 * len c1 - 2"
      using Node.IH b cs by simp_all
    then show ?thesis using len_pos[of c0] len_pos[of c1] by (simp add: cs)
  qed
qed

lemma get_sister_erase:
  assumes "map erase_PLm cs' = map erase_PLm cs"
  shows "get_sister cs' k = Inl e \<longleftrightarrow> get_sister cs k = Inl e"
    and "get_sister cs' k = Inr s' \<Longrightarrow> \<exists>s. get_sister cs k = Inr s \<and> erase_PLm s' = erase_PLm s"
proof -
  let ?L' = "take k cs' @ drop (Suc k) cs'" and ?L = "take k cs @ drop (Suc k) cs"
  have m: "map erase_PLm ?L' = map erase_PLm ?L"
    using assms by (simp add: take_map[symmetric] drop_map[symmetric])
  show "get_sister cs' k = Inl e \<longleftrightarrow> get_sister cs k = Inl e"
    using m by (cases ?L; cases ?L') (auto simp: get_sister_def)
  show "get_sister cs' k = Inr s' \<Longrightarrow> \<exists>s. get_sister cs k = Inr s \<and> erase_PLm s' = erase_PLm s"
    using m by (cases ?L; cases ?L') (auto simp: get_sister_def)
qed

lemma on_edge_erase:
  "erase_PLm c' = erase_PLm c \<Longrightarrow> erase_PLm s' = erase_PLm s \<Longrightarrow>
   on_edge c' s' mm0 mm1 = on_edge c s mm0 mm1"
  using erase_PLm_getattr[of c' c] erase_PLm_getattr[of s' s] by (simp add: on_edge_def)

lemma carried_erase:
  "erase_PLm s' = erase_PLm s \<Longrightarrow> carried x s' mm0 = carried x s mm0"
  using erase_PLm_getattr[of s' s] by (simp add: carried_def)

lemma erase_PLm_children_map:
  "erase_PLm t' = erase_PLm t \<Longrightarrow> map erase_PLm (children t') = map erase_PLm (children t)"
  by (cases t; cases t') simp

lemma placement_erase:
  "erase_PLm t' = erase_PLm t \<Longrightarrow> placement mm0 mm1 t' p = placement mm0 mm1 t p"
proof (induction mm0 mm1 t p arbitrary: t' rule: placement.induct)
  case (1 mm0 mm1 t)
  show ?case by simp
next
  case (2 mm0 mm1 t k)
  note m = erase_PLm_children_map[OF 2]
  have l: "length (children t') = length (children t)" using erase_PLm_children[OF 2] .
  show ?case
  proof (cases "k < length (children t)")
    case False
    then show ?thesis using l by simp
  next
    case True
    have c: "erase_PLm (children t' ! k) = erase_PLm (children t ! k)"
      using erase_PLm_child[OF 2 True] .
    show ?thesis
    proof (cases "get_sister (children t') k")
      case (Inl e)
      then show ?thesis using get_sister_erase(1)[OF m, of k e] True l by simp
    next
      case (Inr s')
      from get_sister_erase(2)[OF m Inr] obtain s where
        s: "get_sister (children t) k = Inr s" "erase_PLm s' = erase_PLm s" by blast
      then show ?thesis using Inr True l on_edge_erase[OF c s(2)] by simp
    qed
  qed
next
  case (3 mm0 mm1 t k k' p)
  note m = erase_PLm_children_map[OF 3(2)]
  have l: "length (children t') = length (children t)" using erase_PLm_children[OF 3(2)] .
  show ?case
  proof (cases "k < length (children t)")
    case False
    then show ?thesis using l by simp
  next
    case True
    have c: "erase_PLm (children t' ! k) = erase_PLm (children t ! k)"
      using erase_PLm_child[OF 3(2) True] .
    show ?thesis
    proof (cases "get_sister (children t') k")
      case (Inl e)
      then show ?thesis using get_sister_erase(1)[OF m, of k e] True l by simp
    next
      case (Inr s')
      from get_sister_erase(2)[OF m Inr] obtain s where
        s: "get_sister (children t) k = Inr s" "erase_PLm s' = erase_PLm s" by blast
      have "placement mm0 mm1 (children t' ! k) (k' # p) = placement mm0 mm1 (children t ! k) (k' # p)"
        using 3(1)[OF True c] .
      then show ?thesis using Inr True l s carried_erase[OF s(2)] by simp
    qed
  qed
qed

lemma all_PL0_Node:
  "all_PL0 n g (Node s a p cs) \<longleftrightarrow>
     (\<exists>a0. a ''PL0'' = Some a0 \<and> shape2 n g a0) \<and> (\<forall>c \<in> set cs. all_PL0 n g c)"
  by (auto simp: all_PL0_def list_all_iff split: option.splits)

lemma all_PL0_root: "all_PL0 n g t \<Longrightarrow> \<exists>a0. attrs t ''PL0'' = Some a0 \<and> shape2 n g a0"
  by (cases t) (simp add: all_PL0_Node)

lemma all_PL0_erase:
  "erase_PLm t' = erase_PLm t \<Longrightarrow> all_PL0 n g t \<Longrightarrow> \<exists>a0. attrs t' ''PL0'' = Some a0 \<and> shape2 n g a0"
  using all_PL0_root[of n g t] erase_PLm_attrs[of t' t] by simp

lemma with_sisters_two: "with_sisters [c0, c1] = [(c0, Inr c1), (c1, Inr c0)]"
  by (simp add: with_sisters_def get_sister_def numeral_2_eq_2)

lemma get_sister_two: "get_sister [c0, c1] 0 = Inr c1" "get_sister [c0, c1] (Suc 0) = Inr c0"
  by (simp_all add: get_sister_def)

lemma placement_below:
  assumes "k < length cs" "get_sister cs k = Inr sis" "q \<noteq> []"
  shows "placement mm0 mm1 (Node s a pl cs) (k # q) =
         ebind (placement mm0 mm1 (cs ! k) q) (\<lambda>x. carried x sis mm0)"
  using assms by (cases q) simp_all

lemma lift_block:
  assumes below: "list_all2 (\<lambda>p x. placement mm0 mm1 c p = Inr x \<and> shape2 n g x) ps xs"
      and car: "list_all2 (\<lambda>x v. carried x sis mm0 = Inr v \<and> shape2 n g v) xs vs"
      and ne: "\<forall>p \<in> set ps. p \<noteq> []"
      and k: "k < length cs" "cs ! k = c" "get_sister cs k = Inr sis"
  shows "list_all2 (\<lambda>p v. placement mm0 mm1 (Node s a pl cs) p = Inr v \<and> shape2 n g v)
           (map ((#) k) ps) vs"
proof -
  have l1: "length ps = length xs" using below by (rule list_all2_lengthD)
  have l2: "length xs = length vs" using car by (rule list_all2_lengthD)
  show ?thesis
  proof (rule list_all2_all_nthI)
    show "length (map ((#) k) ps) = length vs" using l1 l2 by simp
  next
    fix j assume "j < length (map ((#) k) ps)"
    then have j: "j < length ps" by simp
    have pj: "placement mm0 mm1 c (ps ! j) = Inr (xs ! j)"
      using below j by (simp add: list_all2_conv_all_nth)
    have cj: "carried (xs ! j) sis mm0 = Inr (vs ! j) \<and> shape2 n g (vs ! j)"
      using car j l1 by (simp add: list_all2_conv_all_nth)
    have "ps ! j \<noteq> []" using ne j by simp
    from placement_below[OF k(1) k(3) this, of mm0 mm1 s a pl]
    show "placement mm0 mm1 (Node s a pl cs) (map ((#) k) ps ! j) = Inr (vs ! j)
          \<and> shape2 n g (vs ! j)"
      using j pj cj k(2) by simp
  qed
qed

lemma list_all2_shapes:
  "list_all2 (\<lambda>p x. P p x \<and> shape2 n g x) ps xs \<Longrightarrow> \<forall>x \<in> set xs. shape2 n g x"
  by (auto simp: list_all2_conv_all_nth in_set_conv_nth)

lemma list_all2_two:
  "list_all2 P [x, y] bs \<Longrightarrow> \<exists>b0 b1. bs = [b0, b1] \<and> P x b0 \<and> P y b1"
  by (auto simp: list_all2_Cons1)

lemma calc_node_placed:
  assumes sq0: "square g mm0" and sq1: "square g mm1"
  shows "binary t \<Longrightarrow> all_PL0 n g t \<Longrightarrow> calc_node n g mm0 mm1 t = Inr t' \<Longrightarrow>
         list_all2 (\<lambda>p x. placement mm0 mm1 t' p = Inr x \<and> shape2 n g x)
           (descendant_paths t') (slabs t')
         \<and> (\<not> is_leaf t' \<longrightarrow> PLm t' \<noteq> None)"
proof (induction t arbitrary: t')
  case (Node s a p cs)
  show ?case
  proof (cases "cs = []")
    case True
    with Node.prems(3) have "t' = Node s a p []" by simp
    then show ?thesis by (simp add: slabs_def is_leaf_def)
  next
    case False
    from binary_two[OF Node.prems(1) False] obtain c0 c1 where
      cs: "cs = [c0, c1]" and b: "binary c0" "binary c1" by blast
    let ?L = "2 * len (Node s a p cs) - 2"
    from Node.prems(3) cs obtain c0' c1' plm where
      c0': "calc_node n g mm0 mm1 c0 = Inr c0'" and c1': "calc_node n g mm0 mm1 c1 = Inr c1'"
      and fill: "fill_PLm n g mm0 mm1 (with_sisters [c0', c1']) (zeros3 ?L n g) 0 = Inr plm"
      and t': "t' = Node s a (Some plm) [c0', c1']"
      by (auto simp: ebind_eq_Inr)
    have pl: "all_PL0 n g c0" "all_PL0 n g c1" using Node.prems(2) cs by (simp_all add: all_PL0_Node)
    note IH0 = Node.IH[of c0, OF _ b(1) pl(1) c0'] and IH1 = Node.IH[of c1, OF _ b(2) pl(2) c1']
    have e0: "erase_PLm c0' = erase_PLm c0" and e1: "erase_PLm c1' = erase_PLm c1"
      using calc_node_erase[OF c0'] calc_node_erase[OF c1'] .
    from all_PL0_erase[OF e0 pl(1)] obtain a0 where a0: "attrs c0' ''PL0'' = Some a0" "shape2 n g a0"
      by blast
    from all_PL0_erase[OF e1 pl(2)] obtain a1 where a1: "attrs c1' ''PL0'' = Some a1" "shape2 n g a1"
      by blast
    have P0: "list_all2 (\<lambda>p x. placement mm0 mm1 c0' p = Inr x \<and> shape2 n g x)
                (descendant_paths c0') (slabs c0')"
      and N0: "\<not> is_leaf c0' \<longrightarrow> PLm c0' \<noteq> None"
      using IH0 cs by simp_all
    have P1: "list_all2 (\<lambda>p x. placement mm0 mm1 c1' p = Inr x \<and> shape2 n g x)
                (descendant_paths c1') (slabs c1')"
      and N1: "\<not> is_leaf c1' \<longrightarrow> PLm c1' \<noteq> None"
      using IH1 cs by simp_all
    have sh0: "\<forall>x \<in> set (slabs c0'). shape2 n g x" using list_all2_shapes[OF P0] .
    have sh1: "\<forall>x \<in> set (slabs c1'). shape2 n g x" using list_all2_shapes[OF P1] .
    have ls0: "length (slabs c0') = 2 * len c0 - 2"
      using list_all2_lengthD[OF P0] descendant_paths_cong[OF e0] binary_paths_length[OF b(1)]
      by simp
    have ls1: "length (slabs c1') = 2 * len c1 - 2"
      using list_all2_lengthD[OF P1] descendant_paths_cong[OF e1] binary_paths_length[OF b(2)]
      by simp
    have L: "?L = Suc (length (slabs c0')) + Suc (length (slabs c1'))"
      using ls0 ls1 len_pos[of c0] len_pos[of c1] by (simp add: cs)
    let ?ps = "[(c0', Inr c1'), (c1', Inr c0')] :: (tree \<times> (error + tree)) list"
    have hyp: "\<forall>(c, sis) \<in> set ?ps. \<exists>s c0 s0. sis = Inr s
              \<and> attrs c ''PL0'' = Some c0 \<and> shape2 n g c0
              \<and> attrs s ''PL0'' = Some s0 \<and> shape2 n g s0
              \<and> (\<not> is_leaf c \<longrightarrow> PLm c \<noteq> None)
              \<and> (\<forall>x \<in> set (slabs c). shape2 n g x)"
      using a0 a1 N0 N1 sh0 sh1 by simp
    have fit: "0 + sum_list (map (\<lambda>(c, sis). Suc (length (slabs c))) ?ps)
               \<le> length (zeros3 ?L n g)"
      using L by (simp add: zeros3_def)
    have "\<exists>bs. plm = take 0 (zeros3 ?L n g) @ concat bs @ drop (0 + length (concat bs)) (zeros3 ?L n g)
       \<and> length (concat bs) = sum_list (map (\<lambda>(c, sis). Suc (length (slabs c)))
                   ?ps)
       \<and> list_all2 (\<lambda>(c, sis) b. \<exists>block e. b = block @ [e]
                     \<and> on_edge c (projr sis) mm0 mm1 = Inr e \<and> shape2 n g e
                     \<and> list_all2 (\<lambda>x v. carried x (projr sis) mm0 = Inr v \<and> shape2 n g v)
                          (slabs c) block) ?ps bs"
      by (rule fill_PLm_writes[OF sq0 sq1 hyp fit fill[unfolded with_sisters_two]])
    then obtain bs where W:
      "plm = take 0 (zeros3 ?L n g) @ concat bs @ drop (0 + length (concat bs)) (zeros3 ?L n g)
       \<and> length (concat bs) = sum_list (map (\<lambda>(c, sis). Suc (length (slabs c)))
                   ?ps)
       \<and> list_all2 (\<lambda>(c, sis) b. \<exists>block e. b = block @ [e]
                     \<and> on_edge c (projr sis) mm0 mm1 = Inr e \<and> shape2 n g e
                     \<and> list_all2 (\<lambda>x v. carried x (projr sis) mm0 = Inr v \<and> shape2 n g v)
                          (slabs c) block) ?ps bs" ..
    note plm = W[THEN conjunct1] and lbs = W[THEN conjunct2, THEN conjunct1]
      and all = W[THEN conjunct2, THEN conjunct2]
    from list_all2_two[OF all] obtain b0 b1 where bs: "bs = [b0, b1]"
      and B0: "\<exists>block e. b0 = block @ [e]
                     \<and> on_edge c0' c1' mm0 mm1 = Inr e \<and> shape2 n g e
                     \<and> list_all2 (\<lambda>x v. carried x c1' mm0 = Inr v \<and> shape2 n g v)
                          (slabs c0') block"
      and B1: "\<exists>block e. b1 = block @ [e]
                     \<and> on_edge c1' c0' mm0 mm1 = Inr e \<and> shape2 n g e
                     \<and> list_all2 (\<lambda>x v. carried x c0' mm0 = Inr v \<and> shape2 n g v)
                          (slabs c1') block"
      by auto
    from B0 obtain block0 ed0 where
      b0: "b0 = block0 @ [ed0]" "on_edge c0' c1' mm0 mm1 = Inr ed0" "shape2 n g ed0"
          "list_all2 (\<lambda>x v. carried x c1' mm0 = Inr v \<and> shape2 n g v) (slabs c0') block0"
      by blast
    from B1 obtain block1 ed1 where
      b1: "b1 = block1 @ [ed1]" "on_edge c1' c0' mm0 mm1 = Inr ed1" "shape2 n g ed1"
          "list_all2 (\<lambda>x v. carried x c0' mm0 = Inr v \<and> shape2 n g v) (slabs c1') block1"
      by blast
    have "length (concat bs) = ?L" using lbs L by simp
    then have plm_eq: "plm = block0 @ [ed0] @ block1 @ [ed1]"
      using plm bs b0(1) b1(1) by (simp add: zeros3_def)
    let ?Q = "\<lambda>p v. placement mm0 mm1 t' p = Inr v \<and> shape2 n g v"
    have q0: "list_all2 ?Q (map ((#) 0) (descendant_paths c0')) block0"
      unfolding t'
      by (rule lift_block[OF P0 b0(4) paths_nonempty(1)]) (simp_all add: get_sister_two)
    have q1: "list_all2 ?Q (map ((#) (Suc 0)) (descendant_paths c1')) block1"
      unfolding t'
      by (rule lift_block[OF P1 b1(4) paths_nonempty(1)]) (simp_all add: get_sister_two)
    have r0: "?Q [0] ed0" using b0(2,3) by (simp add: t' get_sister_two)
    have r1: "?Q [Suc 0] ed1" using b1(2,3) by (simp add: t' get_sister_two)
    have "list_all2 ?Q (map ((#) 0) (descendant_paths c0') @ [[0]]
                       @ map ((#) (Suc 0)) (descendant_paths c1') @ [[Suc 0]])
                      (block0 @ [ed0] @ block1 @ [ed1])"
      using q0 q1 r0 r1 by (intro list_all2_appendI) simp_all
    then show ?thesis
      by (simp add: t' plm_eq slabs_def is_leaf_def)
  qed
qed

lemma list_all2_ex: "\<forall>x \<in> set xs. \<exists>y. P x y \<Longrightarrow> \<exists>ys. list_all2 P xs ys"
proof (induction xs)
  case Nil
  show ?case by simp
next
  case (Cons x xs)
  then obtain y ys where "P x y" "list_all2 P xs ys" by auto
  then have "list_all2 P (x # xs) (y # ys)" by simp
  then show ?case ..
qed

lemma fill_PLm_succeeds:
  assumes sq0: "square g mm0" and sq1: "square g mm1"
      and pc0: "positive_cols g mm0" and pc1: "positive_cols g mm1"
  shows "\<lbrakk> \<forall>(c, sis) \<in> set ps. \<exists>s c0 s0. sis = Inr s
              \<and> attrs c ''PL0'' = Some c0 \<and> shape2 n g c0
              \<and> attrs s ''PL0'' = Some s0 \<and> shape2 n g s0
              \<and> (\<not> is_leaf c \<longrightarrow> PLm c \<noteq> None)
              \<and> (\<forall>x \<in> set (slabs c). shape2 n g x);
           i + sum_list (map (\<lambda>(c, sis). Suc (length (slabs c))) ps) \<le> length plm \<rbrakk>
         \<Longrightarrow> \<exists>plm'. fill_PLm n g mm0 mm1 ps plm i = Inr plm'"
proof (induction ps arbitrary: plm i)
  case Nil
  show ?case by simp
next
  case (Cons pr rest)
  obtain c sis where pr: "pr = (c, sis)" by (cases pr)
  from Cons.prems(1) pr obtain s c0 s0 where
    sis: "sis = Inr s" and c0: "attrs c ''PL0'' = Some c0" "shape2 n g c0"
    and s0: "attrs s ''PL0'' = Some s0" "shape2 n g s0"
    and plmc: "\<not> is_leaf c \<longrightarrow> PLm c \<noteq> None"
    and shc: "\<forall>x \<in> set (slabs c). shape2 n g x"
    by auto
  have rest_ok: "\<forall>(c, sis) \<in> set rest. \<exists>s c0 s0. sis = Inr s
              \<and> attrs c ''PL0'' = Some c0 \<and> shape2 n g c0
              \<and> attrs s ''PL0'' = Some s0 \<and> shape2 n g s0
              \<and> (\<not> is_leaf c \<longrightarrow> PLm c \<noteq> None)
              \<and> (\<forall>x \<in> set (slabs c). shape2 n g x)"
    using Cons.prems(1) by simp
  let ?tot = "sum_list (map (\<lambda>(c, sis). Suc (length (slabs c))) rest)"
  from Cons.prems(2) pr have fit: "i + Suc (length (slabs c)) + ?tot \<le> length plm" by simp
  from on_edge_positive[OF sq0 sq1 c0 s0 pc0 pc1] obtain e where
    e: "on_edge c s mm0 mm1 = Inr e" ..
  have she: "shape2 n g e" using on_edge_shape[OF sq0 sq1 c0 s0 e] .
  show ?case
  proof (cases "is_leaf c")
    case True
    then have sl: "slabs c = []" by (simp add: slabs_def)
    have i: "i < length plm" using fit by simp
    let ?plm2 = "take i plm @ [e] @ drop (Suc i) plm"
    have w: "set_item n g plm i e = Inr ?plm2" using set_item_fits[OF she i] .
    have "Suc i + ?tot \<le> length ?plm2" using fit sl by simp
    from Cons.IH[OF rest_ok this] obtain plm' where
      "fill_PLm n g mm0 mm1 rest ?plm2 (Suc i) = Inr plm'" ..
    then show ?thesis using pr sis True e w by simp
  next
    case False
    with plmc obtain cm where cm: "PLm c = Some cm" by auto
    with False have sl: "slabs c = cm" by (simp add: slabs_def)
    have "\<forall>x \<in> set cm. \<exists>v. carried x s mm0 = Inr v"
      using carried_positive[OF sq0 _ s0 pc0] shc sl by blast
    from list_all2_ex[OF this] obtain v where
      car: "list_all2 (\<lambda>x v. carried x s mm0 = Inr v) cm v" ..
    have lv: "length v = length cm" using car by (simp add: list_all2_lengthD)
    from transfer2_positive[OF sq0 s0(2) pc0] obtain y where y: "transfer2 s0 mm0 = Inr y" ..
    have inh: "inherited c s mm0 = Inr v"
      by (rule inherited_from_slabs[OF cm _ y car]) (simp add: getattr_def s0(1))
    have shv: "\<forall>x \<in> set v. shape2 n g x"
    proof
      fix x assume "x \<in> set v"
      then obtain k where k: "k < length v" "x = v ! k" by (auto simp: in_set_conv_nth)
      with car lv have "carried (cm ! k) s mm0 = Inr x" by (simp add: list_all2_conv_all_nth)
      moreover have "shape2 n g (cm ! k)" using shc sl k lv by simp
      ultimately show "shape2 n g x" using carried_shape[OF sq0 _ s0] by blast
    qed
    have le: "i + length v < length plm" using fit sl lv by simp
    then have le': "i + length v \<le> length plm" by simp
    define plm1 where "plm1 = take i plm @ v @ drop (i + length v) plm"
    have w1: "set_slice n g plm i (length cm) v = Inr plm1"
      using set_slice_fits[OF shv le'] lv by (simp add: plm1_def)
    have l1: "length plm1 = length plm" using le' by (simp add: plm1_def)
    define plm2 where "plm2 = take (i + length cm) plm1 @ [e] @ drop (Suc (i + length cm)) plm1"
    have w2: "set_item n g plm1 (i + length cm) e = Inr plm2"
      unfolding plm2_def by (rule set_item_fits[OF she]) (use le lv l1 in simp)
    have l2: "length plm2 = length plm" using le lv l1 by (simp add: plm2_def)
    have "Suc (i + length cm) + ?tot \<le> length plm2" unfolding l2 using fit sl by simp
    from Cons.IH[OF rest_ok this] obtain plm' where
      f: "fill_PLm n g mm0 mm1 rest plm2 (Suc (i + length cm)) = Inr plm'" ..
    show ?thesis
      by (rule exI[of _ plm'])
         (simp add: pr sis False get_PLm_def cm inh w1 e w2 f)
  qed
qed

lemma calc_node_succeeds:
  assumes sq0: "square g mm0" and sq1: "square g mm1"
      and pc0: "positive_cols g mm0" and pc1: "positive_cols g mm1"
  shows "binary t \<Longrightarrow> all_PL0 n g t \<Longrightarrow> \<exists>t'. calc_node n g mm0 mm1 t = Inr t'"
proof (induction t)
  case (Node s a p cs)
  show ?case
  proof (cases "cs = []")
    case True
    then show ?thesis by simp
  next
    case False
    from binary_two[OF Node.prems(1) False] obtain c0 c1 where
      cs: "cs = [c0, c1]" and b: "binary c0" "binary c1" by blast
    have pl: "all_PL0 n g c0" "all_PL0 n g c1" using Node.prems(2) cs by (simp_all add: all_PL0_Node)
    from Node.IH[of c0, OF _ b(1) pl(1)] cs obtain c0' where c0': "calc_node n g mm0 mm1 c0 = Inr c0'"
      by auto
    from Node.IH[of c1, OF _ b(2) pl(2)] cs obtain c1' where c1': "calc_node n g mm0 mm1 c1 = Inr c1'"
      by auto
    have e0: "erase_PLm c0' = erase_PLm c0" and e1: "erase_PLm c1' = erase_PLm c1"
      using calc_node_erase[OF c0'] calc_node_erase[OF c1'] .
    from all_PL0_erase[OF e0 pl(1)] obtain a0 where a0: "attrs c0' ''PL0'' = Some a0" "shape2 n g a0"
      by blast
    from all_PL0_erase[OF e1 pl(2)] obtain a1 where a1: "attrs c1' ''PL0'' = Some a1" "shape2 n g a1"
      by blast
    note Q0 = calc_node_placed[OF sq0 sq1 b(1) pl(1) c0'] and Q1 = calc_node_placed[OF sq0 sq1 b(2) pl(2) c1']
    have P0: "list_all2 (\<lambda>p x. placement mm0 mm1 c0' p = Inr x \<and> shape2 n g x)
                (descendant_paths c0') (slabs c0')"
      and N0: "\<not> is_leaf c0' \<longrightarrow> PLm c0' \<noteq> None"
      using Q0 by simp_all
    have P1: "list_all2 (\<lambda>p x. placement mm0 mm1 c1' p = Inr x \<and> shape2 n g x)
                (descendant_paths c1') (slabs c1')"
      and N1: "\<not> is_leaf c1' \<longrightarrow> PLm c1' \<noteq> None"
      using Q1 by simp_all
    have sh0: "\<forall>x \<in> set (slabs c0'). shape2 n g x" using list_all2_shapes[OF P0] .
    have sh1: "\<forall>x \<in> set (slabs c1'). shape2 n g x" using list_all2_shapes[OF P1] .
    have ls0: "length (slabs c0') = 2 * len c0 - 2"
      using list_all2_lengthD[OF P0] descendant_paths_cong[OF e0] binary_paths_length[OF b(1)]
      by simp
    have ls1: "length (slabs c1') = 2 * len c1 - 2"
      using list_all2_lengthD[OF P1] descendant_paths_cong[OF e1] binary_paths_length[OF b(2)]
      by simp
    let ?L = "2 * len (Node s a p cs) - 2"
    have L: "?L = Suc (length (slabs c0')) + Suc (length (slabs c1'))"
      using ls0 ls1 len_pos[of c0] len_pos[of c1] by (simp add: cs)
    let ?ps = "[(c0', Inr c1'), (c1', Inr c0')] :: (tree \<times> (error + tree)) list"
    have hyp: "\<forall>(c, sis) \<in> set ?ps. \<exists>s c0 s0. sis = Inr s
              \<and> attrs c ''PL0'' = Some c0 \<and> shape2 n g c0
              \<and> attrs s ''PL0'' = Some s0 \<and> shape2 n g s0
              \<and> (\<not> is_leaf c \<longrightarrow> PLm c \<noteq> None)
              \<and> (\<forall>x \<in> set (slabs c). shape2 n g x)"
      using a0 a1 N0 N1 sh0 sh1 by simp
    have fit: "0 + sum_list (map (\<lambda>(c, sis). Suc (length (slabs c))) ?ps)
               \<le> length (zeros3 ?L n g)"
      using L by (simp add: zeros3_def)
    from fill_PLm_succeeds[OF sq0 sq1 pc0 pc1 hyp fit] obtain plm where
      "fill_PLm n g mm0 mm1 ?ps (zeros3 ?L n g) 0 = Inr plm" ..
    then show ?thesis
      using c0' c1' by (simp add: cs with_sisters_two)
  qed
qed

lemma leaf_len: "is_leaf t \<Longrightarrow> len t = 1"
  by (cases t) (simp add: is_leaf_def)

text \<open>
  Over the reals the enumerator returns when \<open>mm0\<close> and \<open>mm1\<close> have no negative entry and a
  positive entry in each column.  (In floating point a probability can underflow to zero,
  and the logarithm then raises.)
\<close>

lemma calc_mut_likelihoods_returns:
  assumes bin: "binary tree"
      and pl0: "attrs tree ''PL0'' = Some pl0"
      and n: "n = length pl0" and g: "g = ncols pl0"
      and shapes: "all_PL0 n g tree"
      and sq0: "square g mm0" and sq1: "square g mm1"
      and pc0: "positive_cols g mm0" and pc1: "positive_cols g mm1"
  shows "\<exists>t. calc_mut_likelihoods tree mm0 mm1 = Inr t"
proof -
  have "\<exists>t. calc_node n g mm0 mm1 tree = Inr t"
    using calc_node_succeeds[OF sq0 sq1 pc0 pc1 bin shapes] .
  then show ?thesis
    by (simp add: calc_mut_likelihoods_def getattr_def pl0 n g)
qed

text \<open>
  Claim C3, amended.  Let the tree be fully binary with \<open>m = len tree\<close> leaves, \<open>m\<close> at
  least 2, with a no-mutation aggregate of \<open>n\<close> sites and \<open>g\<close> genotypes at every node, and
  let \<open>mm0\<close> and \<open>mm1\<close> be \<open>g \<times> g\<close>.  When the enumerator returns, the tree is unchanged but
  for the placement arrays, and the array at the root has exactly \<open>2m - 2\<close> entries, as many
  as there are nodes below the root; entry \<open>k\<close> is the likelihood of the mutation on the
  edge above the \<open>k\<close>-th node of the post-order listing of the nodes below the root
  (\<open>iter_descendants\<close>).  The paths of that listing are distinct and are the non-empty
  paths of the tree, so every edge is covered once and the root never.
\<close>

theorem calc_mut_likelihoods_placements:
  assumes bin: "binary tree" and two: "2 \<le> len tree"
      and pl0: "attrs tree ''PL0'' = Some pl0"
      and n: "n = length pl0" and g: "g = ncols pl0"
      and shapes: "all_PL0 n g tree"
      and sq0: "square g mm0" and sq1: "square g mm1"
  shows "calc_mut_likelihoods tree mm0 mm1 = Inr tree' \<longrightarrow>
            erase_PLm tree' = erase_PLm tree
          \<and> (\<exists>plm. PLm tree' = Some plm
               \<and> length plm = 2 * len tree - 2
               \<and> length (iter_descendants tree') = 2 * len tree - 2
               \<and> iter_descendants tree' = map (subtree_at tree') (descendant_paths tree')
               \<and> distinct (descendant_paths tree')
               \<and> set (descendant_paths tree') = {p. p \<noteq> [] \<and> valid_path tree' p}
               \<and> list_all2 (\<lambda>p x. placement mm0 mm1 tree' p = Inr x)
                    (descendant_paths tree') plm)"
proof (intro conjI impI)
  have int: "\<not> is_leaf tree" using two leaf_len[of tree] by auto
  assume "calc_mut_likelihoods tree mm0 mm1 = Inr tree'"
  then have c: "calc_node n g mm0 mm1 tree = Inr tree'"
    by (simp add: calc_mut_likelihoods_def getattr_def pl0 n g)
  show e: "erase_PLm tree' = erase_PLm tree" using calc_node_erase[OF c] .
  from calc_node_placed[OF sq0 sq1 bin shapes c]
  have P: "list_all2 (\<lambda>p x. placement mm0 mm1 tree' p = Inr x \<and> shape2 n g x)
             (descendant_paths tree') (slabs tree')"
    and N: "\<not> is_leaf tree' \<longrightarrow> PLm tree' \<noteq> None" by simp_all
  have "\<not> is_leaf tree'" using int erase_PLm_is_leaf[OF e] by simp
  with N obtain plm where plm: "PLm tree' = Some plm" "slabs tree' = plm"
    by (auto simp: slabs_def)
  have lp: "length (descendant_paths tree') = 2 * len tree - 2"
    using descendant_paths_cong[OF e] binary_paths_length[OF bin] by simp
  have a: "length plm = 2 * len tree - 2"
    using list_all2_lengthD[OF P] plm(2) lp by simp
  have b: "iter_descendants tree' = map (subtree_at tree') (descendant_paths tree')"
    by (rule paths_subtrees)
  have b': "length (iter_descendants tree') = 2 * len tree - 2"
    unfolding b using lp by simp
  have d: "list_all2 (\<lambda>p x. placement mm0 mm1 tree' p = Inr x) (descendant_paths tree') plm"
    using P plm(2) by (simp add: list_all2_conv_all_nth)
  show "\<exists>plm. PLm tree' = Some plm
               \<and> length plm = 2 * len tree - 2
               \<and> length (iter_descendants tree') = 2 * len tree - 2
               \<and> iter_descendants tree' = map (subtree_at tree') (descendant_paths tree')
               \<and> distinct (descendant_paths tree')
               \<and> set (descendant_paths tree') = {p. p \<noteq> [] \<and> valid_path tree' p}
               \<and> list_all2 (\<lambda>p x. placement mm0 mm1 tree' p = Inr x)
                    (descendant_paths tree') plm"
    using plm(1) a b b' d paths_distinct(1)[of tree'] paths_valid(1)[of tree'] by blast
qed

lemma p2phred_tenth [simp]: "p2phred (1 / 10) = 10"
  by (simp add: p2phred_def log_divide)

lemma phred2p_not_le [simp]: "\<not> phred2p x \<le> 0"
  using phred2p_pos[of x] by (simp only: not_le)

lemma eval_calc_mut:
  "calc_mut_likelihoods
     (Node [0, 1, 2] (Map.empty(''PL0'' \<mapsto> [[10, 40]])) None
        [Node [0, 1] (Map.empty(''PL0'' \<mapsto> [[10, 20]])) None
           [Node [0] (Map.empty(''PL0'' \<mapsto> [[10, 0]])) None [],
            Node [1] (Map.empty(''PL0'' \<mapsto> [[0, 20]])) None []],
         Node [2] (Map.empty(''PL0'' \<mapsto> [[0, 20]])) None []])
     [[1, 0], [0, 1]] [[0, 1], [1, 0]] =
   Inr (Node [0, 1, 2] (Map.empty(''PL0'' \<mapsto> [[10, 40]]))
          (Some [[[0, 50]], [[30, 20]], [[20, 30]], [[30, 20]]])
        [Node [0, 1] (Map.empty(''PL0'' \<mapsto> [[10, 20]])) (Some [[[0, 30]], [[30, 0]]])
           [Node [0] (Map.empty(''PL0'' \<mapsto> [[10, 0]])) None [],
            Node [1] (Map.empty(''PL0'' \<mapsto> [[0, 20]])) None []],
         Node [2] (Map.empty(''PL0'' \<mapsto> [[0, 20]])) None []])"
  by (simp add: calc_mut_likelihoods_def getattr_def get_PLm_def ncols_def with_sisters_two
        is_leaf_def on_edge_def inherited_def transfer2_def transfer3_def dot3_def dot2_def
        dot1_def p2phred_arr3_def p2phred_arr2_def p2phred_vec_def add3_2_def
        add2_def add1_def broadcast2_def set_item_def set_slice_def assign2_def assign1_def
        zeros3_def zeros2_def p2phred_phred2p eval_nat_numeral)

theorem calc_mut_likelihoods_placements_witness:
  "binary (Node [0, 1, 2] (Map.empty(''PL0'' \<mapsto> [[10, 40]])) None
        [Node [0, 1] (Map.empty(''PL0'' \<mapsto> [[10, 20]])) None
           [Node [0] (Map.empty(''PL0'' \<mapsto> [[10, 0]])) None [],
            Node [1] (Map.empty(''PL0'' \<mapsto> [[0, 20]])) None []],
         Node [2] (Map.empty(''PL0'' \<mapsto> [[0, 20]])) None []])
   \<and> len (Node [0, 1, 2] (Map.empty(''PL0'' \<mapsto> [[10, 40]])) None
        [Node [0, 1] (Map.empty(''PL0'' \<mapsto> [[10, 20]])) None
           [Node [0] (Map.empty(''PL0'' \<mapsto> [[10, 0]])) None [],
            Node [1] (Map.empty(''PL0'' \<mapsto> [[0, 20]])) None []],
         Node [2] (Map.empty(''PL0'' \<mapsto> [[0, 20]])) None []]) = 3
   \<and> calc_mut_likelihoods
     (Node [0, 1, 2] (Map.empty(''PL0'' \<mapsto> [[10, 40]])) None
        [Node [0, 1] (Map.empty(''PL0'' \<mapsto> [[10, 20]])) None
           [Node [0] (Map.empty(''PL0'' \<mapsto> [[10, 0]])) None [],
            Node [1] (Map.empty(''PL0'' \<mapsto> [[0, 20]])) None []],
         Node [2] (Map.empty(''PL0'' \<mapsto> [[0, 20]])) None []])
     [[1, 0], [0, 1]] [[0, 1], [1, 0]] =
   Inr (Node [0, 1, 2] (Map.empty(''PL0'' \<mapsto> [[10, 40]]))
          (Some [[[0, 50]], [[30, 20]], [[20, 30]], [[30, 20]]])
        [Node [0, 1] (Map.empty(''PL0'' \<mapsto> [[10, 20]])) (Some [[[0, 30]], [[30, 0]]])
           [Node [0] (Map.empty(''PL0'' \<mapsto> [[10, 0]])) None [],
            Node [1] (Map.empty(''PL0'' \<mapsto> [[0, 20]])) None []],
         Node [2] (Map.empty(''PL0'' \<mapsto> [[0, 20]])) None []])
   \<and> length (iter_descendants
        (Node [0, 1, 2] (Map.empty(''PL0'' \<mapsto> [[10, 40]]))
          (Some [[[0, 50]], [[30, 20]], [[20, 30]], [[30, 20]]])
        [Node [0, 1] (Map.empty(''PL0'' \<mapsto> [[10, 20]])) (Some [[[0, 30]], [[30, 0]]])
           [Node [0] (Map.empty(''PL0'' \<mapsto> [[10, 0]])) None [],
            Node [1] (Map.empty(''PL0'' \<mapsto> [[0, 20]])) None []],
         Node [2] (Map.empty(''PL0'' \<mapsto> [[0, 20]])) None []])) = 4
   \<and> list_all2 (\<lambda>p x. placement [[1, 0], [0, 1]] [[0, 1], [1, 0]]
        (Node [0, 1, 2] (Map.empty(''PL0'' \<mapsto> [[10, 40]]))
          (Some [[[0, 50]], [[30, 20]], [[20, 30]], [[30, 20]]])
        [Node [0, 1] (Map.empty(''PL0'' \<mapsto> [[10, 20]])) (Some [[[0, 30]], [[30, 0]]])
           [Node [0] (Map.empty(''PL0'' \<mapsto> [[10, 0]])) None [],
            Node [1] (Map.empty(''PL0'' \<mapsto> [[0, 20]])) None []],
         Node [2] (Map.empty(''PL0'' \<mapsto> [[0, 20]])) None []]) p = Inr x)
        [[0, 0], [0, 1], [0], [1]] [[[0, 50]], [[30, 20]], [[20, 30]], [[30, 20]]]"
proof -
  let ?T = "Node [0, 1, 2] (Map.empty(''PL0'' \<mapsto> [[10, 40]])) None
        [Node [0, 1] (Map.empty(''PL0'' \<mapsto> [[10, 20]])) None
           [Node [0] (Map.empty(''PL0'' \<mapsto> [[10, 0]])) None [],
            Node [1] (Map.empty(''PL0'' \<mapsto> [[0, 20]])) None []],
         Node [2] (Map.empty(''PL0'' \<mapsto> [[0, 20]])) None []]"
  let ?T' = "Node [0, 1, 2] (Map.empty(''PL0'' \<mapsto> [[10, 40]]))
          (Some [[[0, 50]], [[30, 20]], [[20, 30]], [[30, 20]]])
        [Node [0, 1] (Map.empty(''PL0'' \<mapsto> [[10, 20]])) (Some [[[0, 30]], [[30, 0]]])
           [Node [0] (Map.empty(''PL0'' \<mapsto> [[10, 0]])) None [],
            Node [1] (Map.empty(''PL0'' \<mapsto> [[0, 20]])) None []],
         Node [2] (Map.empty(''PL0'' \<mapsto> [[0, 20]])) None []]"
  let ?I = "[[1, 0], [0, 1]] :: arr2" and ?X = "[[0, 1], [1, 0]] :: arr2"
  have bin: "binary ?T" by simp
  have l3: "len ?T = 3" by simp
  have two: "2 \<le> len ?T" by simp
  have pl0: "attrs ?T ''PL0'' = Some [[10, 40]]" by simp
  have n: "(1::nat) = length [[10, 40 :: real]]" by simp
  have g: "(2::nat) = ncols [[10, 40 :: real]]" by (simp add: ncols_def)
  have sh: "all_PL0 1 2 ?T" by (simp add: all_PL0_def shape2_def)
  have sq0: "square 2 ?I" and sq1: "square 2 ?X" by (simp_all add: square_def)
  have ev: "calc_mut_likelihoods ?T ?I ?X = Inr ?T'" by (rule eval_calc_mut)
  from calc_mut_likelihoods_placements[OF bin two pl0 n g sh sq0 sq1, of "?T'"] ev
  obtain plm where plm: "PLm ?T' = Some plm"
    and l: "length (iter_descendants ?T') = 2 * len ?T - 2"
    and p: "list_all2 (\<lambda>p x. placement ?I ?X ?T' p = Inr x) (descendant_paths ?T') plm"
    by blast
  from plm have "plm = [[[0, 50]], [[30, 20]], [[20, 30]], [[30, 20]]]" by simp
  with p have "list_all2 (\<lambda>p x. placement ?I ?X ?T' p = Inr x)
      [[0, 0], [0, 1], [0], [1]] [[[0, 50]], [[30, 20]], [[20, 30]], [[30, 20]]]"
    by simp
  moreover from l have "length (iter_descendants ?T') = 4" by simp
  ultimately show ?thesis using ev bin l3 by blast
qed

text \<open>
  The claim as stated fails on the tree of a single leaf, which is fully binary with
  \<open>m = 1\<close>: the enumerator returns it as it is, with no placement array at all, where the
  claim has an array of \<open>2m - 2 = 0\<close> entries at the root.
\<close>

theorem calc_mut_likelihoods_single_leaf_counterexample:
  "binary (Node [0] (Map.empty(''PL0'' \<mapsto> [[0, 10]])) None [])
   \<and> len (Node [0] (Map.empty(''PL0'' \<mapsto> [[0, 10]])) None []) = 1
   \<and> calc_mut_likelihoods (Node [0] (Map.empty(''PL0'' \<mapsto> [[0, 10]])) None [])
        [[1, 0], [0, 1]] [[0, 1], [1, 0]]
      = Inr (Node [0] (Map.empty(''PL0'' \<mapsto> [[0, 10]])) None [])
   \<and> PLm (Node [0] (Map.empty(''PL0'' \<mapsto> [[0, 10]])) None []) = None
   \<and> get_PLm (Node [0] (Map.empty(''PL0'' \<mapsto> [[0, 10]])) None []) = Inl AttributeError"
  by (simp add: calc_mut_likelihoods_def getattr_def get_PLm_def)

section \<open>The passes, site by site\<close>

text \<open>What depends on the structure of the tree only.\<close>

lemma skel_children: "skel t' = skel t \<Longrightarrow> length (children t') = length (children t)"
  by (cases t; cases t') (auto dest: map_eq_imp_length_eq)

lemma skel_child:
  assumes "skel t' = skel t" "k < length (children t)"
  shows "skel (children t' ! k) = skel (children t ! k)"
proof -
  obtain s a p cs where t: "t = Node s a p cs" by (cases t)
  obtain s' a' p' cs' where t': "t' = Node s' a' p' cs'" by (cases t')
  from assms(1) t t' have m: "map skel cs' = map skel cs" by simp
  then have l: "length cs' = length cs" by (rule map_eq_imp_length_eq)
  from m have "map skel cs' ! k = map skel cs ! k" by simp
  with assms(2) l t show ?thesis by (simp add: t')
qed

lemma skel_sid: "skel t' = skel t \<Longrightarrow> sid t' = sid t"
  by (cases t; cases t') simp

lemma skel_erase: "erase attr t' = erase attr t \<Longrightarrow> skel t' = skel t"
proof (induction t arbitrary: t')
  case (Node s a p cs)
  obtain s' a' p' cs' where t': "t' = Node s' a' p' cs'" by (cases t')
  from Node.prems t' have m: "map (erase attr) cs' = map (erase attr) cs" and s: "s' = s" by simp_all
  then have l: "length cs' = length cs" using map_eq_imp_length_eq by blast
  have "map skel cs' = map skel cs"
  proof (rule nth_equalityI)
    show "length (map skel cs') = length (map skel cs)" using l by simp
  next
    fix k assume "k < length (map skel cs')"
    then have k: "k < length cs" using l by simp
    from m have "map (erase attr) cs' ! k = map (erase attr) cs ! k" by simp
    with k l have "erase attr (cs' ! k) = erase attr (cs ! k)" by simp
    from Node.IH[OF _ this] k l show "map skel cs' ! k = map skel cs ! k" by simp
  qed
  with s show ?case by (simp add: t')
qed

lemma skel_erase_PLm: "erase_PLm t' = erase_PLm t \<Longrightarrow> skel t' = skel t"
proof (induction t arbitrary: t')
  case (Node s a p cs)
  obtain s' a' p' cs' where t': "t' = Node s' a' p' cs'" by (cases t')
  from Node.prems t' have m: "map erase_PLm cs' = map erase_PLm cs" and s: "s' = s" by simp_all
  then have l: "length cs' = length cs" using map_eq_imp_length_eq by blast
  have "map skel cs' = map skel cs"
  proof (rule nth_equalityI)
    show "length (map skel cs') = length (map skel cs)" using l by simp
  next
    fix k assume "k < length (map skel cs')"
    then have k: "k < length cs" using l by simp
    from m have "map erase_PLm cs' ! k = map erase_PLm cs ! k" by simp
    with k l have "erase_PLm (cs' ! k) = erase_PLm (cs ! k)" by simp
    from Node.IH[OF _ this] k l show "map skel cs' ! k = map skel cs ! k" by simp
  qed
  with s show ?case by (simp add: t')
qed

lemma sum_list_cong_nth:
  fixes f :: "'a \<Rightarrow> real"
  assumes "length xs = length ys" "\<And>k. k < length ys \<Longrightarrow> f (xs ! k) = h (ys ! k)"
  shows "sum_list (map f xs) = sum_list (map h ys)"
proof -
  have "map f xs = map h ys" using assms by (auto intro!: nth_equalityI)
  then show ?thesis by simp
qed

lemma prune_skel: "skel t' = skel t \<Longrightarrow> prune g mm site t' = prune g mm site t"
proof (induction t arbitrary: t')
  case (Node s a p cs)
  obtain s' a' p' cs' where t': "t' = Node s' a' p' cs'" by (cases t')
  from Node.prems t' have m: "map skel cs' = map skel cs" and s: "s' = s" by simp_all
  then have l: "length cs' = length cs" using map_eq_imp_length_eq by blast
  have ch: "prune g mm site (cs' ! k) = prune g mm site (cs ! k)" if "k < length cs" for k
  proof -
    from m have "map skel cs' ! k = map skel cs ! k" by simp
    with that l have "skel (cs' ! k) = skel (cs ! k)" by simp
    from Node.IH[OF _ this] that show ?thesis by simp
  qed
  have e: "(cs' = []) = (cs = [])" using l by (metis length_0_conv)
  have "(\<Sum>c\<leftarrow>cs'. tr g mm (prune g mm site c) ! j) = (\<Sum>c\<leftarrow>cs. tr g mm (prune g mm site c) ! j)" for j
    by (rule sum_list_cong_nth[OF l]) (simp add: ch)
  then show ?case using e s by (simp add: t')
qed

lemma prune_ok_skel: "skel t' = skel t \<Longrightarrow> prune_ok g mm site t' = prune_ok g mm site t"
proof (induction t arbitrary: t')
  case (Node s a p cs)
  obtain s' a' p' cs' where t': "t' = Node s' a' p' cs'" by (cases t')
  from Node.prems t' have m: "map skel cs' = map skel cs" and s: "s' = s" by simp_all
  then have l: "length cs' = length cs" using map_eq_imp_length_eq by blast
  have sk: "skel (cs' ! k) = skel (cs ! k)" if "k < length cs" for k
  proof -
    from m have "map skel cs' ! k = map skel cs ! k" by simp
    with that l show ?thesis by simp
  qed
  have e: "(cs' = []) = (cs = [])" using l by (metis length_0_conv)
  have pk: "prune_ok g mm site (cs' ! k) = prune_ok g mm site (cs ! k)" if "k < length cs" for k
    using Node.IH[OF _ sk[OF that]] that by simp
  have pr: "prune g mm site (cs' ! k) = prune g mm site (cs ! k)" if "k < length cs" for k
    using prune_skel[OF sk[OF that]] .
  have "list_all (\<lambda>c. prune_ok g mm site c \<and> tr_ok g mm (prune g mm site c)) cs'
      = list_all (\<lambda>c. prune_ok g mm site c \<and> tr_ok g mm (prune g mm site c)) cs"
    unfolding list_all_length l using pk pr by auto
  then show ?case using e s by (simp add: t')
qed

lemma postorder_subtree:
  "u \<in> set (traverse_postorder t) \<Longrightarrow> set (traverse_postorder u) \<subseteq> set (traverse_postorder t)"
proof (induction t)
  case (Node s a p cs)
  show ?case
  proof (cases "u = Node s a p cs")
    case True
    then show ?thesis by simp
  next
    case False
    with Node.prems obtain c where c: "c \<in> set cs" "u \<in> set (traverse_postorder c)" by auto
    from Node.IH[OF c] c(1) show ?thesis by auto
  qed
qed

lemma children_in_postorder: "c \<in> set (children t) \<Longrightarrow> c \<in> set (traverse_postorder t)"
proof (cases t)
  case (Node s a p cs)
  assume "c \<in> set (children t)"
  with Node have c: "c \<in> set cs" by simp
  have "c \<in> set (traverse_postorder c)" by simp
  with c have "c \<in> (\<Union>x \<in> set cs. set (traverse_postorder x))" by blast
  then show ?thesis by (simp add: Node)
qed

lemma tr_nth: "j < g \<Longrightarrow> tr g mm v ! j = p2phred (prob_dot g mm v j)"
  by (simp add: tr_def)

lemma tr_length [simp]: "length (tr g mm v) = g"
  by (simp add: tr_def)

lemma sample_column_eq:
  "sample_column PLs i = Inr v \<Longrightarrow>
   v = map (\<lambda>site. case np_get site i of Inl e \<Rightarrow> [] | Inr x \<Rightarrow> x) PLs"
  by (auto simp: sample_column_def mapE_eq_Inr_iff intro!: nth_equalityI)

text \<open>The aggregate that the pruning pass leaves at a node, row by row.\<close>

lemma pruned_at_prune:
  "(\<forall>w \<in> set (traverse_postorder u). pruned_at PLs mm attr w) \<Longrightarrow>
   attrs u attr = Some (map (\<lambda>site. prune (ncols (concat PLs)) mm site u) PLs)"
proof (induction u)
  case (Node s a p cs)
  let ?n = "length PLs" and ?g = "ncols (concat PLs)"
  let ?u = "Node s a p cs"
  have pu: "pruned_at PLs mm attr ?u" using Node.prems by simp
  then obtain v where v: "a attr = Some v" by (auto simp: pruned_at_def Let_def split: option.splits)
  show ?case
  proof (cases "cs = []")
    case True
    with pu v have "sample_column PLs (hd s) = Inr v" by (simp add: pruned_at_def Let_def)
    from sample_column_eq[OF this] show ?thesis using True v by simp
  next
    case False
    with pu v have sh: "shape2 ?n ?g v"
      and f: "\<forall>k<?n. \<forall>j<?g. v ! k ! j =
                (\<Sum>c\<leftarrow>cs. p2phred (prob_dot ?g mm (the (attrs c attr) ! k) j))"
      by (simp_all add: pruned_at_def Let_def list_all_iff)
    have ch: "attrs c attr = Some (map (\<lambda>site. prune ?g mm site c) PLs)" if "c \<in> set cs" for c
    proof (rule Node.IH[OF that])
      show "\<forall>w \<in> set (traverse_postorder c). pruned_at PLs mm attr w"
        using Node.prems that by auto
    qed
    have "v = map (\<lambda>site. prune ?g mm site ?u) PLs"
    proof (rule nth_equalityI)
      show "length v = length (map (\<lambda>site. prune ?g mm site ?u) PLs)"
        using sh by (simp add: shape2_def)
    next
      fix k assume "k < length v"
      then have k: "k < ?n" using sh by (simp add: shape2_def)
      have "v ! k = map (\<lambda>j. \<Sum>c\<leftarrow>cs. tr ?g mm (prune ?g mm (PLs ! k) c) ! j) [0..<?g]"
      proof (rule nth_equalityI)
        show "length (v ! k) = length (map (\<lambda>j. \<Sum>c\<leftarrow>cs. tr ?g mm (prune ?g mm (PLs ! k) c) ! j) [0..<?g])"
          using shape2_nth[OF sh k] by simp
      next
        fix j assume "j < length (v ! k)"
        then have j: "j < ?g" using shape2_nth[OF sh k] by simp
        have "v ! k ! j = (\<Sum>c\<leftarrow>cs. p2phred (prob_dot ?g mm (the (attrs c attr) ! k) j))"
          using f k j by simp
        also have "\<dots> = (\<Sum>c\<leftarrow>cs. tr ?g mm (prune ?g mm (PLs ! k) c) ! j)"
        proof (rule arg_cong[where f = sum_list], rule map_cong[OF refl])
          fix c assume "c \<in> set cs"
          from ch[OF this] k j
          show "p2phred (prob_dot ?g mm (the (attrs c attr) ! k) j)
              = tr ?g mm (prune ?g mm (PLs ! k) c) ! j"
            by (simp add: tr_nth)
        qed
        finally show "v ! k ! j = map (\<lambda>j. \<Sum>c\<leftarrow>cs. tr ?g mm (prune ?g mm (PLs ! k) c) ! j) [0..<?g] ! j"
          using j by simp
      qed
      then show "v ! k = map (\<lambda>site. prune ?g mm site ?u) PLs ! k"
        using k False by simp
    qed
    with v show ?thesis by simp
  qed
qed

lemma populate_node_prune:
  assumes sq: "square (ncols (concat PLs)) mm"
      and ax: "geno_axis (ncols (concat PLs)) PLs"
      and ok: "populate_node (length PLs) (ncols (concat PLs)) t PLs mm attr = Inr t'"
  shows "skel t' = skel t"
    and "\<forall>u \<in> set (traverse_postorder t').
           attrs u attr = Some (map (\<lambda>site. prune (ncols (concat PLs)) mm site u) PLs)
         \<and> shape2 (length PLs) (ncols (concat PLs)) (map (\<lambda>site. prune (ncols (concat PLs)) mm site u) PLs)"
proof -
  note P = populate_node_pruned[OF sq ax ok]
  from P show "skel t' = skel t" using skel_erase by blast
  show "\<forall>u \<in> set (traverse_postorder t').
           attrs u attr = Some (map (\<lambda>site. prune (ncols (concat PLs)) mm site u) PLs)
         \<and> shape2 (length PLs) (ncols (concat PLs)) (map (\<lambda>site. prune (ncols (concat PLs)) mm site u) PLs)"
  proof
    fix u assume u: "u \<in> set (traverse_postorder t')"
    then have "\<forall>w \<in> set (traverse_postorder u). pruned_at PLs mm attr w"
      using P postorder_subtree[OF u] by blast
    from pruned_at_prune[OF this]
    have a: "attrs u attr = Some (map (\<lambda>site. prune (ncols (concat PLs)) mm site u) PLs)" .
    moreover have "pruned_at PLs mm attr u" using P u by blast
    from pruned_at_shape[OF this ax] a
    have "shape2 (length PLs) (ncols (concat PLs)) (map (\<lambda>site. prune (ncols (concat PLs)) mm site u) PLs)"
      by simp
    ultimately show "attrs u attr = Some (map (\<lambda>site. prune (ncols (concat PLs)) mm site u) PLs)
         \<and> shape2 (length PLs) (ncols (concat PLs)) (map (\<lambda>site. prune (ncols (concat PLs)) mm site u) PLs)"
      by simp
  qed
qed

lemma np_get_ok_iff:
  "(\<exists>x. np_get xs i = Inr x) \<longleftrightarrow> - int (length xs) \<le> i \<and> i < int (length xs)"
  by (auto simp: np_get_def)

lemma mapE_ok_iff: "(\<exists>ys. mapE f xs = Inr ys) \<longleftrightarrow> (\<forall>x \<in> set xs. \<exists>y. f x = Inr y)"
proof
  assume "\<exists>ys. mapE f xs = Inr ys"
  then obtain ys where ys: "mapE f xs = Inr ys" ..
  show "\<forall>x \<in> set xs. \<exists>y. f x = Inr y"
  proof
    fix x assume "x \<in> set xs"
    then obtain k where "k < length xs" "x = xs ! k" by (auto simp: in_set_conv_nth)
    with mapE_nth[OF ys] show "\<exists>y. f x = Inr y" by blast
  qed
next
  assume "\<forall>x \<in> set xs. \<exists>y. f x = Inr y"
  then show "\<exists>ys. mapE f xs = Inr ys" by (rule mapE_success)
qed

lemma add_children_ok:
  assumes sq: "square g mm"
      and cs: "\<forall>c \<in> set cs. \<exists>a. attrs c attr = Some a \<and> shape2 n g a"
      and acc: "shape2 n g acc"
  shows "(\<exists>v. add_children acc cs mm attr = Inr v) \<longleftrightarrow>
         (\<forall>c \<in> set cs. \<forall>s<n. \<forall>j<g. 0 < prob_dot g mm (the (attrs c attr) ! s) j)"
proof
  assume "\<exists>v. add_children acc cs mm attr = Inr v"
  then show "\<forall>c \<in> set cs. \<forall>s<n. \<forall>j<g. 0 < prob_dot g mm (the (attrs c attr) ! s) j"
    unfolding add_children_shaped[OF sq cs acc] by blast
next
  assume p: "\<forall>c \<in> set cs. \<forall>s<n. \<forall>j<g. 0 < prob_dot g mm (the (attrs c attr) ! s) j"
  let ?v = "map (\<lambda>s. map (\<lambda>j. acc ! s ! j
              + (\<Sum>c\<leftarrow>cs. p2phred (prob_dot g mm (the (attrs c attr) ! s) j))) [0..<g]) [0..<n]"
  have "add_children acc cs mm attr = Inr ?v"
    unfolding add_children_shaped[OF sq cs acc] using p
    by (simp add: shape2_def list_all_length)
  then show "\<exists>v. add_children acc cs mm attr = Inr v" ..
qed

lemma tr_ok_iff: "tr_ok g mm v \<longleftrightarrow> (\<forall>j<g. 0 < prob_dot g mm v j)"
  by (auto simp: tr_ok_def list_all_iff)

lemma populate_node_root:
  assumes sq: "square (ncols (concat PLs)) mm"
      and ax: "geno_axis (ncols (concat PLs)) PLs"
      and ok: "populate_node (length PLs) (ncols (concat PLs)) t PLs mm attr = Inr t'"
  shows "attrs t' attr = Some (map (\<lambda>site. prune (ncols (concat PLs)) mm site t) PLs)
       \<and> shape2 (length PLs) (ncols (concat PLs)) (map (\<lambda>site. prune (ncols (concat PLs)) mm site t) PLs)"
proof -
  have "t' \<in> set (traverse_postorder t')" by simp
  with populate_node_prune(2)[OF sq ax ok]
  have "attrs t' attr = Some (map (\<lambda>site. prune (ncols (concat PLs)) mm site t') PLs)
       \<and> shape2 (length PLs) (ncols (concat PLs)) (map (\<lambda>site. prune (ncols (concat PLs)) mm site t') PLs)"
    by blast
  then show ?thesis
    unfolding prune_skel[OF populate_node_prune(1)[OF sq ax ok]] .
qed

lemma populate_node_ok_iff:
  assumes sq: "square (ncols (concat PLs)) mm"
      and ax: "geno_axis (ncols (concat PLs)) PLs"
      and ne: "PLs \<noteq> []"
  shows "(\<exists>t'. populate_node (length PLs) (ncols (concat PLs)) t PLs mm attr = Inr t') \<longleftrightarrow>
         (\<forall>site \<in> set PLs. prune_ok (ncols (concat PLs)) mm site t)"
proof (induction t)
  case (Node s a p cs)
  let ?n = "length PLs" and ?g = "ncols (concat PLs)"
  show ?case
  proof (cases "cs = []")
    case True
    have "(\<exists>t'. populate_node ?n ?g (Node s a p cs) PLs mm attr = Inr t')
        \<longleftrightarrow> s \<noteq> [] \<and> (\<exists>v. sample_column PLs (hd s) = Inr v)"
      using True by (auto simp: ebind_eq_Inr np_get_first)
    also have "\<dots> \<longleftrightarrow> s \<noteq> [] \<and> (\<forall>site \<in> set PLs. - int (length site) \<le> hd s \<and> hd s < int (length site))"
      unfolding sample_column_def mapE_ok_iff np_get_ok_iff ..
    also have "\<dots> \<longleftrightarrow> (\<forall>site \<in> set PLs. prune_ok ?g mm site (Node s a p cs))"
      using True ne by auto
    finally show ?thesis .
  next
    case False
    have IH: "(\<exists>c'. populate_node ?n ?g c PLs mm attr = Inr c') \<longleftrightarrow>
              (\<forall>site \<in> set PLs. prune_ok ?g mm site c)" if "c \<in> set cs" for c
      using Node.IH[OF that] .
    show ?thesis
    proof
      assume "\<exists>t'. populate_node ?n ?g (Node s a p cs) PLs mm attr = Inr t'"
      with False obtain cs' v where
        cs': "mapE (\<lambda>c. populate_node ?n ?g c PLs mm attr) cs = Inr cs'"
        and v: "add_children (zeros2 ?n ?g) cs' mm attr = Inr v"
        by (auto simp: ebind_eq_Inr populate_nodes_mapE)
      have len: "length cs' = length cs" using cs' by (rule mapE_length)
      have each: "populate_node ?n ?g (cs ! k) PLs mm attr = Inr (cs' ! k)" if "k < length cs" for k
        using mapE_nth[OF cs' that] .
      have at: "attrs (cs' ! k) attr = Some (map (\<lambda>site. prune ?g mm site (cs ! k)) PLs)
              \<and> shape2 ?n ?g (map (\<lambda>site. prune ?g mm site (cs ! k)) PLs)"
        if "k < length cs" for k
        using populate_node_root[OF sq ax each[OF that]] .
      have shp: "\<forall>c \<in> set cs'. \<exists>a. attrs c attr = Some a \<and> shape2 ?n ?g a"
        using at len by (auto simp: in_set_conv_nth)
      from v have pos: "\<forall>c \<in> set cs'. \<forall>k<?n. \<forall>j<?g. 0 < prob_dot ?g mm (the (attrs c attr) ! k) j"
        using add_children_ok[OF sq shp shape2_zeros2] by blast
      show "\<forall>site \<in> set PLs. prune_ok ?g mm site (Node s a p cs)"
      proof
        fix site assume site: "site \<in> set PLs"
        then obtain i where i: "i < ?n" "site = PLs ! i" by (auto simp: in_set_conv_nth)
        have "prune_ok ?g mm site c \<and> tr_ok ?g mm (prune ?g mm site c)" if "c \<in> set cs" for c
        proof -
          from that obtain k where k: "k < length cs" "c = cs ! k" by (auto simp: in_set_conv_nth)
          have "\<exists>c'. populate_node ?n ?g c PLs mm attr = Inr c'" using each[OF k(1)] k(2) by blast
          then have a: "prune_ok ?g mm site c" using IH[OF that] site by blast
          have "cs' ! k \<in> set cs'" using k len by simp
          with pos i have "\<forall>j<?g. 0 < prob_dot ?g mm (the (attrs (cs' ! k) attr) ! i) j" by blast
          then have "tr_ok ?g mm (prune ?g mm site c)"
            using at[OF k(1)] i k(2) by (simp add: tr_ok_iff)
          with a show ?thesis ..
        qed
        then show "prune_ok ?g mm site (Node s a p cs)" using False by (simp add: list_all_iff)
      qed
    next
      assume ok: "\<forall>site \<in> set PLs. prune_ok ?g mm site (Node s a p cs)"
      then have okc: "\<forall>site \<in> set PLs. \<forall>c \<in> set cs. prune_ok ?g mm site c \<and> tr_ok ?g mm (prune ?g mm site c)"
        using False by (simp add: list_all_iff)
      then have "\<forall>c \<in> set cs. \<exists>c'. populate_node ?n ?g c PLs mm attr = Inr c'"
        using IH by blast
      from mapE_success[OF this] obtain cs' where
        cs': "mapE (\<lambda>c. populate_node ?n ?g c PLs mm attr) cs = Inr cs'" ..
      have len: "length cs' = length cs" using cs' by (rule mapE_length)
      have each: "populate_node ?n ?g (cs ! k) PLs mm attr = Inr (cs' ! k)" if "k < length cs" for k
        using mapE_nth[OF cs' that] .
      have at: "attrs (cs' ! k) attr = Some (map (\<lambda>site. prune ?g mm site (cs ! k)) PLs)
              \<and> shape2 ?n ?g (map (\<lambda>site. prune ?g mm site (cs ! k)) PLs)"
        if "k < length cs" for k
        using populate_node_root[OF sq ax each[OF that]] .
      have shp: "\<forall>c \<in> set cs'. \<exists>a. attrs c attr = Some a \<and> shape2 ?n ?g a"
        using at len by (auto simp: in_set_conv_nth)
      have pos: "\<forall>c \<in> set cs'. \<forall>i<?n. \<forall>j<?g. 0 < prob_dot ?g mm (the (attrs c attr) ! i) j"
      proof (intro ballI allI impI)
        fix c i j assume c: "c \<in> set cs'" and i: "i < ?n" and j: "j < ?g"
        from c obtain k where k: "k < length cs" "c = cs' ! k" using len by (auto simp: in_set_conv_nth)
        have "tr_ok ?g mm (prune ?g mm (PLs ! i) (cs ! k))" using okc i k(1) by simp
        then show "0 < prob_dot ?g mm (the (attrs c attr) ! i) j"
          using at[OF k(1)] i j k(2) by (simp add: tr_ok_iff)
      qed
      from add_children_ok[OF sq shp shape2_zeros2] pos obtain v where
        "add_children (zeros2 ?n ?g) cs' mm attr = Inr v" by blast
      then show "\<exists>t'. populate_node ?n ?g (Node s a p cs) PLs mm attr = Inr t'"
        using False cs' by (simp add: populate_nodes_mapE)
    qed
  qed
qed

text \<open>The array operations on arrays given row by row.\<close>

lemma transfer2_rows:
  assumes sq: "square g mm" and len: "\<forall>site \<in> set PLs. length (F site) = g"
  shows "transfer2 (map F PLs) mm = Inr x \<longleftrightarrow>
           (\<forall>site \<in> set PLs. tr_ok g mm (F site)) \<and> x = map (\<lambda>site. tr g mm (F site)) PLs"
proof -
  have sh: "shape2 (length PLs) g (map F PLs)"
    using len by (simp add: shape2_def list_all_iff)
  have a: "(\<forall>s<length PLs. \<forall>j<g. 0 < prob_dot g mm (map F PLs ! s) j)
        \<longleftrightarrow> (\<forall>site \<in> set PLs. tr_ok g mm (F site))"
    by (fastforce simp: tr_ok_iff in_set_conv_nth)
  have b: "map (\<lambda>row. map (\<lambda>j. p2phred (prob_dot g mm row j)) [0..<g]) (map F PLs)
         = map (\<lambda>site. tr g mm (F site)) PLs"
    by (simp add: tr_def)
  show ?thesis unfolding transfer2_eq_Inr[OF sq sh] a b ..
qed

lemma add2_rows:
  assumes "\<forall>site \<in> set PLs. length (X site) = g" "\<forall>site \<in> set PLs. length (Y site) = g"
  shows "add2 (map X PLs) (map Y PLs) = Inr (map (\<lambda>site. map2 (+) (X site) (Y site)) PLs)"
proof -
  have x: "shape2 (length PLs) g (map X PLs)" and y: "shape2 (length PLs) g (map Y PLs)"
    using assms by (simp_all add: shape2_def list_all_iff)
  have "map2 (map2 (+)) (map X PLs) (map Y PLs) = map (\<lambda>site. map2 (+) (X site) (Y site)) PLs"
    by (auto intro!: nth_equalityI)
  then show ?thesis using add2_same[OF x y] by simp
qed

lemma PL0_rows_node:
  assumes "PL0_rows g mm0 PLs t" "u \<in> set (traverse_postorder t)"
  shows "attrs u ''PL0'' = Some (map (\<lambda>site. prune g mm0 site u) PLs)"
    and "\<forall>site \<in> set PLs. length (prune g mm0 site u) = g"
  using assms by (auto simp: PL0_rows_def list_all_iff)

lemma PL0_rows_subtree:
  assumes "PL0_rows g mm0 PLs t" "u \<in> set (traverse_postorder t)"
  shows "PL0_rows g mm0 PLs u"
  using assms postorder_subtree[OF assms(2)] by (auto simp: PL0_rows_def list_all_iff)

lemma on_edge_rows:
  assumes sq0: "square g mm0" and sq1: "square g mm1"
      and c: "attrs c ''PL0'' = Some (map (\<lambda>site. prune g mm0 site c) PLs)"
             "\<forall>site \<in> set PLs. length (prune g mm0 site c) = g"
      and s: "attrs s ''PL0'' = Some (map (\<lambda>site. prune g mm0 site s) PLs)"
             "\<forall>site \<in> set PLs. length (prune g mm0 site s) = g"
  shows "on_edge c s mm0 mm1 = Inr e \<longleftrightarrow>
           (\<forall>site \<in> set PLs. tr_ok g mm1 (prune g mm0 site c) \<and> tr_ok g mm0 (prune g mm0 site s))
         \<and> e = map (\<lambda>site. map2 (+) (tr g mm1 (prune g mm0 site c))
                                  (tr g mm0 (prune g mm0 site s))) PLs"
proof -
  have "on_edge c s mm0 mm1 = Inr e \<longleftrightarrow>
        (\<exists>x y. transfer2 (map (\<lambda>site. prune g mm0 site c) PLs) mm1 = Inr x
             \<and> transfer2 (map (\<lambda>site. prune g mm0 site s) PLs) mm0 = Inr y
             \<and> add2 x y = Inr e)"
    by (auto simp: on_edge_def ebind_eq_Inr getattr_def c(1) s(1))
  also have "\<dots> \<longleftrightarrow> (\<forall>site \<in> set PLs. tr_ok g mm1 (prune g mm0 site c))
       \<and> (\<forall>site \<in> set PLs. tr_ok g mm0 (prune g mm0 site s))
       \<and> add2 (map (\<lambda>site. tr g mm1 (prune g mm0 site c)) PLs)
              (map (\<lambda>site. tr g mm0 (prune g mm0 site s)) PLs) = Inr e"
    unfolding transfer2_rows[OF sq1 c(2)] transfer2_rows[OF sq0 s(2)] by auto
  also have "\<dots> \<longleftrightarrow> (\<forall>site \<in> set PLs. tr_ok g mm1 (prune g mm0 site c) \<and> tr_ok g mm0 (prune g mm0 site s))
         \<and> e = map (\<lambda>site. map2 (+) (tr g mm1 (prune g mm0 site c))
                                  (tr g mm0 (prune g mm0 site s))) PLs"
    by (subst add2_rows[where g = g]) auto
  finally show ?thesis .
qed

lemma carried_rows:
  assumes sq0: "square g mm0"
      and x: "\<forall>site \<in> set PLs. length (X site) = g"
      and s: "attrs s ''PL0'' = Some (map (\<lambda>site. prune g mm0 site s) PLs)"
             "\<forall>site \<in> set PLs. length (prune g mm0 site s) = g"
  shows "carried (map X PLs) s mm0 = Inr v \<longleftrightarrow>
           (\<forall>site \<in> set PLs. tr_ok g mm0 (X site) \<and> tr_ok g mm0 (prune g mm0 site s))
         \<and> v = map (\<lambda>site. map2 (+) (tr g mm0 (X site)) (tr g mm0 (prune g mm0 site s))) PLs"
proof -
  have "carried (map X PLs) s mm0 = Inr v \<longleftrightarrow>
        (\<exists>x y. transfer2 (map X PLs) mm0 = Inr x
             \<and> transfer2 (map (\<lambda>site. prune g mm0 site s) PLs) mm0 = Inr y
             \<and> add2 x y = Inr v)"
    by (auto simp: carried_def ebind_eq_Inr getattr_def s(1))
  also have "\<dots> \<longleftrightarrow> (\<forall>site \<in> set PLs. tr_ok g mm0 (X site))
       \<and> (\<forall>site \<in> set PLs. tr_ok g mm0 (prune g mm0 site s))
       \<and> add2 (map (\<lambda>site. tr g mm0 (X site)) PLs)
              (map (\<lambda>site. tr g mm0 (prune g mm0 site s)) PLs) = Inr v"
    unfolding transfer2_rows[OF sq0 x] transfer2_rows[OF sq0 s(2)] by auto
  also have "\<dots> \<longleftrightarrow> (\<forall>site \<in> set PLs. tr_ok g mm0 (X site) \<and> tr_ok g mm0 (prune g mm0 site s))
         \<and> v = map (\<lambda>site. map2 (+) (tr g mm0 (X site)) (tr g mm0 (prune g mm0 site s))) PLs"
    by (subst add2_rows[where g = g]) auto
  finally show ?thesis .
qed

lemma binary_child_sister:
  assumes "binary t" "k < length (children t)"
  obtains sis where "get_sister (children t) k = Inr sis" "sis \<in> set (children t)"
    "binary (children t ! k)" "children t ! k \<in> set (children t)"
proof -
  obtain s a p cs where t: "t = Node s a p cs" by (cases t)
  with assms(2) have ne: "cs \<noteq> []" by auto
  from binary_two[OF assms(1)[unfolded t] ne] obtain c0 c1 where
    cs: "cs = [c0, c1]" and b: "binary c0" "binary c1" by blast
  from assms(2) t cs have "k = 0 \<or> k = 1" by auto
  then show ?thesis
  proof
    assume "k = 0"
    then show ?thesis using that[of c1] t cs b by (simp add: get_sister_two)
  next
    assume "k = 1"
    then show ?thesis using that[of c0] t cs b by (simp add: get_sister_two)
  qed
qed

lemma place_length:
  "p \<noteq> [] \<Longrightarrow> length (place g mm0 mm1 site t p) = g"
  by (induction g mm0 mm1 site t p rule: place.induct) simp_all

lemma placement_rows:
  "square g mm0 \<Longrightarrow> square g mm1 \<Longrightarrow> binary t \<Longrightarrow> PL0_rows g mm0 PLs t \<Longrightarrow>
   valid_path t p \<Longrightarrow> p \<noteq> [] \<Longrightarrow>
     (placement mm0 mm1 t p = Inr x \<longleftrightarrow>
        (\<forall>site \<in> set PLs. place_ok g mm0 mm1 site t p)
      \<and> x = map (\<lambda>site. place g mm0 mm1 site t p) PLs)"
proof (induction mm0 mm1 t p arbitrary: x rule: placement.induct)
  case (1 mm0 mm1 t)
  then show ?case by simp
next
  case (2 mm0 mm1 t k)
  note sq0 = 2(1) and sq1 = 2(2) and bin = 2(3) and rows = 2(4)
  from 2(5) have k: "k < length (children t)" by simp
  from binary_child_sister[OF bin k] obtain sis where
    sis: "get_sister (children t) k = Inr sis" "sis \<in> set (children t)"
    and ch: "children t ! k \<in> set (children t)" by blast
  note rc = PL0_rows_node[OF rows children_in_postorder[OF ch]]
  note rs = PL0_rows_node[OF rows children_in_postorder[OF sis(2)]]
  show ?case
    using on_edge_rows[OF sq0 sq1 rc rs, of x] k sis(1) by simp
next
  case (3 mm0 mm1 t k k' q)
  note sq0 = 3(2) and sq1 = 3(3) and bin = 3(4) and rows = 3(5)
  from 3(6) have k: "k < length (children t)" and v: "valid_path (children t ! k) (k' # q)"
    by simp_all
  from binary_child_sister[OF bin k] obtain sis where
    sis: "get_sister (children t) k = Inr sis" "sis \<in> set (children t)"
    and b: "binary (children t ! k)"
    and ch: "children t ! k \<in> set (children t)" by blast
  note rs = PL0_rows_node[OF rows children_in_postorder[OF sis(2)]]
  have rc: "PL0_rows g mm0 PLs (children t ! k)"
    using PL0_rows_subtree[OF rows children_in_postorder[OF ch]] .
  have ne: "k' # q \<noteq> []" by simp
  note IH = 3(1)[OF k sq0 sq1 b rc v ne]
  let ?c = "children t ! k"
  have len: "\<forall>site \<in> set PLs. length (place g mm0 mm1 site ?c (k' # q)) = g"
    by (simp add: place_length)
  have "placement mm0 mm1 t (k # k' # q) = Inr x \<longleftrightarrow>
        (\<exists>y. placement mm0 mm1 ?c (k' # q) = Inr y \<and> carried y sis mm0 = Inr x)"
    using k sis(1) by (simp add: ebind_eq_Inr)
  also have "\<dots> \<longleftrightarrow> (\<forall>site \<in> set PLs. place_ok g mm0 mm1 site ?c (k' # q))
      \<and> carried (map (\<lambda>site. place g mm0 mm1 site ?c (k' # q)) PLs) sis mm0 = Inr x"
    using IH by auto
  also have "\<dots> \<longleftrightarrow> (\<forall>site \<in> set PLs. place_ok g mm0 mm1 site t (k # k' # q))
      \<and> x = map (\<lambda>site. place g mm0 mm1 site t (k # k' # q)) PLs"
    unfolding carried_rows[OF sq0 len rs] using sis(1) by auto
  finally show ?case .
qed

lemma on_edge_sister:
  "on_edge c s mm0 mm1 = Inr e \<Longrightarrow>
   \<exists>s0 y. getattr s ''PL0'' = Inr s0 \<and> transfer2 s0 mm0 = Inr y"
  by (auto simp: on_edge_def ebind_eq_Inr)

lemma fill_PLm_runs:
  assumes sq0: "square g mm0" and sq1: "square g mm1"
  shows "\<lbrakk> \<forall>(c, sis) \<in> set ps. \<exists>s c0 s0. sis = Inr s
              \<and> attrs c ''PL0'' = Some c0 \<and> shape2 n g c0
              \<and> attrs s ''PL0'' = Some s0 \<and> shape2 n g s0
              \<and> (\<not> is_leaf c \<longrightarrow> PLm c \<noteq> None)
              \<and> (\<forall>x \<in> set (slabs c). shape2 n g x)
              \<and> (\<exists>e. on_edge c s mm0 mm1 = Inr e)
              \<and> (\<forall>x \<in> set (slabs c). \<exists>v. carried x s mm0 = Inr v);
           i + sum_list (map (\<lambda>(c, sis). Suc (length (slabs c))) ps) \<le> length plm \<rbrakk>
         \<Longrightarrow> \<exists>plm'. fill_PLm n g mm0 mm1 ps plm i = Inr plm'"
proof (induction ps arbitrary: plm i)
  case Nil
  show ?case by simp
next
  case (Cons pr rest)
  obtain c sis where pr: "pr = (c, sis)" by (cases pr)
  from Cons.prems(1) pr obtain s c0 s0 e where
    sis: "sis = Inr s" and c0: "attrs c ''PL0'' = Some c0" "shape2 n g c0"
    and s0: "attrs s ''PL0'' = Some s0" "shape2 n g s0"
    and plmc: "\<not> is_leaf c \<longrightarrow> PLm c \<noteq> None"
    and shc: "\<forall>x \<in> set (slabs c). shape2 n g x"
    and e: "on_edge c s mm0 mm1 = Inr e"
    and cr: "\<forall>x \<in> set (slabs c). \<exists>v. carried x s mm0 = Inr v"
    by auto
  have rest_ok: "\<forall>(c, sis) \<in> set rest. \<exists>s c0 s0. sis = Inr s
              \<and> attrs c ''PL0'' = Some c0 \<and> shape2 n g c0
              \<and> attrs s ''PL0'' = Some s0 \<and> shape2 n g s0
              \<and> (\<not> is_leaf c \<longrightarrow> PLm c \<noteq> None)
              \<and> (\<forall>x \<in> set (slabs c). shape2 n g x)
              \<and> (\<exists>e. on_edge c s mm0 mm1 = Inr e)
              \<and> (\<forall>x \<in> set (slabs c). \<exists>v. carried x s mm0 = Inr v)"
    using Cons.prems(1) by simp
  let ?tot = "sum_list (map (\<lambda>(c, sis). Suc (length (slabs c))) rest)"
  from Cons.prems(2) pr have fit: "i + Suc (length (slabs c)) + ?tot \<le> length plm" by simp
  have she: "shape2 n g e" using on_edge_shape[OF sq0 sq1 c0 s0 e] .
  show ?case
  proof (cases "is_leaf c")
    case True
    then have sl: "slabs c = []" by (simp add: slabs_def)
    have i: "i < length plm" using fit by simp
    define plm2 where "plm2 = take i plm @ [e] @ drop (Suc i) plm"
    have w: "set_item n g plm i e = Inr plm2" unfolding plm2_def using set_item_fits[OF she i] .
    have "Suc i + ?tot \<le> length plm2" using fit sl by (simp add: plm2_def)
    from Cons.IH[OF rest_ok this] obtain plm' where
      "fill_PLm n g mm0 mm1 rest plm2 (Suc i) = Inr plm'" ..
    then show ?thesis using pr sis True e w by simp
  next
    case False
    with plmc obtain cm where cm: "PLm c = Some cm" by auto
    with False have sl: "slabs c = cm" by (simp add: slabs_def)
    have "\<forall>x \<in> set cm. \<exists>v. carried x s mm0 = Inr v" using cr sl by simp
    from list_all2_ex[OF this] obtain v where
      car: "list_all2 (\<lambda>x v. carried x s mm0 = Inr v) cm v" ..
    have lv: "length v = length cm" using car by (simp add: list_all2_lengthD)
    from on_edge_sister[OF e] obtain s0' y where
      y: "getattr s ''PL0'' = Inr s0'" "transfer2 s0' mm0 = Inr y" by blast
    have inh: "inherited c s mm0 = Inr v"
      by (rule inherited_from_slabs[OF cm y car])
    have shv: "\<forall>x \<in> set v. shape2 n g x"
    proof
      fix x assume "x \<in> set v"
      then obtain k where k: "k < length v" "x = v ! k" by (auto simp: in_set_conv_nth)
      with car lv have "carried (cm ! k) s mm0 = Inr x" by (simp add: list_all2_conv_all_nth)
      moreover have "shape2 n g (cm ! k)" using shc sl k lv by simp
      ultimately show "shape2 n g x" using carried_shape[OF sq0 _ s0] by blast
    qed
    have le: "i + length v < length plm" using fit sl lv by simp
    then have le': "i + length v \<le> length plm" by simp
    define plm1 where "plm1 = take i plm @ v @ drop (i + length v) plm"
    have w1: "set_slice n g plm i (length cm) v = Inr plm1"
      using set_slice_fits[OF shv le'] lv by (simp add: plm1_def)
    have l1: "length plm1 = length plm" using le' by (simp add: plm1_def)
    define plm2 where "plm2 = take (i + length cm) plm1 @ [e] @ drop (Suc (i + length cm)) plm1"
    have w2: "set_item n g plm1 (i + length cm) e = Inr plm2"
      unfolding plm2_def by (rule set_item_fits[OF she]) (use le lv l1 in simp)
    have l2: "length plm2 = length plm" using le lv l1 by (simp add: plm2_def)
    have "Suc (i + length cm) + ?tot \<le> length plm2" unfolding l2 using fit sl by simp
    from Cons.IH[OF rest_ok this] obtain plm' where
      f: "fill_PLm n g mm0 mm1 rest plm2 (Suc (i + length cm)) = Inr plm'" ..
    show ?thesis
      by (rule exI[of _ plm'])
         (simp add: pr sis False get_PLm_def cm inh w1 e w2 f)
  qed
qed

lemma placement_Cons_ok:
  assumes "placement mm0 mm1 t (k # q) = Inr y" "q \<noteq> []"
  shows "\<exists>x sis. get_sister (children t) k = Inr sis
          \<and> placement mm0 mm1 (children t ! k) q = Inr x \<and> carried x sis mm0 = Inr y"
  using assms by (cases q) (auto simp: ebind_eq_Inr split: if_splits)

lemma placement_edge_ok:
  assumes "placement mm0 mm1 t [k] = Inr y"
  shows "\<exists>sis. get_sister (children t) k = Inr sis
          \<and> on_edge (children t ! k) sis mm0 mm1 = Inr y"
  using assms by (auto simp: ebind_eq_Inr split: if_splits)

lemma calc_node_runs:
  assumes sq0: "square g mm0" and sq1: "square g mm1"
  shows "binary t \<Longrightarrow> all_PL0 n g t \<Longrightarrow>
         (\<forall>p \<in> set (descendant_paths t). \<exists>x. placement mm0 mm1 t p = Inr x) \<Longrightarrow>
         \<exists>t'. calc_node n g mm0 mm1 t = Inr t'"
proof (induction t)
  case (Node s a p cs)
  show ?case
  proof (cases "cs = []")
    case True
    then show ?thesis by simp
  next
    case False
    from binary_two[OF Node.prems(1) False] obtain c0 c1 where
      cs: "cs = [c0, c1]" and b: "binary c0" "binary c1" by blast
    let ?t = "Node s a p cs"
    have pl: "all_PL0 n g c0" "all_PL0 n g c1" using Node.prems(2) cs by (simp_all add: all_PL0_Node)
    have paths: "descendant_paths ?t = map ((#) 0) (descendant_paths c0) @ [[0]]
                   @ map ((#) (Suc 0)) (descendant_paths c1) @ [[Suc 0]]"
      by (simp add: cs)
    have below0: "\<exists>x. placement mm0 mm1 c0 q = Inr x \<and> carried x c1 mm0 = Inr y"
      if "placement mm0 mm1 ?t (0 # q) = Inr y" "q \<in> set (descendant_paths c0)" for q y
    proof -
      have "q \<noteq> []" using that(2) paths_nonempty(1) by blast
      from placement_Cons_ok[OF that(1) this] show ?thesis by (simp add: cs get_sister_two)
    qed
    have below1: "\<exists>x. placement mm0 mm1 c1 q = Inr x \<and> carried x c0 mm0 = Inr y"
      if "placement mm0 mm1 ?t (Suc 0 # q) = Inr y" "q \<in> set (descendant_paths c1)" for q y
    proof -
      have "q \<noteq> []" using that(2) paths_nonempty(1) by blast
      from placement_Cons_ok[OF that(1) this] show ?thesis by (simp add: cs get_sister_two)
    qed
    have all0: "\<exists>y. placement mm0 mm1 ?t (0 # q) = Inr y" if "q \<in> set (descendant_paths c0)" for q
      using Node.prems(3) that unfolding paths by auto
    have all1: "\<exists>y. placement mm0 mm1 ?t (Suc 0 # q) = Inr y" if "q \<in> set (descendant_paths c1)" for q
      using Node.prems(3) that unfolding paths by auto
    have "\<forall>q \<in> set (descendant_paths c0). \<exists>x. placement mm0 mm1 c0 q = Inr x"
      using all0 below0 by blast
    from Node.IH[of c0, OF _ b(1) pl(1) this] cs obtain c0' where
      c0': "calc_node n g mm0 mm1 c0 = Inr c0'" by auto
    have "\<forall>q \<in> set (descendant_paths c1). \<exists>x. placement mm0 mm1 c1 q = Inr x"
      using all1 below1 by blast
    from Node.IH[of c1, OF _ b(2) pl(2) this] cs obtain c1' where
      c1': "calc_node n g mm0 mm1 c1 = Inr c1'" by auto
    have e0: "erase_PLm c0' = erase_PLm c0" and e1: "erase_PLm c1' = erase_PLm c1"
      using calc_node_erase[OF c0'] calc_node_erase[OF c1'] .
    from all_PL0_erase[OF e0 pl(1)] obtain a0 where a0: "attrs c0' ''PL0'' = Some a0" "shape2 n g a0"
      by blast
    from all_PL0_erase[OF e1 pl(2)] obtain a1 where a1: "attrs c1' ''PL0'' = Some a1" "shape2 n g a1"
      by blast
    note Q0 = calc_node_placed[OF sq0 sq1 b(1) pl(1) c0'] and Q1 = calc_node_placed[OF sq0 sq1 b(2) pl(2) c1']
    have P0: "list_all2 (\<lambda>p x. placement mm0 mm1 c0' p = Inr x \<and> shape2 n g x)
                (descendant_paths c0') (slabs c0')"
      and N0: "\<not> is_leaf c0' \<longrightarrow> PLm c0' \<noteq> None"
      using Q0 by simp_all
    have P1: "list_all2 (\<lambda>p x. placement mm0 mm1 c1' p = Inr x \<and> shape2 n g x)
                (descendant_paths c1') (slabs c1')"
      and N1: "\<not> is_leaf c1' \<longrightarrow> PLm c1' \<noteq> None"
      using Q1 by simp_all
    have sh0: "\<forall>x \<in> set (slabs c0'). shape2 n g x" using list_all2_shapes[OF P0] .
    have sh1: "\<forall>x \<in> set (slabs c1'). shape2 n g x" using list_all2_shapes[OF P1] .
    have ls0: "length (slabs c0') = 2 * len c0 - 2"
      using list_all2_lengthD[OF P0] descendant_paths_cong[OF e0] binary_paths_length[OF b(1)]
      by simp
    have ls1: "length (slabs c1') = 2 * len c1 - 2"
      using list_all2_lengthD[OF P1] descendant_paths_cong[OF e1] binary_paths_length[OF b(2)]
      by simp
    have ed0: "\<exists>e. on_edge c0' c1' mm0 mm1 = Inr e"
    proof -
      have "[0] \<in> set (descendant_paths ?t)" unfolding paths by simp
      with Node.prems(3) obtain y where "placement mm0 mm1 ?t [0] = Inr y" by blast
      from placement_edge_ok[OF this] have "on_edge c0 c1 mm0 mm1 = Inr y"
        by (simp add: cs get_sister_two)
      then show ?thesis using on_edge_erase[OF e0 e1] by simp
    qed
    have ed1: "\<exists>e. on_edge c1' c0' mm0 mm1 = Inr e"
    proof -
      have "[Suc 0] \<in> set (descendant_paths ?t)" unfolding paths by simp
      with Node.prems(3) obtain y where "placement mm0 mm1 ?t [Suc 0] = Inr y" by blast
      from placement_edge_ok[OF this] have "on_edge c1 c0 mm0 mm1 = Inr y"
        by (simp add: cs get_sister_two)
      then show ?thesis using on_edge_erase[OF e1 e0] by simp
    qed
    have cr0: "\<forall>x \<in> set (slabs c0'). \<exists>v. carried x c1' mm0 = Inr v"
    proof
      fix x assume "x \<in> set (slabs c0')"
      then obtain j where j: "j < length (slabs c0')" "x = slabs c0' ! j"
        by (auto simp: in_set_conv_nth)
      let ?q = "descendant_paths c0 ! j"
      have lq: "j < length (descendant_paths c0)"
        using j(1) list_all2_lengthD[OF P0] descendant_paths_cong[OF e0] by simp
      have "placement mm0 mm1 c0' (descendant_paths c0' ! j) = Inr x"
        using P0 j by (simp add: list_all2_conv_all_nth)
      then have px: "placement mm0 mm1 c0 ?q = Inr x"
        using placement_erase[OF e0] descendant_paths_cong[OF e0] by simp
      have q: "?q \<in> set (descendant_paths c0)" using lq by simp
      from all0[OF q] obtain y where y: "placement mm0 mm1 ?t (0 # ?q) = Inr y" ..
      from below0[OF y q] px have "carried x c1 mm0 = Inr y" by auto
      then show "\<exists>v. carried x c1' mm0 = Inr v" using carried_erase[OF e1] by simp
    qed
    have cr1: "\<forall>x \<in> set (slabs c1'). \<exists>v. carried x c0' mm0 = Inr v"
    proof
      fix x assume "x \<in> set (slabs c1')"
      then obtain j where j: "j < length (slabs c1')" "x = slabs c1' ! j"
        by (auto simp: in_set_conv_nth)
      let ?q = "descendant_paths c1 ! j"
      have lq: "j < length (descendant_paths c1)"
        using j(1) list_all2_lengthD[OF P1] descendant_paths_cong[OF e1] by simp
      have "placement mm0 mm1 c1' (descendant_paths c1' ! j) = Inr x"
        using P1 j by (simp add: list_all2_conv_all_nth)
      then have px: "placement mm0 mm1 c1 ?q = Inr x"
        using placement_erase[OF e1] descendant_paths_cong[OF e1] by simp
      have q: "?q \<in> set (descendant_paths c1)" using lq by simp
      from all1[OF q] obtain y where y: "placement mm0 mm1 ?t (Suc 0 # ?q) = Inr y" ..
      from below1[OF y q] px have "carried x c0 mm0 = Inr y" by auto
      then show "\<exists>v. carried x c0' mm0 = Inr v" using carried_erase[OF e0] by simp
    qed
    let ?L = "2 * len ?t - 2"
    have L: "?L = Suc (length (slabs c0')) + Suc (length (slabs c1'))"
      using ls0 ls1 len_pos[of c0] len_pos[of c1] by (simp add: cs)
    let ?ps = "[(c0', Inr c1'), (c1', Inr c0')] :: (tree \<times> (error + tree)) list"
    have hyp: "\<forall>(c, sis) \<in> set ?ps. \<exists>s c0 s0. sis = Inr s
              \<and> attrs c ''PL0'' = Some c0 \<and> shape2 n g c0
              \<and> attrs s ''PL0'' = Some s0 \<and> shape2 n g s0
              \<and> (\<not> is_leaf c \<longrightarrow> PLm c \<noteq> None)
              \<and> (\<forall>x \<in> set (slabs c). shape2 n g x)
              \<and> (\<exists>e. on_edge c s mm0 mm1 = Inr e)
              \<and> (\<forall>x \<in> set (slabs c). \<exists>v. carried x s mm0 = Inr v)"
      using a0 a1 N0 N1 sh0 sh1 ed0 ed1 cr0 cr1 by simp
    have fit: "0 + sum_list (map (\<lambda>(c, sis). Suc (length (slabs c))) ?ps)
               \<le> length (zeros3 ?L n g)"
      using L by (simp add: zeros3_def)
    from fill_PLm_runs[OF sq0 sq1 hyp fit] obtain plm where
      "fill_PLm n g mm0 mm1 ?ps (zeros3 ?L n g) 0 = Inr plm" ..
    then show ?thesis
      using c0' c1' by (simp add: cs with_sisters_two)
  qed
qed

lemma calc_node_ok_iff:
  assumes sq0: "square g mm0" and sq1: "square g mm1"
      and bin: "binary t" and pl: "all_PL0 n g t"
  shows "(\<exists>t'. calc_node n g mm0 mm1 t = Inr t') \<longleftrightarrow>
         (\<forall>p \<in> set (descendant_paths t). \<exists>x. placement mm0 mm1 t p = Inr x)"
proof
  assume "\<exists>t'. calc_node n g mm0 mm1 t = Inr t'"
  then obtain t' where t': "calc_node n g mm0 mm1 t = Inr t'" ..
  note e = calc_node_erase[OF t']
  from calc_node_placed[OF sq0 sq1 bin pl t']
  have P: "list_all2 (\<lambda>p x. placement mm0 mm1 t' p = Inr x \<and> shape2 n g x)
             (descendant_paths t') (slabs t')" by simp
  show "\<forall>p \<in> set (descendant_paths t). \<exists>x. placement mm0 mm1 t p = Inr x"
  proof
    fix p assume "p \<in> set (descendant_paths t)"
    then obtain j where j: "j < length (descendant_paths t)" "p = descendant_paths t ! j"
      by (auto simp: in_set_conv_nth)
    then have "placement mm0 mm1 t' p = Inr (slabs t' ! j)"
      using P descendant_paths_cong[OF e] by (simp add: list_all2_conv_all_nth)
    then show "\<exists>x. placement mm0 mm1 t p = Inr x" using placement_erase[OF e] by auto
  qed
next
  assume "\<forall>p \<in> set (descendant_paths t). \<exists>x. placement mm0 mm1 t p = Inr x"
  then show "\<exists>t'. calc_node n g mm0 mm1 t = Inr t'"
    by (rule calc_node_runs[OF sq0 sq1 bin pl])
qed

section \<open>The site caller, site by site\<close>

text \<open>The index operations of the site caller, where they do not raise.\<close>

lemma argmin_from_bound:
  "bi < i \<Longrightarrow> argmin_from best bi i xs < i + length xs"
proof (induction xs arbitrary: best bi i)
  case Nil
  then show ?case by simp
next
  case (Cons x xs)
  have a: "argmin_from x i (Suc i) xs < Suc i + length xs"
    by (rule Cons.IH) simp
  have b: "argmin_from best bi (Suc i) xs < Suc i + length xs"
    by (rule Cons.IH) (use Cons.prems in simp)
  show ?case using a b by simp
qed

lemma argmin_nonempty: "xs \<noteq> [] \<Longrightarrow> argmin xs = Inr (argmin_index xs)"
  by (cases xs) (simp_all add: argmin_def argmin_index_def)

lemma argmin_index_less: "xs \<noteq> [] \<Longrightarrow> argmin_index xs < length xs"
  using argmin_from_bound[of 0 1 "hd xs" "tl xs"] by (cases xs) (simp_all add: argmin_index_def)

lemma np_get_nat: "k < length xs \<Longrightarrow> np_get xs (int k) = Inr (xs ! k)"
  by (simp add: np_get_def)

lemma np_get_nat_ok: "(\<exists>x. np_get xs (int k) = Inr x) \<longleftrightarrow> k < length xs"
  by (auto simp: np_get_def)

lemma pick_in_range:
  "\<forall>k \<in> set ks. k < length a \<Longrightarrow> pick a ks = Inr (map (\<lambda>k. a ! k) ks)"
  unfolding pick_def by (rule mapE_total) (simp add: np_get_nat)

lemma pick_upt_ok: "(\<exists>v. pick a [0..<n] = Inr v) \<longleftrightarrow> n \<le> length a"
proof -
  have "(\<exists>v. pick a [0..<n] = Inr v) \<longleftrightarrow> (\<forall>k<n. k < length a)"
    unfolding pick_def mapE_ok_iff np_get_nat_ok by auto
  also have "\<dots> \<longleftrightarrow> n \<le> length a"
    by (metis less_le_trans not_less order_refl)
  finally show ?thesis .
qed

lemma pick2_in_range:
  assumes "length nn = length ks"
      and "\<forall>i<length nn. nn ! i < length a \<and> ks ! i < length (a ! (nn ! i))"
  shows "pick2 a nn ks = Inr (map (\<lambda>i. a ! (nn ! i) ! (ks ! i)) [0..<length nn])"
proof -
  have "mapE (\<lambda>(s, k). ebind (np_get a (int s)) (\<lambda>row. np_get row (int k))) (zip nn ks)
      = Inr (map (\<lambda>(s, k). a ! s ! k) (zip nn ks))"
  proof (rule mapE_total)
    fix x assume "x \<in> set (zip nn ks)"
    then obtain i where i: "i < length nn" "x = (nn ! i, ks ! i)"
      using assms(1) by (auto simp: set_zip)
    with assms(2) show "(case x of (s, k) \<Rightarrow> ebind (np_get a (int s)) (\<lambda>row. np_get row (int k)))
        = Inr (case x of (s, k) \<Rightarrow> a ! s ! k)"
      by (simp add: np_get_nat)
  qed
  moreover have "map (\<lambda>(s, k). a ! s ! k) (zip nn ks) = map (\<lambda>i. a ! (nn ! i) ! (ks ! i)) [0..<length nn]"
    using assms(1) by (auto intro!: nth_equalityI)
  ultimately show ?thesis using assms(1) by (simp add: pick2_def)
qed

lemma pick3_in_range:
  assumes "length nn = length ls" "length nn = length ks"
      and "\<forall>i<length nn. nn ! i < length a \<and> ls ! i < length (a ! (nn ! i))
              \<and> ks ! i < length (a ! (nn ! i) ! (ls ! i))"
  shows "pick3 a nn ls ks = Inr (map (\<lambda>i. a ! (nn ! i) ! (ls ! i) ! (ks ! i)) [0..<length nn])"
proof -
  have "mapE (\<lambda>(s, l, k). ebind (np_get a (int s)) (\<lambda>m. ebind (np_get m (int l)) (\<lambda>row.
                  np_get row (int k)))) (zip nn (zip ls ks))
      = Inr (map (\<lambda>(s, l, k). a ! s ! l ! k) (zip nn (zip ls ks)))"
  proof (rule mapE_total)
    fix x assume "x \<in> set (zip nn (zip ls ks))"
    then obtain i where i: "i < length nn" "x = (nn ! i, ls ! i, ks ! i)"
      using assms(1,2) by (auto simp: set_zip)
    with assms(3) show "(case x of (s, l, k) \<Rightarrow> ebind (np_get a (int s)) (\<lambda>m.
           ebind (np_get m (int l)) (\<lambda>row. np_get row (int k))))
        = Inr (case x of (s, l, k) \<Rightarrow> a ! s ! l ! k)"
      by (simp add: np_get_nat)
  qed
  moreover have "map (\<lambda>(s, l, k). a ! s ! l ! k) (zip nn (zip ls ks))
      = map (\<lambda>i. a ! (nn ! i) ! (ls ! i) ! (ks ! i)) [0..<length nn]"
    using assms(1,2) by (auto intro!: nth_equalityI)
  ultimately show ?thesis using assms(1,2) by (simp add: pick3_def)
qed

lemma div_vec_nonzero:
  "\<forall>x \<in> set b. x \<noteq> 0 \<Longrightarrow> div_vec a b = Inr (map2 (/) a b)"
  by (auto simp: div_vec_def list_ex_iff)

lemma iadd1_same: "length v = length row \<Longrightarrow> iadd1 row v = Inr (map2 (+) row v)"
  by (simp add: iadd1_def)

lemma add2_1_rows:
  assumes "\<forall>site \<in> set PLs. length (F site) = length v"
  shows "add2_1 (map F PLs) v = Inr (map (\<lambda>site. map2 (+) (F site) v) PLs)"
proof -
  have "mapE (\<lambda>site. add1 (F site) v) PLs = Inr (map (\<lambda>site. map2 (+) (F site) v) PLs)"
    by (rule mapE_total) (simp add: add1_same assms)
  then show ?thesis by (simp add: add2_1_def mapE_map)
qed

lemma iadd3_1_rows:
  assumes "\<forall>site \<in> set PLs. \<forall>p \<in> set ps. length (F site p) = length v"
  shows "iadd3_1 (map (\<lambda>site. map (F site) ps) PLs) v
       = Inr (map (\<lambda>site. map (\<lambda>p. map2 (+) (F site p) v) ps) PLs)"
proof -
  have "mapE (\<lambda>site. mapE (\<lambda>row. iadd1 row v) (map (F site) ps)) PLs
      = Inr (map (\<lambda>site. map (\<lambda>p. map2 (+) (F site p) v) ps) PLs)"
  proof (rule mapE_total)
    fix site assume site: "site \<in> set PLs"
    have "mapE (\<lambda>p. iadd1 (F site p) v) ps = Inr (map (\<lambda>p. map2 (+) (F site p) v) ps)"
      by (rule mapE_total) (simp add: iadd1_same assms site)
    then show "mapE (\<lambda>row. iadd1 row v) (map (F site) ps) = Inr (map (\<lambda>p. map2 (+) (F site p) v) ps)"
      by (simp add: mapE_map)
  qed
  then show ?thesis by (simp add: iadd3_1_def mapE_map)
qed

lemma swapaxes01_rows:
  assumes "ps \<noteq> []"
  shows "swapaxes01 (map (\<lambda>p. map (\<lambda>site. F site p) PLs) ps)
       = map (\<lambda>site. map (F site) ps) PLs"
proof -
  have n: "ncols (map (\<lambda>p. map (\<lambda>site. F site p) PLs) ps) = length PLs"
    using assms by (cases ps) (simp_all add: ncols_def)
  show ?thesis
    unfolding swapaxes01_def n by (auto intro!: nth_equalityI)
qed

text \<open>The site-wise functions depend on the structure of the tree only.\<close>

lemma skel_children_map: "skel t' = skel t \<Longrightarrow> map skel (children t') = map skel (children t)"
  by (cases t; cases t') simp

lemma binary_skel: "skel t' = skel t \<Longrightarrow> binary t' = binary t"
proof (induction t arbitrary: t')
  case (Node s a p cs)
  obtain s' a' p' cs' where t': "t' = Node s' a' p' cs'" by (cases t')
  from Node.prems t' have m: "map skel cs' = map skel cs" by simp
  then have l: "length cs' = length cs" by (rule map_eq_imp_length_eq)
  have "\<forall>k<length cs. binary (cs' ! k) = binary (cs ! k)"
  proof (intro allI impI)
    fix k assume k: "k < length cs"
    have "map skel cs' ! k = map skel cs ! k" using m by simp
    then have "skel (cs' ! k) = skel (cs ! k)" using k l by simp
    moreover have "cs ! k \<in> set cs" using k by simp
    ultimately show "binary (cs' ! k) = binary (cs ! k)" using Node.IH by blast
  qed
  then have "list_all binary cs' = list_all binary cs" using l by (simp add: list_all_length)
  moreover have "(cs' = []) = (cs = [])" using l by (metis length_0_conv)
  ultimately show ?case using t' l by simp
qed

lemma paths_skel:
  "descendant_paths (skel t) = descendant_paths t"
  "child_paths k (map skel cs) = child_paths k cs"
  by (induction t and k cs rule: descendant_paths_child_paths.induct) auto

lemma descendant_paths_skel: "skel t' = skel t \<Longrightarrow> descendant_paths t' = descendant_paths t"
  using paths_skel(1)[of t'] paths_skel(1)[of t] by simp

lemma is_leaf_skel: "skel t' = skel t \<Longrightarrow> is_leaf t' = is_leaf t"
  using skel_children[of t' t] by (metis is_leaf_def length_0_conv)

lemma get_sister_skel:
  assumes "skel t' = skel t"
  shows "skel (projr (get_sister (children t') k)) = skel (projr (get_sister (children t) k))"
proof -
  define r' where "r' = take k (children t') @ drop (Suc k) (children t')"
  define r where "r = take k (children t) @ drop (Suc k) (children t)"
  have m: "map skel r' = map skel r"
    unfolding r'_def r_def using skel_children_map[OF assms]
    by (simp add: take_map[symmetric] drop_map[symmetric])
  have g': "get_sister (children t') k = (case r' of [] \<Rightarrow> Inl IndexError | s # _ \<Rightarrow> Inr s)"
    by (simp add: get_sister_def r'_def)
  have g: "get_sister (children t) k = (case r of [] \<Rightarrow> Inl IndexError | s # _ \<Rightarrow> Inr s)"
    by (simp add: get_sister_def r_def)
  show ?thesis
  proof (cases r)
    case Nil
    with m have "r' = []" by simp
    with Nil show ?thesis unfolding g g' by simp
  next
    case (Cons x xs)
    with m obtain x' xs' where "r' = x' # xs'" "skel x' = skel x" by (cases r') auto
    with Cons show ?thesis unfolding g g' by simp
  qed
qed

lemma place_skel:
  "skel t' = skel t \<Longrightarrow> valid_path t p \<Longrightarrow>
   place g mm0 mm1 site t' p = place g mm0 mm1 site t p"
proof (induction g mm0 mm1 site t p arbitrary: t' rule: place.induct)
  case (1 g mm0 mm1 site t)
  show ?case by simp
next
  case (2 g mm0 mm1 site t k)
  have k: "k < length (children t)" using 2(2) by simp
  have a: "prune g mm0 site (children t' ! k) = prune g mm0 site (children t ! k)"
    by (rule prune_skel[OF skel_child[OF 2(1) k]])
  have b: "prune g mm0 site (projr (get_sister (children t') k))
         = prune g mm0 site (projr (get_sister (children t) k))"
    by (rule prune_skel[OF get_sister_skel[OF 2(1)]])
  show ?case by (simp add: a b)
next
  case (3 g mm0 mm1 site t k k' q)
  have k: "k < length (children t)" using 3(3) by simp
  have v: "valid_path (children t ! k) (k' # q)" using 3(3) by simp
  have b: "prune g mm0 site (projr (get_sister (children t') k))
         = prune g mm0 site (projr (get_sister (children t) k))"
    by (rule prune_skel[OF get_sister_skel[OF 3(2)]])
  have c: "place g mm0 mm1 site (children t' ! k) (k' # q)
         = place g mm0 mm1 site (children t ! k) (k' # q)"
    by (rule 3(1)[OF skel_child[OF 3(2) k] v])
  show ?case by (simp add: b c)
qed

lemma place_ok_skel:
  "skel t' = skel t \<Longrightarrow> valid_path t p \<Longrightarrow>
   place_ok g mm0 mm1 site t' p = place_ok g mm0 mm1 site t p"
proof (induction g mm0 mm1 site t p arbitrary: t' rule: place_ok.induct)
  case (1 g mm0 mm1 site t)
  show ?case by simp
next
  case (2 g mm0 mm1 site t k)
  have k: "k < length (children t)" using 2(2) by simp
  have a: "prune g mm0 site (children t' ! k) = prune g mm0 site (children t ! k)"
    by (rule prune_skel[OF skel_child[OF 2(1) k]])
  have b: "prune g mm0 site (projr (get_sister (children t') k))
         = prune g mm0 site (projr (get_sister (children t) k))"
    by (rule prune_skel[OF get_sister_skel[OF 2(1)]])
  show ?case by (simp add: a b)
next
  case (3 g mm0 mm1 site t k k' q)
  have k: "k < length (children t)" using 3(3) by simp
  have v: "valid_path (children t ! k) (k' # q)" using 3(3) by simp
  have b: "prune g mm0 site (projr (get_sister (children t') k))
         = prune g mm0 site (projr (get_sister (children t) k))"
    by (rule prune_skel[OF get_sister_skel[OF 3(2)]])
  have c: "place g mm0 mm1 site (children t' ! k) (k' # q)
         = place g mm0 mm1 site (children t ! k) (k' # q)"
    by (rule place_skel[OF skel_child[OF 3(2) k] v])
  have d: "place_ok g mm0 mm1 site (children t' ! k) (k' # q)
         = place_ok g mm0 mm1 site (children t ! k) (k' # q)"
    by (rule 3(1)[OF skel_child[OF 3(2) k] v])
  show ?case by (simp add: b c d)
qed

lemma subtree_skel:
  "skel t' = skel t \<Longrightarrow> valid_path t p \<Longrightarrow> skel (subtree_at t' p) = skel (subtree_at t p)"
proof (induction p arbitrary: t t')
  case Nil
  then show ?case by simp
next
  case (Cons k p)
  have k: "k < length (children t)" and v: "valid_path (children t ! k) p"
    using Cons.prems(2) by simp_all
  show ?case using Cons.IH[OF skel_child[OF Cons.prems(1) k] v] by simp
qed

lemma subtree_erase:
  "erase_PLm t' = erase_PLm t \<Longrightarrow> valid_path t p \<Longrightarrow>
   erase_PLm (subtree_at t' p) = erase_PLm (subtree_at t p)"
proof (induction p arbitrary: t t')
  case Nil
  then show ?case by simp
next
  case (Cons k p)
  have k: "k < length (children t)" and v: "valid_path (children t ! k) p"
    using Cons.prems(2) by simp_all
  show ?case using Cons.IH[OF erase_PLm_child[OF Cons.prems(1) k] v] by simp
qed

lemma subtree_in_postorder:
  "valid_path t p \<Longrightarrow> subtree_at t p \<in> set (traverse_postorder t)"
proof (induction p arbitrary: t)
  case Nil
  then show ?case by simp
next
  case (Cons k p)
  have k: "k < length (children t)" and v: "valid_path (children t ! k) p"
    using Cons.prems by simp_all
  have "children t ! k \<in> set (traverse_postorder t)"
    by (rule children_in_postorder) (use k in simp)
  from postorder_subtree[OF this] Cons.IH[OF v] show ?case by auto
qed

text \<open>The two passes of the caller, in rows.\<close>

lemma populate_rows:
  assumes sq: "square g mm" and ax: "geno_axis g PLs" and g: "g = ncols (concat PLs)"
      and ok: "populate_tree_PL t PLs mm attr = Inr t1"
  shows "skel t1 = skel t"
    and "getattr t1 attr = Inr (map (\<lambda>site. prune g mm site t) PLs)"
    and "\<forall>site \<in> set PLs. length (prune g mm site t) = g"
    and "\<forall>u \<in> set (traverse_postorder t1).
           attrs u attr = Some (map (\<lambda>site. prune g mm site u) PLs)
         \<and> (\<forall>site \<in> set PLs. length (prune g mm site u) = g)"
proof -
  have sq': "square (ncols (concat PLs)) mm" and ax': "geno_axis (ncols (concat PLs)) PLs"
    using sq ax g by simp_all
  have ok': "populate_node (length PLs) (ncols (concat PLs)) t PLs mm attr = Inr t1"
    using ok by (simp add: populate_tree_PL_def)
  show "skel t1 = skel t" by (rule populate_node_prune(1)[OF sq' ax' ok'])
  from populate_node_root[OF sq' ax' ok']
  show "getattr t1 attr = Inr (map (\<lambda>site. prune g mm site t) PLs)"
    and "\<forall>site \<in> set PLs. length (prune g mm site t) = g"
    by (simp_all add: getattr_def g shape2_def list_all_iff)
  from populate_node_prune(2)[OF sq' ax' ok']
  show "\<forall>u \<in> set (traverse_postorder t1).
           attrs u attr = Some (map (\<lambda>site. prune g mm site u) PLs)
         \<and> (\<forall>site \<in> set PLs. length (prune g mm site u) = g)"
    by (simp add: g shape2_def list_all_iff)
qed

lemma populate_ok_iff:
  assumes sq: "square g mm" and ax: "geno_axis g PLs" and g: "g = ncols (concat PLs)"
      and ne: "PLs \<noteq> []"
  shows "(\<exists>t1. populate_tree_PL t PLs mm attr = Inr t1) \<longleftrightarrow>
         (\<forall>site \<in> set PLs. prune_ok g mm site t)"
proof -
  have sq': "square (ncols (concat PLs)) mm" and ax': "geno_axis (ncols (concat PLs)) PLs"
    using sq ax g by simp_all
  show ?thesis
    unfolding populate_tree_PL_def g by (rule populate_node_ok_iff[OF sq' ax' ne])
qed

lemma ncols_rows:
  assumes "PLs \<noteq> []" "\<forall>site \<in> set PLs. length (F site) = g"
  shows "ncols (map F PLs) = g"
  using assms by (cases PLs) (simp_all add: ncols_def)

lemma calc_rows:
  assumes sq0: "square g mm0" and sq1: "square g mm1"
      and bin: "binary t2" and rows: "PL0_rows g mm0 PLs t2"
      and ne: "PLs \<noteq> []" and int: "\<not> is_leaf t2"
  shows "(\<exists>t3. calc_mut_likelihoods t2 mm0 mm1 = Inr t3) \<longleftrightarrow>
         (\<forall>site \<in> set PLs. \<forall>p \<in> set (descendant_paths t2). place_ok g mm0 mm1 site t2 p)"
    and "calc_mut_likelihoods t2 mm0 mm1 = Inr t3 \<Longrightarrow>
           erase_PLm t3 = erase_PLm t2
         \<and> get_PLm t3 = Inr (map (\<lambda>p. map (\<lambda>site. place g mm0 mm1 site t2 p) PLs)
                               (descendant_paths t2))"
proof -
  let ?n = "length PLs"
  let ?pl0 = "map (\<lambda>site. prune g mm0 site t2) PLs"
  have root: "t2 \<in> set (traverse_postorder t2)" by simp
  have a0: "attrs t2 ''PL0'' = Some ?pl0" by (rule PL0_rows_node(1)[OF rows root])
  have l0: "\<forall>site \<in> set PLs. length (prune g mm0 site t2) = g"
    by (rule PL0_rows_node(2)[OF rows root])
  have nc: "ncols ?pl0 = g" by (rule ncols_rows[OF ne l0])
  have calc: "calc_mut_likelihoods t2 mm0 mm1 = calc_node ?n g mm0 mm1 t2"
    by (simp add: calc_mut_likelihoods_def getattr_def a0 nc)
  have all: "all_PL0 ?n g t2"
    using rows by (auto simp: all_PL0_def PL0_rows_def list_all_iff shape2_def)
  have P: "\<And>p x. p \<in> set (descendant_paths t2) \<Longrightarrow>
             (placement mm0 mm1 t2 p = Inr x \<longleftrightarrow>
                (\<forall>site \<in> set PLs. place_ok g mm0 mm1 site t2 p)
              \<and> x = map (\<lambda>site. place g mm0 mm1 site t2 p) PLs)"
  proof -
    fix p x assume "p \<in> set (descendant_paths t2)"
    then have "p \<noteq> []" "valid_path t2 p" by (simp_all add: paths_valid(1))
    then show "placement mm0 mm1 t2 p = Inr x \<longleftrightarrow>
                (\<forall>site \<in> set PLs. place_ok g mm0 mm1 site t2 p)
              \<and> x = map (\<lambda>site. place g mm0 mm1 site t2 p) PLs"
      using placement_rows[OF sq0 sq1 bin rows] by blast
  qed
  show "(\<exists>t3. calc_mut_likelihoods t2 mm0 mm1 = Inr t3) \<longleftrightarrow>
         (\<forall>site \<in> set PLs. \<forall>p \<in> set (descendant_paths t2). place_ok g mm0 mm1 site t2 p)"
    unfolding calc calc_node_ok_iff[OF sq0 sq1 bin all] using P by blast
  show "erase_PLm t3 = erase_PLm t2
         \<and> get_PLm t3 = Inr (map (\<lambda>p. map (\<lambda>site. place g mm0 mm1 site t2 p) PLs)
                               (descendant_paths t2))"
    if c0: "calc_mut_likelihoods t2 mm0 mm1 = Inr t3"
  proof -
    have c: "calc_node ?n g mm0 mm1 t2 = Inr t3" using c0 calc by simp
    have e: "erase_PLm t3 = erase_PLm t2" by (rule calc_node_erase[OF c])
    from calc_node_placed[OF sq0 sq1 bin all c]
    have L: "list_all2 (\<lambda>p x. placement mm0 mm1 t3 p = Inr x \<and> shape2 ?n g x)
               (descendant_paths t3) (slabs t3)"
      and N: "\<not> is_leaf t3 \<longrightarrow> PLm t3 \<noteq> None" by simp_all
    have "\<not> is_leaf t3" using int erase_PLm_is_leaf[OF e] by simp
    with N obtain plm where plm: "PLm t3 = Some plm" "slabs t3 = plm"
      by (auto simp: slabs_def)
    have dp: "descendant_paths t3 = descendant_paths t2" by (rule descendant_paths_cong[OF e])
    have len: "length plm = length (descendant_paths t2)"
      using list_all2_lengthD[OF L] plm(2) dp by simp
    have "plm = map (\<lambda>p. map (\<lambda>site. place g mm0 mm1 site t2 p) PLs) (descendant_paths t2)"
    proof (rule nth_equalityI)
      show "length plm = length (map (\<lambda>p. map (\<lambda>site. place g mm0 mm1 site t2 p) PLs)
                                    (descendant_paths t2))"
        using len by simp
    next
      fix j assume j: "j < length plm"
      then have jp: "descendant_paths t2 ! j \<in> set (descendant_paths t2)" using len by simp
      from L j plm(2) dp
      have "placement mm0 mm1 t3 (descendant_paths t2 ! j) = Inr (plm ! j)"
        by (simp add: list_all2_conv_all_nth)
      then have "placement mm0 mm1 t2 (descendant_paths t2 ! j) = Inr (plm ! j)"
        using placement_erase[OF e] by simp
      with P[OF jp] have "plm ! j = map (\<lambda>site. place g mm0 mm1 site t2 (descendant_paths t2 ! j)) PLs"
        by blast
      then show "plm ! j = map (\<lambda>p. map (\<lambda>site. place g mm0 mm1 site t2 p) PLs)
                             (descendant_paths t2) ! j"
        using j len by simp
    qed
    then show ?thesis using e plm(1) by (simp add: get_PLm_def)
  qed
qed

lemma genotype_call_sites:
  "genotype PLs tree variants mm mm0 mm1 base_prior =
     ebind (populate_tree_PL (tree_copy tree) PLs mm ''PL'') (\<lambda>tree1.
     ebind (getattr tree1 ''PL'') (\<lambda>pl.
     ebind (add2_1 pl base_prior) (\<lambda>tree_PL.
     ebind (populate_tree_PL (tree_copy tree1) PLs mm0 ''PL0'') (\<lambda>tree2.
     ebind (getattr tree2 ''PL0'') (\<lambda>pl0.
     ebind (add2_1 pl0 base_prior) (\<lambda>tree_PL0.
     ebind (calc_mut_likelihoods (tree_copy tree2) mm0 mm1) (\<lambda>tree3.
     ebind (get_PLm tree3) (\<lambda>plm.
     ebind (iadd3_1 (swapaxes01 plm) base_prior) (\<lambda>mut_PLs.
     call_sites tree_PL tree_PL0 mut_PLs tree3 variants)))))))))"
  unfolding genotype_def call_sites_def ..

lemma ncols_concat_rows:
  assumes "PLs \<noteq> []" "ps \<noteq> []"
  shows "ncols (concat (map (\<lambda>site. map (F site) ps) PLs)) = length (F (hd PLs) (hd ps))"
  using assms by (cases PLs; cases ps) (simp_all add: ncols_def)

lemma sum_phred2p_pos: "xs \<noteq> [] \<Longrightarrow> 0 < sum_list (map phred2p xs)"
  by (rule sum_list_pos_real) auto

lemma length_concat_const:
  "\<forall>x \<in> set xs. length x = g \<Longrightarrow> length (concat xs) = length xs * g"
  by (induction xs) simp_all

lemma call_sites_rows:
  assumes ne: "PLs \<noteq> []" and dne: "descendant_paths tree \<noteq> []"
      and g1: "1 \<le> g" and g10: "g \<le> 10" and lp: "length base_prior = g"
      and lT: "\<forall>site \<in> set PLs. length (prune g mm site tree) = g"
      and lT0: "\<forall>site \<in> set PLs. length (prune g mm0 site tree) = g"
      and T: "TPL = map (\<lambda>site. map2 (+) (prune g mm site tree) base_prior) PLs"
      and T0: "TPL0 = map (\<lambda>site. map2 (+) (prune g mm0 site tree) base_prior) PLs"
      and M: "MPL = map (\<lambda>site. map (\<lambda>p. map2 (+) (place g mm0 mm1 site tree p) base_prior)
                                   (descendant_paths tree)) PLs"
      and nl: "length (iter_descendants tree3) = length (descendant_paths tree)"
      and nodes: "\<forall>k<length (descendant_paths tree).
                    getattr (iter_descendants tree3 ! k) ''PL0''
                      = Inr (map (\<lambda>site. prune g mm0 site (iter_descendants tree ! k)) PLs)
                  \<and> sid (iter_descendants tree3 ! k) = sid (iter_descendants tree ! k)
                  \<and> (\<forall>site \<in> set PLs. length (prune g mm0 site (iter_descendants tree ! k)) = g)"
      and nv: "length PLs \<le> length variants"
  shows "call_sites TPL TPL0 MPL tree3 variants =
           Inr (map2 (site_call g mm mm0 mm1 base_prior tree) PLs variants,
                \<Sum>r\<leftarrow>map2 (site_call g mm mm0 mm1 base_prior tree) PLs variants.
                   p2phred (mut_p r + null_p r))"
proof -
  define n where "n = length PLs"
  define ps where "ps = descendant_paths tree"
  define l where "l = length ps"
  have n0: "0 < n" using ne by (simp add: n_def)
  have l0: "0 < l" using dne by (simp add: l_def ps_def)
  have g0: "0 < g" using g1 by simp
  have site: "\<And>s. s < n \<Longrightarrow> PLs ! s \<in> set PLs" by (simp add: n_def)
  have lenT: "length TPL = n" "length TPL0 = n" "length MPL = n"
    by (simp_all add: T T0 M n_def)
  have rowT: "\<And>s. s < n \<Longrightarrow> TPL ! s = map2 (+) (prune g mm (PLs ! s) tree) base_prior"
    by (simp add: T n_def)
  have rowT0: "\<And>s. s < n \<Longrightarrow> TPL0 ! s = map2 (+) (prune g mm0 (PLs ! s) tree) base_prior"
    by (simp add: T0 n_def)
  have rowM: "\<And>s. s < n \<Longrightarrow>
      MPL ! s = map (\<lambda>p. map2 (+) (place g mm0 mm1 (PLs ! s) tree p) base_prior) ps"
    by (simp add: M n_def ps_def)
  have lrT: "\<And>s. s < n \<Longrightarrow> length (TPL ! s) = g"
    using lT lp site by (simp add: rowT)
  have lrT0: "\<And>s. s < n \<Longrightarrow> length (TPL0 ! s) = g"
    using lT0 lp site by (simp add: rowT0)
  have pne: "\<And>p. p \<in> set ps \<Longrightarrow> p \<noteq> []"
    using paths_nonempty(1)[of tree] by (simp add: ps_def)
  have lpl: "\<And>x p. p \<in> set ps \<Longrightarrow> length (map2 (+) (place g mm0 mm1 x tree p) base_prior) = g"
    using pne lp by (simp add: place_length)
  have lrM: "\<And>s. s < n \<Longrightarrow> length (MPL ! s) = l"
    by (simp add: rowM l_def)
  have leM: "\<And>s. s < n \<Longrightarrow> \<forall>x \<in> set (MPL ! s). length x = g"
    using lpl by (auto simp: rowM)
  have lcM: "\<And>s. s < n \<Longrightarrow> length (concat (MPL ! s)) = l * g"
    using length_concat_const[OF leM] lrM by simp
  have ncM: "ncols MPL = l"
    using ne by (cases PLs) (simp_all add: M ncols_def l_def ps_def)
  have hp: "hd ps \<in> set ps" using dne by (simp add: ps_def)
  have ncC: "ncols (concat MPL) = g"
    unfolding M
    using ncols_concat_rows[OF ne dne,
            of "\<lambda>site p. map2 (+) (place g mm0 mm1 site tree p) base_prior"]
          lpl[OF hp, of "hd PLs"]
    by (simp add: ps_def)

  define K where "K = map argmin_index TPL"
  have neT: "\<And>x. x \<in> set TPL \<Longrightarrow> x \<noteq> []"
    using lrT g0 lenT(1) by (fastforce simp: in_set_conv_nth)
  have e10: "mapE argmin TPL = Inr K"
    unfolding K_def by (rule mapE_total) (simp add: argmin_nonempty neT)
  define K0 where "K0 = map argmin_index TPL0"
  have neT0: "\<And>x. x \<in> set TPL0 \<Longrightarrow> x \<noteq> []"
    using lrT0 g0 lenT(2) by (fastforce simp: in_set_conv_nth)
  have e11: "mapE argmin TPL0 = Inr K0"
    unfolding K0_def by (rule mapE_total) (simp add: argmin_nonempty neT0)
  have lK0: "length K0 = n" by (simp add: K0_def lenT)
  have k0: "\<And>s. s < n \<Longrightarrow> K0 ! s = argmin_index (TPL0 ! s)"
    by (simp add: K0_def lenT)
  have k0b: "\<And>s. s < n \<Longrightarrow> K0 ! s < g"
  proof -
    fix s assume s: "s < n"
    have "TPL0 ! s \<noteq> []" using lrT0[OF s] g0 by auto
    from argmin_index_less[OF this] show "K0 ! s < g" using k0[OF s] lrT0[OF s] by simp
  qed
  define NPL where "NPL = map (\<lambda>i. TPL0 ! i ! (K0 ! i)) [0..<n]"
  have e12: "pick2 TPL0 [0..<n] K0 = Inr NPL"
    using pick2_in_range[of "[0..<n]" K0 TPL0] lK0 lenT(2) k0b lrT0
    by (simp add: NPL_def cong: map_cong)

  define K1 where "K1 = map (\<lambda>s. unravel_index (argmin_index (concat s)) (l, g)) MPL"
  have neC: "\<And>x. x \<in> set MPL \<Longrightarrow> concat x \<noteq> []"
  proof -
    fix x assume "x \<in> set MPL"
    then obtain s where s: "s < n" "x = MPL ! s" using lenT(3) by (auto simp: in_set_conv_nth)
    have "0 < length (concat (MPL ! s))" using lcM[OF s(1)] l0 g0 by simp
    then show "concat x \<noteq> []" using s(2) by auto
  qed
  have e13: "mapE (\<lambda>s. ebind (argmin (concat s)) (\<lambda>j. Inr (unravel_index j (l, g)))) MPL = Inr K1"
    unfolding K1_def
  proof (rule mapE_total)
    fix x assume "x \<in> set MPL"
    from argmin_nonempty[OF neC[OF this]]
    show "ebind (argmin (concat x)) (\<lambda>j. Inr (unravel_index j (l, g)))
        = Inr (unravel_index (argmin_index (concat x)) (l, g))"
      by (simp only: ebind_Inr)
  qed
  have K1ne: "K1 \<noteq> []" using n0 lenT(3) by (auto simp: K1_def)
  have lK1: "length K1 = n" by (simp add: K1_def lenT)
  have k1l: "\<And>s. s < n \<Longrightarrow> map fst K1 ! s = argmin_index (concat (MPL ! s)) div g"
    by (simp add: K1_def lenT unravel_index_def)
  have k1g: "\<And>s. s < n \<Longrightarrow> map snd K1 ! s = argmin_index (concat (MPL ! s)) mod g"
    by (simp add: K1_def lenT unravel_index_def)
  have k1lb: "\<And>s. s < n \<Longrightarrow> map fst K1 ! s < l"
  proof -
    fix s assume s: "s < n"
    have "concat (MPL ! s) \<noteq> []" using neC lenT(3) s by simp
    from argmin_index_less[OF this] have "argmin_index (concat (MPL ! s)) < l * g"
      using lcM[OF s] by simp
    then have "argmin_index (concat (MPL ! s)) div g < l"
      by (simp add: less_mult_imp_div_less)
    then show "map fst K1 ! s < l" using k1l[OF s] by simp
  qed
  have k1gb: "\<And>s. s < n \<Longrightarrow> map snd K1 ! s < g"
    using g0 by (simp add: k1g)
  define MP where "MP = map (\<lambda>i. MPL ! i ! (map fst K1 ! i) ! (map snd K1 ! i)) [0..<n]"
  have inM: "\<And>s. s < n \<Longrightarrow> length (MPL ! s ! (map fst K1 ! s)) = g"
  proof -
    fix s assume s: "s < n"
    have "MPL ! s ! (map fst K1 ! s) \<in> set (MPL ! s)" using k1lb[OF s] lrM[OF s] by simp
    with leM[OF s] show "length (MPL ! s ! (map fst K1 ! s)) = g" by blast
  qed
  have e14: "pick3 MPL [0..<n] (map fst K1) (map snd K1) = Inr MP"
    using pick3_in_range[of "[0..<n]" "map fst K1" "map snd K1" MPL] lK1 lenT(3) k1lb k1gb lrM inM
    by (simp add: MP_def cong: map_cong)

  define NPLs where
    "NPLs = map (\<lambda>k. map (\<lambda>site. prune g mm0 site (iter_descendants tree ! k)) PLs) [0..<l]"
  have e15: "mapE (\<lambda>node. getattr node ''PL0'') (iter_descendants tree3) = Inr NPLs"
    unfolding mapE_eq_Inr_iff using nl nodes by (simp add: NPLs_def l_def ps_def)
  define ROWS where "ROWS = map (\<lambda>i. NPLs ! (map fst K1 ! i) ! i) [0..<n]"
  have e16: "pick2 NPLs (map fst K1) [0..<n] = Inr ROWS"
    using pick2_in_range[of "map fst K1" "[0..<n]" NPLs] lK1 k1lb
    by (simp add: ROWS_def NPLs_def n_def cong: map_cong)
  have rows: "\<And>s. s < n \<Longrightarrow>
      ROWS ! s = prune g mm0 (PLs ! s) (iter_descendants tree ! (map fst K1 ! s))"
    using k1lb by (simp add: ROWS_def NPLs_def n_def)
  have lrows: "\<And>s. s < n \<Longrightarrow> length (ROWS ! s) = g"
    using nodes k1lb site by (simp add: rows l_def ps_def)
  have lROWS: "length ROWS = n" by (simp add: ROWS_def)
  define K2 where "K2 = map argmin_index ROWS"
  have neR: "\<And>x. x \<in> set ROWS \<Longrightarrow> x \<noteq> []"
    using lrows g0 lROWS by (fastforce simp: in_set_conv_nth)
  have e17: "mapE argmin ROWS = Inr K2"
    unfolding K2_def by (rule mapE_total) (simp add: argmin_nonempty neR)
  have k2: "\<And>s. s < n \<Longrightarrow> K2 ! s = argmin_index (ROWS ! s)"
    by (simp add: K2_def lROWS)
  have k2b: "\<And>s. s < n \<Longrightarrow> K2 ! s < g"
  proof -
    fix s assume s: "s < n"
    have "ROWS ! s \<noteq> []" using lrows[OF s] g0 by auto
    from argmin_index_less[OF this] show "K2 ! s < g" using k2[OF s] lrows[OF s] by simp
  qed

  define VS where "VS = map (\<lambda>k. variants ! k) [0..<n]"
  have e19: "pick variants [0..<n] = Inr VS"
    unfolding VS_def by (rule pick_in_range) (use nv in \<open>simp add: n_def\<close>)
  define TP where "TP = map (\<lambda>row. sum_list (map phred2p row)) TPL"
  have tp: "\<And>s. s < n \<Longrightarrow> TP ! s = sum_list (map phred2p (TPL ! s))"
    by (simp add: TP_def lenT)
  have lTP: "length TP = n" by (simp add: TP_def lenT)
  have tpos: "\<And>s. s < n \<Longrightarrow> 0 < TP ! s"
  proof -
    fix s assume s: "s < n"
    have "TPL ! s \<noteq> []" using lrT[OF s] g0 by auto
    then show "0 < TP ! s" unfolding tp[OF s] by (rule sum_phred2p_pos)
  qed
  have tnz: "\<forall>x \<in> set TP. x \<noteq> 0"
    using tpos lTP by (fastforce simp: in_set_conv_nth)
  define NP where "NP = map2 (/) (map (\<lambda>row. sum_list (map phred2p row)) TPL0) TP"
  have e20: "div_vec (map (\<lambda>row. sum_list (map phred2p row)) TPL0) TP = Inr NP"
    unfolding NP_def by (rule div_vec_nonzero[OF tnz])
  define MUP where "MUP = map2 (/) (map (\<lambda>s. sum_list (map phred2p (concat s))) MPL) TP"
  have e21: "div_vec (map (\<lambda>s. sum_list (map phred2p (concat s))) MPL) TP = Inr MUP"
    unfolding MUP_def by (rule div_vec_nonzero[OF tnz])
  define NB where "NB = map (\<lambda>k. GTYPE10 ! k) K0"
  have e22: "pick GTYPE10 K0 = Inr NB"
    unfolding NB_def
  proof (rule pick_in_range, rule ballI)
    fix k assume "k \<in> set K0"
    then obtain s where "s < n" "k = K0 ! s" using lK0 by (auto simp: in_set_conv_nth)
    then show "k < length GTYPE10" using k0b[of s] g10 by simp
  qed
  define NBP where "NBP = map2 (/) (map phred2p NPL) TP"
  have e23: "div_vec (map phred2p NPL) TP = Inr NBP"
    unfolding NBP_def by (rule div_vec_nonzero[OF tnz])
  define MB where "MB = map (\<lambda>k. GTYPE10 ! k) (map snd K1)"
  have e24: "pick GTYPE10 (map snd K1) = Inr MB"
    unfolding MB_def
  proof (rule pick_in_range, rule ballI)
    fix k assume "k \<in> set (map snd K1)"
    then obtain s where "s < n" "k = map snd K1 ! s" using lK1 by (auto simp: in_set_conv_nth)
    then show "k < length GTYPE10" using k1gb[of s] g10 by simp
  qed
  define MA where "MA = map (\<lambda>k. GTYPE10 ! k) K2"
  have lK2: "length K2 = n" by (simp add: K2_def lROWS)
  have e25: "pick GTYPE10 K2 = Inr MA"
    unfolding MA_def
  proof (rule pick_in_range, rule ballI)
    fix k assume "k \<in> set K2"
    then obtain s where "s < n" "k = K2 ! s" using lK2 by (auto simp: in_set_conv_nth)
    then show "k < length GTYPE10" using k2b[of s] g10 by simp
  qed
  define MCP where "MCP = map2 (/) (map phred2p MP) TP"
  have e26: "div_vec (map phred2p MP) TP = Inr MCP"
    unfolding MCP_def by (rule div_vec_nonzero[OF tnz])
  define SIDS where
    "SIDS = map (\<lambda>node. join '','' (map str_int (sid node))) (iter_descendants tree3)"
  define MS where "MS = map (\<lambda>k. SIDS ! k) (map fst K1)"
  have e27: "pick SIDS (map fst K1) = Inr MS"
    unfolding MS_def
  proof (rule pick_in_range, rule ballI)
    fix k assume "k \<in> set (map fst K1)"
    then obtain s where "s < n" "k = map fst K1 ! s" using lK1 by (auto simp: in_set_conv_nth)
    then show "k < length SIDS" using k1lb[of s] nl by (simp add: SIDS_def l_def ps_def)
  qed
  define RECS where "RECS = map (\<lambda>s.
           \<lparr> chrom = take 10 (fst (VS ! s)), pos = fst (snd (VS ! s)),
             ref = take 1 (snd (snd (VS ! s))),
             null_p = NP ! s, mut_p = MUP ! s,
             null_base = take 2 (NB ! s), null_base_p = NBP ! s,
             mut_base = take 2 (MB ! s), mut_alt = take 2 (MA ! s),
             mut_conf_p = MCP ! s, mut_loc = map fst K1 ! s,
             mut_smpl = take 128 (MS ! s) \<rparr>) [0..<n]"
  have np: "\<And>s. s < n \<Longrightarrow> NP ! s = sum_list (map phred2p (TPL0 ! s)) / TP ! s"
    by (simp add: NP_def lenT lTP)
  have mup: "\<And>s. s < n \<Longrightarrow> MUP ! s = sum_list (map phred2p (concat (MPL ! s))) / TP ! s"
    by (simp add: MUP_def lenT lTP)
  have nppos: "\<And>s. s < n \<Longrightarrow> 0 < NP ! s"
  proof -
    fix s assume s: "s < n"
    have "TPL0 ! s \<noteq> []" using lrT0[OF s] g0 by auto
    then have "0 < sum_list (map phred2p (TPL0 ! s))" by (rule sum_phred2p_pos)
    then show "0 < NP ! s" using tpos[OF s] by (simp add: np[OF s])
  qed
  have muppos: "\<And>s. s < n \<Longrightarrow> 0 < MUP ! s"
  proof -
    fix s assume s: "s < n"
    have "concat (MPL ! s) \<noteq> []" using neC lenT(3) s by simp
    then have "0 < sum_list (map phred2p (concat (MPL ! s)))" by (rule sum_phred2p_pos)
    then show "0 < MUP ! s" using tpos[OF s] by (simp add: mup[OF s])
  qed
  have e28: "p2phred_vec (map (\<lambda>r. mut_p r + null_p r) RECS)
           = Inr (map p2phred (map (\<lambda>r. mut_p r + null_p r) RECS))"
  proof (rule p2phred_vec_pos, rule ballI)
    fix x assume "x \<in> set (map (\<lambda>r. mut_p r + null_p r) RECS)"
    then obtain s where "s < n" "x = MUP ! s + NP ! s" by (auto simp: RECS_def)
    then show "0 < x" using nppos[of s] muppos[of s] by simp
  qed
  have run: "call_sites TPL TPL0 MPL tree3 variants
           = Inr (RECS, sum_list (map p2phred (map (\<lambda>r. mut_p r + null_p r) RECS)))"
    unfolding call_sites_def Let_def lenT ncM ncC
    by (simp only: e10 e11 e12 e13 e14 e15 e16 e17 e19 e20 e21 e22 e23 e24 e25 e26 e27 e28
          ebind_Inr K1ne if_False TP_def[symmetric] SIDS_def[symmetric] RECS_def[symmetric])
  have recs: "RECS = map2 (site_call g mm mm0 mm1 base_prior tree) PLs variants"
  proof (rule nth_equalityI)
    show "length RECS = length (map2 (site_call g mm mm0 mm1 base_prior tree) PLs variants)"
      using nv by (simp add: RECS_def n_def)
  next
    fix s assume "s < length RECS"
    then have s: "s < n" by (simp add: RECS_def)
    have sv: "s < length variants" using s nv by (simp add: n_def)
    have f1: "VS ! s = variants ! s" using s by (simp add: VS_def)
    have f2: "NB ! s = GTYPE10 ! argmin_index (TPL0 ! s)"
      using s lK0 k0[OF s] by (simp add: NB_def)
    have f3: "NBP ! s = phred2p (TPL0 ! s ! argmin_index (TPL0 ! s)) / TP ! s"
      using s lTP k0[OF s] by (simp add: NBP_def NPL_def)
    have f4: "MB ! s = GTYPE10 ! (argmin_index (concat (MPL ! s)) mod g)"
      using s lK1 k1g[OF s] by (simp add: MB_def)
    have f5: "MA ! s = GTYPE10 ! argmin_index (prune g mm0 (PLs ! s)
                (iter_descendants tree ! (argmin_index (concat (MPL ! s)) div g)))"
      using s lK2 k2[OF s] rows[OF s] k1l[OF s] by (simp add: MA_def)
    have f6: "MCP ! s = phred2p (MPL ! s ! (argmin_index (concat (MPL ! s)) div g)
                                       ! (argmin_index (concat (MPL ! s)) mod g)) / TP ! s"
      using s lTP k1l[OF s] k1g[OF s] by (simp add: MCP_def MP_def)
    have kb: "argmin_index (concat (MPL ! s)) div g < length (descendant_paths tree)"
      using k1lb[OF s] k1l[OF s] by (simp add: l_def ps_def)
    have f7: "MS ! s = join '','' (map str_int (sid
                (iter_descendants tree ! (argmin_index (concat (MPL ! s)) div g))))"
      using s lK1 k1l[OF s] kb nl nodes by (simp add: MS_def SIDS_def)
    have f8: "map fst K1 ! s = argmin_index (concat (MPL ! s)) div g" by (rule k1l[OF s])
    have "RECS ! s = site_call g mm mm0 mm1 base_prior tree (PLs ! s) (variants ! s)"
      using s
      by (simp add: RECS_def site_call_def Let_def f1 f2 f3 f4 f5 f6 f7 f8 np mup tp
            rowT[symmetric] rowT0[symmetric] rowM[symmetric, unfolded ps_def])
    then show "RECS ! s = map2 (site_call g mm mm0 mm1 base_prior tree) PLs variants ! s"
      using s sv by (simp add: n_def)
  qed
  show ?thesis unfolding run recs by (simp add: comp_def)
qed

lemma call_sites_variants:
  "call_sites TPL TPL0 MPL tree3 variants = Inr r \<Longrightarrow> length MPL \<le> length variants"
proof -
  assume "call_sites TPL TPL0 MPL tree3 variants = Inr r"
  then have "\<exists>vs. pick variants [0..<length MPL] = Inr vs"
    by (auto simp: call_sites_def Let_def ebind_eq_Inr split: if_splits)
  then show ?thesis by (simp only: pick_upt_ok)
qed

lemma internal_paths: "\<not> is_leaf t \<Longrightarrow> descendant_paths t \<noteq> []"
proof -
  assume "\<not> is_leaf t"
  then have "[0] \<in> {p. p \<noteq> [] \<and> valid_path t p}" by (simp add: is_leaf_def)
  then have "[0] \<in> set (descendant_paths t)" by (simp only: paths_valid(1))
  then show ?thesis by auto
qed

lemma not_Inr_Inl: "(\<nexists>x. m = Inr x) \<Longrightarrow> \<exists>e. m = Inl e"
  by (cases m) auto

lemma genotype_passes:
  assumes bin: "binary tree" and int: "\<not> is_leaf tree"
      and g: "g = ncols (concat PLs)" and ax: "geno_axis g PLs"
      and sq: "square g mm" and sq0: "square g mm0" and sq1: "square g mm1"
      and lp: "length base_prior = g" and ne: "PLs \<noteq> []"
  shows "if list_all (site_ok g mm mm0 mm1 tree) PLs
         then \<exists>tree1 tree2 tree3.
                populate_tree_PL tree PLs mm ''PL'' = Inr tree1
              \<and> attrs tree1 ''PL'' = Some (map (\<lambda>site. prune g mm site tree) PLs)
              \<and> populate_tree_PL tree1 PLs mm0 ''PL0'' = Inr tree2
              \<and> skel tree2 = skel tree \<and> PL0_rows g mm0 PLs tree2
              \<and> calc_mut_likelihoods tree2 mm0 mm1 = Inr tree3
              \<and> erase_PLm tree3 = erase_PLm tree2
              \<and> PLm tree3 = Some (map (\<lambda>p. map (\<lambda>site. place g mm0 mm1 site tree p) PLs)
                                      (descendant_paths tree))
              \<and> genotype PLs tree variants mm mm0 mm1 base_prior
                  = call_sites (map (\<lambda>site. map2 (+) (prune g mm site tree) base_prior) PLs)
                      (map (\<lambda>site. map2 (+) (prune g mm0 site tree) base_prior) PLs)
                      (map (\<lambda>site. map (\<lambda>p. map2 (+) (place g mm0 mm1 site tree p) base_prior)
                                   (descendant_paths tree)) PLs)
                      tree3 variants
              \<and> length (iter_descendants tree3) = length (descendant_paths tree)
              \<and> (\<forall>k<length (descendant_paths tree).
                    getattr (iter_descendants tree3 ! k) ''PL0''
                      = Inr (map (\<lambda>site. prune g mm0 site (iter_descendants tree ! k)) PLs)
                  \<and> sid (iter_descendants tree3 ! k) = sid (iter_descendants tree ! k)
                  \<and> (\<forall>site \<in> set PLs. length (prune g mm0 site (iter_descendants tree ! k)) = g))
              \<and> (\<forall>site \<in> set PLs. length (prune g mm site tree) = g)
              \<and> (\<forall>site \<in> set PLs. length (prune g mm0 site tree) = g)
         else \<exists>e. genotype PLs tree variants mm mm0 mm1 base_prior = Inl e"
proof -
  let ?G = "genotype PLs tree variants mm mm0 mm1 base_prior"
  let ?ps = "descendant_paths tree"
  have ok: "list_all (site_ok g mm mm0 mm1 tree) PLs \<longleftrightarrow>
              (\<forall>site \<in> set PLs. prune_ok g mm site tree)
            \<and> (\<forall>site \<in> set PLs. prune_ok g mm0 site tree)
            \<and> (\<forall>site \<in> set PLs. \<forall>p \<in> set ?ps. place_ok g mm0 mm1 site tree p)"
    by (auto simp: site_ok_def list_all_iff)
  show ?thesis
  proof (cases "\<exists>tree1. populate_tree_PL tree PLs mm ''PL'' = Inr tree1")
    case False
    then obtain e where "populate_tree_PL tree PLs mm ''PL'' = Inl e"
      using not_Inr_Inl by blast
    then have "?G = Inl e" by (simp add: genotype_call_sites tree_copy_def)
    then have fails: "\<exists>e. ?G = Inl e" ..
    have "\<not> (\<forall>site \<in> set PLs. prune_ok g mm site tree)"
      using False populate_ok_iff[OF sq ax g ne] by simp
    then have no: "\<not> list_all (site_ok g mm mm0 mm1 tree) PLs" using ok by blast
    show ?thesis unfolding if_not_P[OF no] by (rule fails)
  next
    case True
    then obtain tree1 where s1: "populate_tree_PL tree PLs mm ''PL'' = Inr tree1" ..
    have p1: "\<forall>site \<in> set PLs. prune_ok g mm site tree"
      using True populate_ok_iff[OF sq ax g ne] by simp
    note R1 = populate_rows[OF sq ax g s1]
    have s2: "getattr tree1 ''PL'' = Inr (map (\<lambda>site. prune g mm site tree) PLs)" by (rule R1(2))
    have lT: "\<forall>site \<in> set PLs. length (prune g mm site tree) = g" by (rule R1(3))
    have s3: "add2_1 (map (\<lambda>site. prune g mm site tree) PLs) base_prior
            = Inr (map (\<lambda>site. map2 (+) (prune g mm site tree) base_prior) PLs)"
      by (rule add2_1_rows) (use lT lp in simp)
    show ?thesis
    proof (cases "\<exists>tree2. populate_tree_PL tree1 PLs mm0 ''PL0'' = Inr tree2")
      case False
      then obtain e where "populate_tree_PL tree1 PLs mm0 ''PL0'' = Inl e"
        using not_Inr_Inl by blast
      then have "?G = Inl e" by (simp add: genotype_call_sites tree_copy_def s1 s2 s3)
      then have fails: "\<exists>e. ?G = Inl e" ..
      have "\<not> (\<forall>site \<in> set PLs. prune_ok g mm0 site tree)"
        using False populate_ok_iff[OF sq0 ax g ne, of tree1 "''PL0''"]
        by (simp add: prune_ok_skel[OF R1(1)])
      then have no: "\<not> list_all (site_ok g mm mm0 mm1 tree) PLs" using ok by blast
      show ?thesis unfolding if_not_P[OF no] by (rule fails)
    next
      case True
      then obtain tree2 where s4: "populate_tree_PL tree1 PLs mm0 ''PL0'' = Inr tree2" ..
      have p2: "\<forall>site \<in> set PLs. prune_ok g mm0 site tree"
        using True populate_ok_iff[OF sq0 ax g ne, of tree1 "''PL0''"]
        by (simp add: prune_ok_skel[OF R1(1)])
      note R2 = populate_rows[OF sq0 ax g s4]
      have sk2: "skel tree2 = skel tree" using R2(1) R1(1) by simp
      have s5: "getattr tree2 ''PL0'' = Inr (map (\<lambda>site. prune g mm0 site tree) PLs)"
        using R2(2) by (simp add: prune_skel[OF R1(1)])
      have lT0: "\<forall>site \<in> set PLs. length (prune g mm0 site tree) = g"
        using R2(3) by (simp add: prune_skel[OF R1(1)])
      have s6: "add2_1 (map (\<lambda>site. prune g mm0 site tree) PLs) base_prior
              = Inr (map (\<lambda>site. map2 (+) (prune g mm0 site tree) base_prior) PLs)"
        by (rule add2_1_rows) (use lT0 lp in simp)
      have rows: "PL0_rows g mm0 PLs tree2"
        using R2(4) by (simp add: PL0_rows_def list_all_iff)
      have bin2: "binary tree2" using bin binary_skel[OF sk2] by simp
      have int2: "\<not> is_leaf tree2" using int is_leaf_skel[OF sk2] by simp
      have dp2: "descendant_paths tree2 = ?ps" by (rule descendant_paths_skel[OF sk2])
      have val: "\<And>p. p \<in> set ?ps \<Longrightarrow> valid_path tree p"
        by (simp add: paths_valid(1))
      have pl2: "\<And>site p. p \<in> set ?ps \<Longrightarrow>
                   place g mm0 mm1 site tree2 p = place g mm0 mm1 site tree p"
        by (rule place_skel[OF sk2 val])
      have pk2: "\<And>site p. p \<in> set ?ps \<Longrightarrow>
                   place_ok g mm0 mm1 site tree2 p = place_ok g mm0 mm1 site tree p"
        by (rule place_ok_skel[OF sk2 val])
      note C = calc_rows[OF sq0 sq1 bin2 rows ne int2]
      have Ciff: "(\<exists>t3. calc_mut_likelihoods tree2 mm0 mm1 = Inr t3) \<longleftrightarrow>
                  (\<forall>site \<in> set PLs. \<forall>p \<in> set ?ps. place_ok g mm0 mm1 site tree p)"
        unfolding C(1) dp2 using pk2 by simp
      show ?thesis
      proof (cases "\<exists>tree3. calc_mut_likelihoods tree2 mm0 mm1 = Inr tree3")
        case False
        then obtain e where "calc_mut_likelihoods tree2 mm0 mm1 = Inl e"
          using not_Inr_Inl by blast
        then have "?G = Inl e"
          by (simp add: genotype_call_sites tree_copy_def s1 s2 s3 s4 s5 s6)
        then have fails: "\<exists>e. ?G = Inl e" ..
        have "\<not> (\<forall>site \<in> set PLs. \<forall>p \<in> set ?ps. place_ok g mm0 mm1 site tree p)"
          using False Ciff by simp
        then have no: "\<not> list_all (site_ok g mm mm0 mm1 tree) PLs" using ok by blast
        show ?thesis unfolding if_not_P[OF no] by (rule fails)
      next
        case True
        then obtain tree3 where s7: "calc_mut_likelihoods tree2 mm0 mm1 = Inr tree3" ..
        have p3: "\<forall>site \<in> set PLs. \<forall>p \<in> set ?ps. place_ok g mm0 mm1 site tree p"
          using True Ciff by simp
        have e3: "erase_PLm tree3 = erase_PLm tree2" using C(2)[OF s7] by simp
        have "get_PLm tree3 = Inr (map (\<lambda>p. map (\<lambda>site. place g mm0 mm1 site tree2 p) PLs) ?ps)"
          using C(2)[OF s7] dp2 by simp
        also have "map (\<lambda>p. map (\<lambda>site. place g mm0 mm1 site tree2 p) PLs) ?ps
                 = map (\<lambda>p. map (\<lambda>site. place g mm0 mm1 site tree p) PLs) ?ps"
          using pl2 by simp
        finally have s8: "get_PLm tree3
                        = Inr (map (\<lambda>p. map (\<lambda>site. place g mm0 mm1 site tree p) PLs) ?ps)" .
        have dne: "?ps \<noteq> []" by (rule internal_paths[OF int])
        have sw: "swapaxes01 (map (\<lambda>p. map (\<lambda>site. place g mm0 mm1 site tree p) PLs) ?ps)
                = map (\<lambda>site. map (place g mm0 mm1 site tree) ?ps) PLs"
          by (rule swapaxes01_rows[OF dne])
        have s9: "iadd3_1 (map (\<lambda>site. map (place g mm0 mm1 site tree) ?ps) PLs) base_prior
                = Inr (map (\<lambda>site. map (\<lambda>p. map2 (+) (place g mm0 mm1 site tree p) base_prior)
                                     ?ps) PLs)"
          by (rule iadd3_1_rows) (use paths_nonempty(1)[of tree] lp in \<open>simp add: place_length\<close>)
        have G: "?G = call_sites (map (\<lambda>site. map2 (+) (prune g mm site tree) base_prior) PLs)
                      (map (\<lambda>site. map2 (+) (prune g mm0 site tree) base_prior) PLs)
                      (map (\<lambda>site. map (\<lambda>p. map2 (+) (place g mm0 mm1 site tree p) base_prior)
                                   ?ps) PLs)
                      tree3 variants"
          by (simp add: genotype_call_sites tree_copy_def s1 s2 s3 s4 s5 s6 s7 s8 sw s9)
        have dp3: "descendant_paths tree3 = ?ps"
          using descendant_paths_cong[OF e3] dp2 by simp
        have nl: "length (iter_descendants tree3) = length ?ps"
          by (simp add: paths_subtrees dp3)
        have nodes: "\<forall>k<length ?ps.
                    getattr (iter_descendants tree3 ! k) ''PL0''
                      = Inr (map (\<lambda>site. prune g mm0 site (iter_descendants tree ! k)) PLs)
                  \<and> sid (iter_descendants tree3 ! k) = sid (iter_descendants tree ! k)
                  \<and> (\<forall>site \<in> set PLs. length (prune g mm0 site (iter_descendants tree ! k)) = g)"
        proof (intro allI impI)
          fix k assume k: "k < length ?ps"
          let ?p = "?ps ! k"
          have pin: "?p \<in> set ?ps" using k by simp
          have v: "valid_path tree ?p" by (rule val[OF pin])
          have v2: "valid_path tree2 ?p"
            using pin paths_valid(1)[of tree2] dp2 by simp
          have n3: "iter_descendants tree3 ! k = subtree_at tree3 ?p"
            using k by (simp add: paths_subtrees dp3)
          have n0: "iter_descendants tree ! k = subtree_at tree ?p"
            using k by (simp add: paths_subtrees)
          have er: "erase_PLm (subtree_at tree3 ?p) = erase_PLm (subtree_at tree2 ?p)"
            by (rule subtree_erase[OF e3 v2])
          have sk: "skel (subtree_at tree2 ?p) = skel (subtree_at tree ?p)"
            by (rule subtree_skel[OF sk2 v])
          have inp: "subtree_at tree2 ?p \<in> set (traverse_postorder tree2)"
            by (rule subtree_in_postorder[OF v2])
          have a: "getattr (subtree_at tree3 ?p) ''PL0''
                 = Inr (map (\<lambda>site. prune g mm0 site (subtree_at tree ?p)) PLs)"
            using PL0_rows_node(1)[OF rows inp] erase_PLm_attrs[OF er]
            by (simp add: getattr_def prune_skel[OF sk])
          have b: "sid (subtree_at tree3 ?p) = sid (subtree_at tree ?p)"
            using erase_PLm_sid[OF er] skel_sid[OF sk] by simp
          have c: "\<forall>site \<in> set PLs. length (prune g mm0 site (subtree_at tree ?p)) = g"
            using PL0_rows_node(2)[OF rows inp] by (simp add: prune_skel[OF sk])
          show "getattr (iter_descendants tree3 ! k) ''PL0''
                      = Inr (map (\<lambda>site. prune g mm0 site (iter_descendants tree ! k)) PLs)
                  \<and> sid (iter_descendants tree3 ! k) = sid (iter_descendants tree ! k)
                  \<and> (\<forall>site \<in> set PLs. length (prune g mm0 site (iter_descendants tree ! k)) = g)"
            unfolding n3 n0 using a b c by simp
        qed
        have yes: "list_all (site_ok g mm mm0 mm1 tree) PLs" using ok p1 p2 p3 by blast
        have a1: "attrs tree1 ''PL'' = Some (map (\<lambda>site. prune g mm site tree) PLs)"
          using s2 by (simp add: getattr_def split: option.splits)
        have a3: "PLm tree3 = Some (map (\<lambda>p. map (\<lambda>site. place g mm0 mm1 site tree p) PLs)
                                      (descendant_paths tree))"
          using s8 by (simp add: get_PLm_def split: option.splits)
        have "\<exists>tree1 tree2 tree3.
                populate_tree_PL tree PLs mm ''PL'' = Inr tree1
              \<and> attrs tree1 ''PL'' = Some (map (\<lambda>site. prune g mm site tree) PLs)
              \<and> populate_tree_PL tree1 PLs mm0 ''PL0'' = Inr tree2
              \<and> skel tree2 = skel tree \<and> PL0_rows g mm0 PLs tree2
              \<and> calc_mut_likelihoods tree2 mm0 mm1 = Inr tree3
              \<and> erase_PLm tree3 = erase_PLm tree2
              \<and> PLm tree3 = Some (map (\<lambda>p. map (\<lambda>site. place g mm0 mm1 site tree p) PLs)
                                      (descendant_paths tree))
              \<and> ?G = call_sites (map (\<lambda>site. map2 (+) (prune g mm site tree) base_prior) PLs)
                      (map (\<lambda>site. map2 (+) (prune g mm0 site tree) base_prior) PLs)
                      (map (\<lambda>site. map (\<lambda>p. map2 (+) (place g mm0 mm1 site tree p) base_prior)
                                   (descendant_paths tree)) PLs)
                      tree3 variants
              \<and> length (iter_descendants tree3) = length (descendant_paths tree)
              \<and> (\<forall>k<length (descendant_paths tree).
                    getattr (iter_descendants tree3 ! k) ''PL0''
                      = Inr (map (\<lambda>site. prune g mm0 site (iter_descendants tree ! k)) PLs)
                  \<and> sid (iter_descendants tree3 ! k) = sid (iter_descendants tree ! k)
                  \<and> (\<forall>site \<in> set PLs. length (prune g mm0 site (iter_descendants tree ! k)) = g))
              \<and> (\<forall>site \<in> set PLs. length (prune g mm site tree) = g)
              \<and> (\<forall>site \<in> set PLs. length (prune g mm0 site tree) = g)"
          using s1 a1 s4 sk2 rows s7 e3 a3 G nl nodes lT lT0 by blast
        then show ?thesis unfolding if_P[OF yes] .
      qed
    qed
  qed
qed

lemma genotype_by_site_eq:
  assumes bin: "binary tree" and int: "\<not> is_leaf tree"
      and g: "g = ncols (concat PLs)" and ax: "geno_axis g PLs"
      and sq: "square g mm" and sq0: "square g mm0" and sq1: "square g mm1"
      and lp: "length base_prior = g" and g1: "1 \<le> g" and g10: "g \<le> 10"
  shows "genotype PLs tree variants mm mm0 mm1 base_prior = Inr r \<longleftrightarrow>
         genotype_by_site g PLs tree variants mm mm0 mm1 base_prior = Some r"
proof -
  let ?G = "genotype PLs tree variants mm mm0 mm1 base_prior"
  let ?R = "map2 (site_call g mm mm0 mm1 base_prior tree) PLs variants"
  have ne: "PLs \<noteq> []" using g g1 by (auto simp: ncols_def)
  note P = genotype_passes[OF bin int g ax sq sq0 sq1 lp ne, of variants]
  show ?thesis
  proof (cases "list_all (site_ok g mm mm0 mm1 tree) PLs")
    case False
    with P obtain e where "?G = Inl e" by auto
    then show ?thesis using False by (simp add: genotype_by_site_def)
  next
    case True
    with P obtain tree1 tree2 tree3 where
          G: "?G = call_sites (map (\<lambda>site. map2 (+) (prune g mm site tree) base_prior) PLs)
                      (map (\<lambda>site. map2 (+) (prune g mm0 site tree) base_prior) PLs)
                      (map (\<lambda>site. map (\<lambda>p. map2 (+) (place g mm0 mm1 site tree p) base_prior)
                                   (descendant_paths tree)) PLs)
                      tree3 variants"
      and nl: "length (iter_descendants tree3) = length (descendant_paths tree)"
      and nodes: "\<forall>k<length (descendant_paths tree).
                    getattr (iter_descendants tree3 ! k) ''PL0''
                      = Inr (map (\<lambda>site. prune g mm0 site (iter_descendants tree ! k)) PLs)
                  \<and> sid (iter_descendants tree3 ! k) = sid (iter_descendants tree ! k)
                  \<and> (\<forall>site \<in> set PLs. length (prune g mm0 site (iter_descendants tree ! k)) = g)"
      and lT: "\<forall>site \<in> set PLs. length (prune g mm site tree) = g"
      and lT0: "\<forall>site \<in> set PLs. length (prune g mm0 site tree) = g"
      by (simp only: if_True) blast
    show ?thesis
    proof (cases "length PLs \<le> length variants")
      case False
      have "?G \<noteq> Inr r"
      proof
        assume "?G = Inr r"
        from call_sites_variants[OF this[unfolded G]] False show False by simp
      qed
      then show ?thesis using False by (simp add: genotype_by_site_def)
    next
      case nv: True
      have "?G = Inr (?R, \<Sum>r\<leftarrow>?R. p2phred (mut_p r + null_p r))"
        unfolding G
        by (rule call_sites_rows[OF ne internal_paths[OF int] g1 g10 lp lT lT0 refl refl refl
                                   nl nodes nv])
      then show ?thesis using True nv ne by (auto simp: genotype_by_site_def Let_def)
    qed
  qed
qed

section \<open>Properties of the site caller\<close>

lemma argmin_from_min:
  "xs = drop i ys \<Longrightarrow> bi < i \<Longrightarrow> i \<le> length ys \<Longrightarrow> best = ys ! bi \<Longrightarrow>
   \<forall>k<i. ys ! bi \<le> ys ! k \<Longrightarrow>
   \<forall>k<length ys. ys ! (argmin_from best bi i xs) \<le> ys ! k"
proof (induction xs arbitrary: best bi i)
  case Nil
  then have "i = length ys" by simp
  with Nil show ?case by simp
next
  case (Cons x xs)
  have i: "i < length ys" using Cons.prems(1) by (metis drop_all list.distinct(1) not_less)
  have x: "x = ys ! i" using Cons.prems(1) i by (metis hd_drop_conv_nth list.sel(1))
  have xs: "xs = drop (Suc i) ys" using Cons.prems(1) by (metis drop_Suc list.sel(3) tl_drop)
  show ?case
  proof (cases "x < best")
    case True
    have "\<forall>k<Suc i. ys ! i \<le> ys ! k"
    proof (intro allI impI)
      fix k assume "k < Suc i"
      then consider "k < i" | "k = i" by (auto simp: less_Suc_eq)
      then show "ys ! i \<le> ys ! k"
      proof cases
        case 1
        then have "ys ! bi \<le> ys ! k" using Cons.prems(5) by simp
        then show ?thesis using True x Cons.prems(4) by simp
      next
        case 2
        then show ?thesis by simp
      qed
    qed
    from Cons.IH[OF xs _ _ x this] i True show ?thesis by simp
  next
    case False
    have "\<forall>k<Suc i. ys ! bi \<le> ys ! k"
      using Cons.prems(5) False x Cons.prems(4) by (auto simp: less_Suc_eq)
    from Cons.IH[OF xs _ _ Cons.prems(4) this] i Cons.prems(2) False show ?thesis by simp
  qed
qed

lemma argmin_index_min:
  assumes "xs \<noteq> []" "k < length xs"
  shows "xs ! argmin_index xs \<le> xs ! k"
proof -
  have "\<forall>k<length xs. xs ! (argmin_from (xs ! 0) 0 1 (drop 1 xs)) \<le> xs ! k"
    by (rule argmin_from_min) (use assms(1) in \<open>auto simp: Suc_le_eq\<close>)
  then show ?thesis using assms by (simp add: argmin_index_def hd_conv_nth drop_Suc)
qed

text \<open>With matrices of positive columns no site raises.\<close>

lemma tr_ok_positive: "positive_cols g mm \<Longrightarrow> tr_ok g mm v"
  by (simp add: tr_ok_iff prob_dot_pos)

lemma prune_ok_positive:
  "positive_cols g mm \<Longrightarrow> leaves_in (length site) t \<Longrightarrow> prune_ok g mm site t"
proof (induction t)
  case (Node s a p cs)
  show ?case
  proof (cases "cs = []")
    case True
    with Node.prems(2) show ?thesis by simp
  next
    case False
    have "\<forall>c \<in> set cs. prune_ok g mm site c"
      using Node.IH Node.prems False by (simp add: list_all_iff)
    then show ?thesis using False tr_ok_positive[OF Node.prems(1)] by (simp add: list_all_iff)
  qed
qed

lemma place_ok_positive:
  "positive_cols g mm0 \<Longrightarrow> positive_cols g mm1 \<Longrightarrow> p \<noteq> [] \<Longrightarrow>
   place_ok g mm0 mm1 site t p"
  by (induction g mm0 mm1 site t p rule: place_ok.induct) (simp_all add: tr_ok_positive)

lemma site_ok_positive:
  assumes "positive_cols g mm" "positive_cols g mm0" "positive_cols g mm1"
      and "leaves_in (length site) tree"
  shows "site_ok g mm mm0 mm1 tree site"
  using assms paths_nonempty(1)[of tree]
  by (simp add: site_ok_def prune_ok_positive place_ok_positive list_all_iff)

lemma ncols_concat_rect:
  assumes "PLs \<noteq> []" "list_all (\<lambda>site. length site = m) PLs" "0 < m" "geno_axis g PLs"
  shows "ncols (concat PLs) = g"
proof -
  obtain site rest where P: "PLs = site # rest" using assms(1) by (cases PLs) auto
  with assms(2,3) obtain v vs where s: "site = v # vs" by (cases site) auto
  show ?thesis using assms(4) P s by (simp add: ncols_def geno_axis_def)
qed

text \<open>Sums over lists as sums over indices.\<close>

lemma sum_phred2p_added:
  assumes "length v = g" "length w = g"
  shows "sum_list (map phred2p (map2 (+) v w)) = (\<Sum>j<g. phred2p (v ! j + w ! j))"
proof -
  have "sum_list (map phred2p (map2 (+) v w))
      = (\<Sum>j = 0..<g. map phred2p (map2 (+) v w) ! j)"
    using assms by (simp add: sum_list_sum_nth)
  also have "\<dots> = (\<Sum>j = 0..<g. phred2p (v ! j + w ! j))"
    by (rule sum.cong) (use assms in simp_all)
  finally show ?thesis by (simp add: atLeast0LessThan)
qed

lemma sum_list_map_concat:
  fixes f :: "'a \<Rightarrow> real"
  shows "sum_list (map f (concat xss)) = sum_list (map (\<lambda>xs. sum_list (map f xs)) xss)"
  by (induction xss) simp_all

lemma sum_phred2p_slabs:
  assumes "\<forall>p \<in> set ps. length (F p) = g" "length w = g"
  shows "sum_list (map phred2p (concat (map (\<lambda>p. map2 (+) (F p) w) ps)))
       = (\<Sum>l<length ps. \<Sum>j<g. phred2p (F (ps ! l) ! j + w ! j))"
proof -
  have "sum_list (map phred2p (concat (map (\<lambda>p. map2 (+) (F p) w) ps)))
      = sum_list (map (\<lambda>p. sum_list (map phred2p (map2 (+) (F p) w))) ps)"
    by (simp add: sum_list_map_concat comp_def)
  also have "\<dots> = sum_list (map (\<lambda>p. \<Sum>j<g. phred2p (F p ! j + w ! j)) ps)"
  proof (rule arg_cong[where f = sum_list], rule map_cong)
    fix p assume "p \<in> set ps"
    then have "length (F p) = g" using assms(1) by blast
    then show "sum_list (map phred2p (map2 (+) (F p) w)) = (\<Sum>j<g. phred2p (F p ! j + w ! j))"
      by (rule sum_phred2p_added) (rule assms(2))
  qed simp
  also have "\<dots> = (\<Sum>l = 0..<length ps. (\<Sum>j<g. phred2p (F (ps ! l) ! j + w ! j)))"
    by (simp add: sum_list_sum_nth) 
  finally show ?thesis by (simp add: atLeast0LessThan)
qed

lemma GTYPE10_take2: "k < 10 \<Longrightarrow> take 2 (GTYPE10 ! k) = GTYPE10 ! k"
proof -
  assume "k < 10"
  then have "k \<in> {0,1,2,3,4,5,6,7,8,9}" by auto
  then show ?thesis by (auto simp: GTYPE10_def)
qed

lemma site_call_loc:
  assumes "descendant_paths tree \<noteq> []" "0 < g" "length base_prior = g"
  shows "mut_loc (site_call g mm mm0 mm1 base_prior tree site v) < length (descendant_paths tree)"
proof -
  let ?ps = "descendant_paths tree"
  let ?M = "map (\<lambda>p. map2 (+) (place g mm0 mm1 site tree p) base_prior) ?ps"
  have "\<forall>x \<in> set ?M. length x = g"
    using paths_nonempty(1)[of tree] assms(3) by (auto simp: place_length)
  from length_concat_const[OF this] have l: "length (concat ?M) = length ?ps * g" by simp
  have "0 < length ?ps * g" using assms(1,2) by simp
  then have "0 < length (concat ?M)" by (simp only: l)
  then have "concat ?M \<noteq> []" using length_greater_0_conv[of "concat ?M"] by blast
  from argmin_index_less[OF this] have "argmin_index (concat ?M) < length ?ps * g"
    using l by simp
  then have "argmin_index (concat ?M) div g < length ?ps"
    by (simp add: less_mult_imp_div_less)
  then show ?thesis by (simp add: site_call_def Let_def)
qed


lemma genotype_Inr_by_site:
  assumes bin: "binary tree" and int: "\<not> is_leaf tree"
      and g: "g = ncols (concat PLs)" and ax: "geno_axis g PLs"
      and sq: "square g mm" and sq0: "square g mm0" and sq1: "square g mm1"
      and lp: "length base_prior = g" and g1: "1 \<le> g" and g10: "g \<le> 10"
      and run: "genotype PLs tree variants mm mm0 mm1 base_prior = Inr (records, score)"
  shows "PLs \<noteq> []" and "length PLs \<le> length variants"
    and "list_all (site_ok g mm mm0 mm1 tree) PLs"
    and "records = map2 (site_call g mm mm0 mm1 base_prior tree) PLs variants"
    and "score = (\<Sum>r\<leftarrow>records. p2phred (mut_p r + null_p r))"
proof -
  from run genotype_by_site_eq[OF bin int g ax sq sq0 sq1 lp g1 g10, of variants "(records, score)"]
  have S: "genotype_by_site g PLs tree variants mm mm0 mm1 base_prior = Some (records, score)"
    by simp
  then have c: "PLs \<noteq> [] \<and> length PLs \<le> length variants
      \<and> list_all (site_ok g mm mm0 mm1 tree) PLs"
    by (simp add: genotype_by_site_def split: if_splits)
  then show "PLs \<noteq> []" "length PLs \<le> length variants"
    "list_all (site_ok g mm mm0 mm1 tree) PLs" by simp_all
  from S c show r: "records = map2 (site_call g mm mm0 mm1 base_prior tree) PLs variants"
    by (simp add: genotype_by_site_def Let_def)
  from S c show "score = (\<Sum>r\<leftarrow>records. p2phred (mut_p r + null_p r))"
    unfolding r by (simp add: genotype_by_site_def Let_def)
qed


lemma genotype_leaf_raises:
  assumes "is_leaf tree" "PLm tree = None"
  shows "genotype PLs tree variants mm mm0 mm1 base_prior \<noteq> Inr r"
proof -
  obtain s a where t: "tree = Node s a None []"
    using assms by (cases tree) (simp add: is_leaf_def)
  show ?thesis
    unfolding t genotype_call_sites
    by (auto simp: ebind_eq_Inr populate_tree_PL_def tree_copy_def calc_mut_likelihoods_def
          get_PLm_def getattr_def split: option.splits)
qed

lemma phred2p_numerals:
  "phred2p 20 = 1 / 100" "phred2p 30 = 1 / 1000" "phred2p 40 = 1 / 10000"
  "phred2p 50 = 1 / 100000" "phred2p 80 = 1 / 100000000"
  by (simp_all add: phred2p_def powr_minus)

lemma tr_unit: "tr 2 [[1, 0], [0, 1]] [a, b] = [a, b]"
  by (simp add: tr_def prob_dot_def upt_2 numeral_2_eq_2 p2phred_phred2p)

lemma tr_swap: "tr 2 [[0, 1], [1, 0]] [a, b] = [b, a]"
  by (simp add: tr_def prob_dot_def upt_2 numeral_2_eq_2 p2phred_phred2p)

lemma tr_tenth: "tr 2 [[1/10, 0], [0, 1/10]] [a, b] = [a + 10, b + 10]"
  by (simp add: tr_def prob_dot_def upt_2 numeral_2_eq_2 p2phred_def phred2p_def log_divide
        log_powr algebra_simps)


text \<open>
  An example: three samples, two genotypes, one site; the tree \<open>((0, 1), 2)\<close>; \<open>mm\<close> a tenth
  of the unit matrix, \<open>mm0\<close> the unit matrix, \<open>mm1\<close> the matrix that swaps the two genotypes.
\<close>

lemma example_paths:
  "descendant_paths (Node [0, 1, 2] Map.empty None
     [Node [0, 1] Map.empty None [Node [0] Map.empty None [], Node [1] Map.empty None []],
      Node [2] Map.empty None []]) = [[0, 0], [0, 1], [0], [1]]"
  by simp

lemma example_descendants:
  "iter_descendants (Node [0, 1, 2] Map.empty None
     [Node [0, 1] Map.empty None [Node [0] Map.empty None [], Node [1] Map.empty None []],
      Node [2] Map.empty None []]) =
   [Node [0] Map.empty None [], Node [1] Map.empty None [],
    Node [0, 1] Map.empty None [Node [0] Map.empty None [], Node [1] Map.empty None []],
    Node [2] Map.empty None []]"
  by (simp add: iter_descendants_def)

lemma example_prune:
  "prune 2 [[1, 0], [0, 1]] [[10, 0], [0, 20], [0, 20]] (Node [0] Map.empty None []) = [10, 0]"
  "prune 2 [[1, 0], [0, 1]] [[10, 0], [0, 20], [0, 20]] (Node [1] Map.empty None []) = [0, 20]"
  "prune 2 [[1, 0], [0, 1]] [[10, 0], [0, 20], [0, 20]] (Node [2] Map.empty None []) = [0, 20]"
  "prune 2 [[1, 0], [0, 1]] [[10, 0], [0, 20], [0, 20]]
     (Node [0, 1] Map.empty None [Node [0] Map.empty None [], Node [1] Map.empty None []])
   = [10, 20]"
  "prune 2 [[1, 0], [0, 1]] [[10, 0], [0, 20], [0, 20]]
     (Node [0, 1, 2] Map.empty None
        [Node [0, 1] Map.empty None [Node [0] Map.empty None [], Node [1] Map.empty None []],
         Node [2] Map.empty None []]) = [10, 40]"
  "prune 2 [[1/10, 0], [0, 1/10]] [[10, 0], [0, 20], [0, 20]]
     (Node [0, 1, 2] Map.empty None
        [Node [0, 1] Map.empty None [Node [0] Map.empty None [], Node [1] Map.empty None []],
         Node [2] Map.empty None []]) = [50, 80]"
  by (simp_all add: np_get_def tr_unit tr_tenth upt_2)

lemma example_place:
  "place 2 [[1, 0], [0, 1]] [[0, 1], [1, 0]] [[10, 0], [0, 20], [0, 20]]
     (Node [0, 1, 2] Map.empty None
        [Node [0, 1] Map.empty None [Node [0] Map.empty None [], Node [1] Map.empty None []],
         Node [2] Map.empty None []]) [0, 0] = [0, 50]"
  "place 2 [[1, 0], [0, 1]] [[0, 1], [1, 0]] [[10, 0], [0, 20], [0, 20]]
     (Node [0, 1, 2] Map.empty None
        [Node [0, 1] Map.empty None [Node [0] Map.empty None [], Node [1] Map.empty None []],
         Node [2] Map.empty None []]) [0, 1] = [30, 20]"
  "place 2 [[1, 0], [0, 1]] [[0, 1], [1, 0]] [[10, 0], [0, 20], [0, 20]]
     (Node [0, 1, 2] Map.empty None
        [Node [0, 1] Map.empty None [Node [0] Map.empty None [], Node [1] Map.empty None []],
         Node [2] Map.empty None []]) [0] = [20, 30]"
  "place 2 [[1, 0], [0, 1]] [[0, 1], [1, 0]] [[10, 0], [0, 20], [0, 20]]
     (Node [0, 1, 2] Map.empty None
        [Node [0, 1] Map.empty None [Node [0] Map.empty None [], Node [1] Map.empty None []],
         Node [2] Map.empty None []]) [1] = [30, 20]"
  by (simp_all add: np_get_def tr_unit tr_swap upt_2 get_sister_def)

lemma example_record:
  "site_call 2 [[1/10, 0], [0, 1/10]] [[1, 0], [0, 1]] [[0, 1], [1, 0]] [0, 0]
     (Node [0, 1, 2] Map.empty None
        [Node [0, 1] Map.empty None [Node [0] Map.empty None [], Node [1] Map.empty None []],
         Node [2] Map.empty None []])
     [[10, 0], [0, 20], [0, 20]] (''chr1'', p, ''A'')
   = \<lparr> chrom = ''chr1'', pos = p, ref = ''A'', null_p = 10000,
       mut_p = 103301000 / 1001,
       null_base = ''AA'', null_base_p = 10000000 / 1001,
       mut_base = ''AA'', mut_alt = ''AC'',
       mut_conf_p = 100000000 / 1001,
       mut_loc = 0, mut_smpl = ''0'' \<rparr>"
  unfolding site_call_def Let_def example_paths example_descendants list.map
    example_place example_prune
  by (simp add: example_prune argmin_index_def GTYPE10_def str_int_def
        phred2p_10 phred2p_numerals del: place.simps prune.simps)

lemma example_shapes:
  "binary (Node [0, 1, 2] Map.empty None
        [Node [0, 1] Map.empty None [Node [0] Map.empty None [], Node [1] Map.empty None []],
         Node [2] Map.empty None []])"
  "\<not> is_leaf (Node [0, 1, 2] Map.empty None
        [Node [0, 1] Map.empty None [Node [0] Map.empty None [], Node [1] Map.empty None []],
         Node [2] Map.empty None []])"
  "leaves_in 3 (Node [0, 1, 2] Map.empty None
        [Node [0, 1] Map.empty None [Node [0] Map.empty None [], Node [1] Map.empty None []],
         Node [2] Map.empty None []])"
  "square 2 [[1/10, 0], [0, 1/10]]" "square 2 [[1, 0], [0, 1]]" "square 2 [[0, 1], [1, 0]]"
  "positive_cols 2 [[1/10, 0], [0, 1/10]]" "positive_cols 2 [[1, 0], [0, 1]]"
  "positive_cols 2 [[0, 1], [1, 0]]"
  by (simp_all add: is_leaf_def square_def positive_cols_def upt_2)

lemma example_run:
  "genotype [[[10, 0], [0, 20], [0, 20]]]
     (Node [0, 1, 2] Map.empty None
        [Node [0, 1] Map.empty None [Node [0] Map.empty None [], Node [1] Map.empty None []],
         Node [2] Map.empty None []])
     [(''chr1'', p, ''A'')] [[1/10, 0], [0, 1/10]] [[1, 0], [0, 1]] [[0, 1], [1, 0]] [0, 0]
   = Inr ([\<lparr> chrom = ''chr1'', pos = p, ref = ''A'', null_p = 10000,
             mut_p = 103301000 / 1001,
             null_base = ''AA'', null_base_p = 10000000 / 1001,
             mut_base = ''AA'', mut_alt = ''AC'',
             mut_conf_p = 100000000 / 1001,
             mut_loc = 0, mut_smpl = ''0'' \<rparr>],
          - 10 * log 10 (113311000 / 1001))"
proof -
  let ?T = "Node [0, 1, 2] Map.empty None
        [Node [0, 1] Map.empty None [Node [0] Map.empty None [], Node [1] Map.empty None []],
         Node [2] Map.empty None []]"
  let ?S = "[[10, 0], [0, 20], [0, 20]] :: vec list"
  let ?D = "[[1/10, 0], [0, 1/10]] :: arr2"
  let ?I = "[[1, 0], [0, 1]] :: arr2" and ?X = "[[0, 1], [1, 0]] :: arr2"
  have g: "(2::nat) = ncols (concat [?S])" by (simp add: ncols_def)
  have ax: "geno_axis 2 [?S]" by (simp add: geno_axis_def)
  have ok: "site_ok 2 ?D ?I ?X ?T ?S"
    by (rule site_ok_positive) (simp_all add: example_shapes)
  have "genotype_by_site 2 [?S] ?T [(''chr1'', p, ''A'')] ?D ?I ?X [0, 0]
       = Some ([site_call 2 ?D ?I ?X [0, 0] ?T ?S (''chr1'', p, ''A'')],
              p2phred (mut_p (site_call 2 ?D ?I ?X [0, 0] ?T ?S (''chr1'', p, ''A''))
                     + null_p (site_call 2 ?D ?I ?X [0, 0] ?T ?S (''chr1'', p, ''A''))))"
    using ok by (simp add: genotype_by_site_def)
  also have "\<dots> = Some ([\<lparr> chrom = ''chr1'', pos = p, ref = ''A'', null_p = 10000,
             mut_p = 103301000 / 1001,
             null_base = ''AA'', null_base_p = 10000000 / 1001,
             mut_base = ''AA'', mut_alt = ''AC'',
             mut_conf_p = 100000000 / 1001,
             mut_loc = 0, mut_smpl = ''0'' \<rparr>],
          - 10 * log 10 (113311000 / 1001))"
    unfolding example_record by (simp add: p2phred_def)
  finally show ?thesis
    using genotype_by_site_eq[OF example_shapes(1,2) g ax example_shapes(4,5,6),
            of "[0, 0]" "[(''chr1'', p, ''A'')]"]
    by simp
qed

lemma empty_batch:
  "genotype []
     (Node [0, 1, 2] Map.empty None
        [Node [0, 1] Map.empty None [Node [0] Map.empty None [], Node [1] Map.empty None []],
         Node [2] Map.empty None []])
     [] [[1/10, 0], [0, 1/10]] [[1, 0], [0, 1]] [[0, 1], [1, 0]] [0, 0] = Inl IndexError"
  by (simp add: genotype_def populate_tree_PL_def tree_copy_def ncols_def sample_column_def
        getattr_def get_PLm_def transfer2_def transfer3_def dot2_def dot3_def p2phred_arr2_def
        p2phred_arr3_def add2_def add2_1_def add3_2_def broadcast2_def zeros2_def zeros3_def
        calc_mut_likelihoods_def with_sisters_two is_leaf_def on_edge_def inherited_def
        carried_def set_item_def set_slice_def assign2_def iadd3_1_def swapaxes01_def
        pick2_def pick3_def pick_def iter_descendants_def np_get_def add1_def assign1_def
        dot1_def p2phred_vec_def argmin_def unravel_index_def eval_nat_numeral)

text \<open>
  Over the reals the caller returns when the matrices have no negative entry and a positive
  entry in each column, every leaf names a sample of every site, and \<open>variants\<close> has a row
  for every site.  (In floating point a probability can underflow to zero, and the
  logarithm or the division then raises.)
\<close>

lemma genotype_returns:
  assumes bin: "binary tree" and int: "\<not> is_leaf tree"
      and g: "g = ncols (concat PLs)" and ax: "geno_axis g PLs"
      and sq: "square g mm" and sq0: "square g mm0" and sq1: "square g mm1"
      and lp: "length base_prior = g" and g1: "1 \<le> g" and g10: "g \<le> 10"
      and pos: "positive_cols g mm" "positive_cols g mm0" "positive_cols g mm1"
      and lv: "list_all (\<lambda>site. leaves_in (length site) tree) PLs"
      and nv: "length PLs \<le> length variants"
  shows "\<exists>r. genotype PLs tree variants mm mm0 mm1 base_prior = Inr r"
proof -
  have ne: "PLs \<noteq> []" using g g1 by (auto simp: ncols_def)
  have "list_all (site_ok g mm mm0 mm1 tree) PLs"
    using pos lv by (simp add: list_all_iff site_ok_positive)
  then have "\<exists>r. genotype_by_site g PLs tree variants mm mm0 mm1 base_prior = Some r"
    using nv ne by (simp add: genotype_by_site_def Let_def)
  then show ?thesis
    using genotype_by_site_eq[OF bin int g ax sq sq0 sq1 lp g1 g10, of variants] by blast
qed

text \<open>
  Claim C4.  Let the tree be fully binary (a single leaf carrying no placement array),
  \<open>g\<close> the number of genotypes of \<open>PLs\<close> (at most ten), the matrices \<open>g \<times> g\<close> and the prior
  of length \<open>g\<close>.  When the caller returns records and a score, the three passes have
  returned: the pruning pass with \<open>mm\<close> gave the array \<open>pl\<close> at the root, the pruning pass
  with \<open>mm0\<close> the array \<open>pl0\<close>, the mutation pass the array \<open>plm\<close>.  There is one record per
  site; the record of site \<open>s\<close> has \<open>null_p\<close> the sum over the genotypes \<open>j\<close> of
  \<open>10^(-(pl0[s][j] + prior[j])/10)\<close> divided by the sum over the genotypes of
  \<open>10^(-(pl[s][j] + prior[j])/10)\<close>, and \<open>mut_p\<close> the sum over all locations \<open>l\<close> and
  genotypes \<open>j\<close> of \<open>10^(-(plm[l][s][j] + prior[j])/10)\<close> divided by the same denominator;
  the score is the sum over the records of \<open>-10 log\<^sub>1\<^sub>0 (mut_p + null_p)\<close>.
\<close>

theorem genotype_reports_masses:
  assumes bin: "binary tree" and leaf: "is_leaf tree \<longrightarrow> PLm tree = None"
      and g: "g = ncols (concat PLs)" and ax: "geno_axis g PLs"
      and sq: "square g mm" and sq0: "square g mm0" and sq1: "square g mm1"
      and lp: "length base_prior = g" and g1: "1 \<le> g" and g10: "g \<le> 10"
  shows "genotype PLs tree variants mm mm0 mm1 base_prior = Inr (records, score) \<longrightarrow>
           (\<exists>t1 pl t2 pl0 t3 plm.
               populate_tree_PL tree PLs mm ''PL'' = Inr t1 \<and> attrs t1 ''PL'' = Some pl
             \<and> populate_tree_PL t1 PLs mm0 ''PL0'' = Inr t2 \<and> attrs t2 ''PL0'' = Some pl0
             \<and> calc_mut_likelihoods t2 mm0 mm1 = Inr t3 \<and> PLm t3 = Some plm
             \<and> length records = length PLs
             \<and> (\<forall>s<length PLs.
                  null_p (records ! s)
                    = (\<Sum>j<g. 10 powr (- (pl0 ! s ! j + base_prior ! j) / 10))
                      / (\<Sum>j<g. 10 powr (- (pl ! s ! j + base_prior ! j) / 10))
                \<and> mut_p (records ! s)
                    = (\<Sum>l<length plm. \<Sum>j<g. 10 powr (- (plm ! l ! s ! j + base_prior ! j) / 10))
                      / (\<Sum>j<g. 10 powr (- (pl ! s ! j + base_prior ! j) / 10)))
             \<and> score = (\<Sum>r\<leftarrow>records. - 10 * log 10 (mut_p r + null_p r)))"
proof
  assume run: "genotype PLs tree variants mm mm0 mm1 base_prior = Inr (records, score)"
  have int: "\<not> is_leaf tree" using genotype_leaf_raises[of tree] leaf run by blast
  note R = genotype_Inr_by_site[OF bin int g ax sq sq0 sq1 lp g1 g10 run]
  let ?ps = "descendant_paths tree"
  let ?tot = "map (\<lambda>site. prune g mm site tree) PLs"
  let ?nul = "map (\<lambda>site. prune g mm0 site tree) PLs"
  let ?mut = "map (\<lambda>p. map (\<lambda>site. place g mm0 mm1 site tree p) PLs) ?ps"
  from genotype_passes[OF bin int g ax sq sq0 sq1 lp R(1), of variants] R(3)
  obtain t1 t2 t3 where
        p1: "populate_tree_PL tree PLs mm ''PL'' = Inr t1"
    and a1: "attrs t1 ''PL'' = Some ?tot"
    and p2: "populate_tree_PL t1 PLs mm0 ''PL0'' = Inr t2"
    and sk: "skel t2 = skel tree" and rows: "PL0_rows g mm0 PLs t2"
    and p3: "calc_mut_likelihoods t2 mm0 mm1 = Inr t3"
    and a3: "PLm t3 = Some ?mut"
    and lT: "\<forall>site \<in> set PLs. length (prune g mm site tree) = g"
    and lT0: "\<forall>site \<in> set PLs. length (prune g mm0 site tree) = g"
    by (simp only: if_True) blast
  have "t2 \<in> set (traverse_postorder t2)" by simp
  from PL0_rows_node(1)[OF rows this]
  have a2: "attrs t2 ''PL0'' = Some ?nul" by (simp add: prune_skel[OF sk])
  have len: "length records = length PLs" using R(2,4) by simp
  have lpl: "\<And>site. \<forall>p \<in> set ?ps. length (place g mm0 mm1 site tree p) = g"
    using paths_nonempty(1)[of tree] by (simp add: place_length)
  have sites: "\<forall>s<length PLs.
         null_p (records ! s)
           = (\<Sum>j<g. phred2p (?nul ! s ! j + base_prior ! j))
             / (\<Sum>j<g. phred2p (?tot ! s ! j + base_prior ! j))
       \<and> mut_p (records ! s)
           = (\<Sum>l<length ?mut. \<Sum>j<g. phred2p (?mut ! l ! s ! j + base_prior ! j))
             / (\<Sum>j<g. phred2p (?tot ! s ! j + base_prior ! j))"
  proof (intro allI impI)
    fix s assume s: "s < length PLs"
    let ?site = "PLs ! s"
    have in_s: "?site \<in> set PLs" using s by simp
    have rec: "records ! s = site_call g mm mm0 mm1 base_prior tree ?site (variants ! s)"
      using s R(2,4) by simp
    have d: "sum_list (map phred2p (map2 (+) (prune g mm ?site tree) base_prior))
           = (\<Sum>j<g. phred2p (prune g mm ?site tree ! j + base_prior ! j))"
      by (rule sum_phred2p_added) (use lT in_s lp in simp_all)
    have n: "sum_list (map phred2p (map2 (+) (prune g mm0 ?site tree) base_prior))
           = (\<Sum>j<g. phred2p (prune g mm0 ?site tree ! j + base_prior ! j))"
      by (rule sum_phred2p_added) (use lT0 in_s lp in simp_all)
    have m: "sum_list (map phred2p (concat (map (\<lambda>p. map2 (+) (place g mm0 mm1 ?site tree p)
                                                  base_prior) ?ps)))
           = (\<Sum>l<length ?ps. \<Sum>j<g. phred2p (place g mm0 mm1 ?site tree (?ps ! l) ! j
                                                 + base_prior ! j))"
      by (rule sum_phred2p_slabs[OF lpl lp])
    have m': "(\<Sum>l<length ?mut. \<Sum>j<g. phred2p (?mut ! l ! s ! j + base_prior ! j))
            = (\<Sum>l<length ?ps. \<Sum>j<g. phred2p (place g mm0 mm1 ?site tree (?ps ! l) ! j
                                                 + base_prior ! j))"
      using s by simp
    have f1: "null_p (records ! s)
        = sum_list (map phred2p (map2 (+) (prune g mm0 ?site tree) base_prior))
          / sum_list (map phred2p (map2 (+) (prune g mm ?site tree) base_prior))"
      unfolding rec by (simp add: site_call_def Let_def)
    have f2: "mut_p (records ! s)
        = sum_list (map phred2p (concat (map (\<lambda>p. map2 (+) (place g mm0 mm1 ?site tree p)
                                                  base_prior) ?ps)))
          / sum_list (map phred2p (map2 (+) (prune g mm ?site tree) base_prior))"
      unfolding rec by (simp add: site_call_def Let_def)
    have e1: "?nul ! s = prune g mm0 ?site tree" using s by simp
    have e2: "?tot ! s = prune g mm ?site tree" using s by simp
    show "null_p (records ! s)
           = (\<Sum>j<g. phred2p (?nul ! s ! j + base_prior ! j))
             / (\<Sum>j<g. phred2p (?tot ! s ! j + base_prior ! j))
       \<and> mut_p (records ! s)
           = (\<Sum>l<length ?mut. \<Sum>j<g. phred2p (?mut ! l ! s ! j + base_prior ! j))
             / (\<Sum>j<g. phred2p (?tot ! s ! j + base_prior ! j))"
      unfolding m' f1 f2 d n m e1 e2 by simp
  qed
  have "\<exists>t1 pl t2 pl0 t3 plm.
               populate_tree_PL tree PLs mm ''PL'' = Inr t1 \<and> attrs t1 ''PL'' = Some pl
             \<and> populate_tree_PL t1 PLs mm0 ''PL0'' = Inr t2 \<and> attrs t2 ''PL0'' = Some pl0
             \<and> calc_mut_likelihoods t2 mm0 mm1 = Inr t3 \<and> PLm t3 = Some plm
             \<and> length records = length PLs
             \<and> (\<forall>s<length PLs.
                  null_p (records ! s)
                    = (\<Sum>j<g. phred2p (pl0 ! s ! j + base_prior ! j))
                      / (\<Sum>j<g. phred2p (pl ! s ! j + base_prior ! j))
                \<and> mut_p (records ! s)
                    = (\<Sum>l<length plm. \<Sum>j<g. phred2p (plm ! l ! s ! j + base_prior ! j))
                      / (\<Sum>j<g. phred2p (pl ! s ! j + base_prior ! j)))
             \<and> score = (\<Sum>r\<leftarrow>records. p2phred (mut_p r + null_p r))"
    using p1 a1 p2 a2 p3 a3 len sites R(5) by blast
  then show "\<exists>t1 pl t2 pl0 t3 plm.
               populate_tree_PL tree PLs mm ''PL'' = Inr t1 \<and> attrs t1 ''PL'' = Some pl
             \<and> populate_tree_PL t1 PLs mm0 ''PL0'' = Inr t2 \<and> attrs t2 ''PL0'' = Some pl0
             \<and> calc_mut_likelihoods t2 mm0 mm1 = Inr t3 \<and> PLm t3 = Some plm
             \<and> length records = length PLs
             \<and> (\<forall>s<length PLs.
                  null_p (records ! s)
                    = (\<Sum>j<g. 10 powr (- (pl0 ! s ! j + base_prior ! j) / 10))
                      / (\<Sum>j<g. 10 powr (- (pl ! s ! j + base_prior ! j) / 10))
                \<and> mut_p (records ! s)
                    = (\<Sum>l<length plm. \<Sum>j<g. 10 powr (- (plm ! l ! s ! j + base_prior ! j) / 10))
                      / (\<Sum>j<g. 10 powr (- (pl ! s ! j + base_prior ! j) / 10)))
             \<and> score = (\<Sum>r\<leftarrow>records. - 10 * log 10 (mut_p r + null_p r))"
    unfolding p2phred_def phred2p_def .
qed

theorem genotype_reports_masses_witness:
  "genotype [[[10, 0], [0, 20], [0, 20]]]
     (Node [0, 1, 2] Map.empty None
        [Node [0, 1] Map.empty None [Node [0] Map.empty None [], Node [1] Map.empty None []],
         Node [2] Map.empty None []])
     [(''chr1'', 100, ''A'')] [[1/10, 0], [0, 1/10]] [[1, 0], [0, 1]] [[0, 1], [1, 0]] [0, 0]
   = Inr ([\<lparr> chrom = ''chr1'', pos = 100, ref = ''A'', null_p = 10000,
             mut_p = 103301000 / 1001,
             null_base = ''AA'', null_base_p = 10000000 / 1001,
             mut_base = ''AA'', mut_alt = ''AC'',
             mut_conf_p = 100000000 / 1001,
             mut_loc = 0, mut_smpl = ''0'' \<rparr>],
          - 10 * log 10 (113311000 / 1001))
   \<and> (\<exists>t1 pl t2 pl0 t3 plm.
         populate_tree_PL (Node [0, 1, 2] Map.empty None
            [Node [0, 1] Map.empty None [Node [0] Map.empty None [], Node [1] Map.empty None []],
             Node [2] Map.empty None []])
           [[[10, 0], [0, 20], [0, 20]]] [[1/10, 0], [0, 1/10]] ''PL'' = Inr t1
       \<and> attrs t1 ''PL'' = Some pl
       \<and> populate_tree_PL t1 [[[10, 0], [0, 20], [0, 20]]] [[1, 0], [0, 1]] ''PL0'' = Inr t2
       \<and> attrs t2 ''PL0'' = Some pl0
       \<and> calc_mut_likelihoods t2 [[1, 0], [0, 1]] [[0, 1], [1, 0]] = Inr t3
       \<and> PLm t3 = Some plm
       \<and> (10000 :: real)
           = (\<Sum>j<2. 10 powr (- (pl0 ! 0 ! j + [0, 0] ! j) / 10))
             / (\<Sum>j<2. 10 powr (- (pl ! 0 ! j + [0, 0] ! j) / 10))
       \<and> (103301000 / 1001 :: real)
           = (\<Sum>l<length plm. \<Sum>j<2. 10 powr (- (plm ! l ! 0 ! j + [0, 0] ! j) / 10))
             / (\<Sum>j<2. 10 powr (- (pl ! 0 ! j + [0, 0] ! j) / 10)))
   \<and> - 10 * log 10 (113311000 / 1001)
       = - 10 * log 10 (103301000 / 1001 + (10000 :: real))"
proof -
  let ?T = "Node [0, 1, 2] Map.empty None
        [Node [0, 1] Map.empty None [Node [0] Map.empty None [], Node [1] Map.empty None []],
         Node [2] Map.empty None []]"
  let ?P = "[[[10, 0], [0, 20], [0, 20]]] :: arr3"
  let ?D = "[[1/10, 0], [0, 1/10]] :: arr2"
  let ?I = "[[1, 0], [0, 1]] :: arr2" and ?X = "[[0, 1], [1, 0]] :: arr2"
  let ?R = "\<lparr> chrom = ''chr1'', pos = 100, ref = ''A'', null_p = 10000,
             mut_p = 103301000 / 1001,
             null_base = ''AA'', null_base_p = 10000000 / 1001,
             mut_base = ''AA'', mut_alt = ''AC'',
             mut_conf_p = 100000000 / 1001,
             mut_loc = 0, mut_smpl = ''0'' \<rparr>"
  have g: "(2::nat) = ncols (concat ?P)" by (simp add: ncols_def)
  have ax: "geno_axis 2 ?P" by (simp add: geno_axis_def)
  have leaf: "is_leaf ?T \<longrightarrow> PLm ?T = None" by simp
  have run: "genotype ?P ?T [(''chr1'', 100, ''A'')] ?D ?I ?X [0, 0]
       = Inr ([?R], - 10 * log 10 (113311000 / 1001))"
    by (rule example_run)
  have lp: "length [0, 0 :: real] = 2" and g1: "1 \<le> (2::nat)" and g10: "(2::nat) \<le> 10"
    by simp_all
  from genotype_reports_masses[OF example_shapes(1) leaf g ax example_shapes(4,5,6) lp g1 g10,
         of "[(''chr1'', 100, ''A'')]" "[?R]" "- 10 * log 10 (113311000 / 1001)"] run
  obtain t1 pl t2 pl0 t3 plm where
       c: "populate_tree_PL ?T ?P ?D ''PL'' = Inr t1" "attrs t1 ''PL'' = Some pl"
          "populate_tree_PL t1 ?P ?I ''PL0'' = Inr t2" "attrs t2 ''PL0'' = Some pl0"
          "calc_mut_likelihoods t2 ?I ?X = Inr t3" "PLm t3 = Some plm"
   and s: "\<forall>s<length ?P.
                  null_p ([?R] ! s)
                    = (\<Sum>j<2. 10 powr (- (pl0 ! s ! j + [0, 0] ! j) / 10))
                      / (\<Sum>j<2. 10 powr (- (pl ! s ! j + [0, 0] ! j) / 10))
                \<and> mut_p ([?R] ! s)
                    = (\<Sum>l<length plm. \<Sum>j<2. 10 powr (- (plm ! l ! s ! j + [0, 0] ! j) / 10))
                      / (\<Sum>j<2. 10 powr (- (pl ! s ! j + [0, 0] ! j) / 10))"
   and sc: "- 10 * log 10 (113311000 / 1001)
              = (\<Sum>r\<leftarrow>[?R]. - 10 * log 10 (mut_p r + null_p r))"
    by blast
  from s[rule_format, of 0]
  have v: "(10000 :: real)
           = (\<Sum>j<2. 10 powr (- (pl0 ! 0 ! j + [0, 0] ! j) / 10))
             / (\<Sum>j<2. 10 powr (- (pl ! 0 ! j + [0, 0] ! j) / 10))"
          "(103301000 / 1001 :: real)
           = (\<Sum>l<length plm. \<Sum>j<2. 10 powr (- (plm ! l ! 0 ! j + [0, 0] ! j) / 10))
             / (\<Sum>j<2. 10 powr (- (pl ! 0 ! j + [0, 0] ! j) / 10))"
    by simp_all
  from sc have sc': "- 10 * log 10 (113311000 / 1001)
       = - 10 * log 10 (103301000 / 1001 + (10000 :: real))" by simp
  show ?thesis using run c v sc' by blast
qed

lemma argmin_from_first:
  "xs = drop i ys \<Longrightarrow> bi < i \<Longrightarrow> i \<le> length ys \<Longrightarrow> best = ys ! bi \<Longrightarrow>
   \<forall>k<i. ys ! bi \<le> ys ! k \<Longrightarrow> \<forall>k<bi. ys ! bi < ys ! k \<Longrightarrow>
   \<forall>k<argmin_from best bi i xs. ys ! (argmin_from best bi i xs) < ys ! k"
proof (induction xs arbitrary: best bi i)
  case Nil
  then show ?case by simp
next
  case (Cons x xs)
  have i: "i < length ys" using Cons.prems(1) by (metis drop_all list.distinct(1) not_less)
  have x: "x = ys ! i" using Cons.prems(1) i by (metis hd_drop_conv_nth list.sel(1))
  have xs: "xs = drop (Suc i) ys" using Cons.prems(1) by (metis drop_Suc list.sel(3) tl_drop)
  show ?case
  proof (cases "x < best")
    case True
    have st: "\<forall>k<i. ys ! i < ys ! k"
    proof (intro allI impI)
      fix k assume "k < i"
      then have "ys ! bi \<le> ys ! k" using Cons.prems(5) by simp
      then show "ys ! i < ys ! k" using True x Cons.prems(4) by simp
    qed
    then have le: "\<forall>k<Suc i. ys ! i \<le> ys ! k"
      by (auto simp: less_Suc_eq less_imp_le)
    from Cons.IH[OF xs _ _ x le st] i True show ?thesis by simp
  next
    case False
    have le: "\<forall>k<Suc i. ys ! bi \<le> ys ! k"
      using Cons.prems(5) False x Cons.prems(4) by (auto simp: less_Suc_eq)
    from Cons.IH[OF xs _ _ Cons.prems(4) le Cons.prems(6)] i Cons.prems(2) False
    show ?thesis by simp
  qed
qed

lemma argmin_index_first:
  assumes "xs \<noteq> []" "j < argmin_index xs"
  shows "xs ! argmin_index xs < xs ! j"
proof -
  have "\<forall>k<argmin_from (xs ! 0) 0 1 (drop 1 xs).
          xs ! (argmin_from (xs ! 0) 0 1 (drop 1 xs)) < xs ! k"
    by (rule argmin_from_first) (use assms(1) in \<open>auto simp: Suc_le_eq\<close>)
  then show ?thesis using assms by (simp add: argmin_index_def hd_conv_nth drop_Suc)
qed

lemma eval_populate_PL0:
  "populate_tree_PL
     (Node [0, 1, 2] Map.empty None
        [Node [0, 1] Map.empty None [Node [0] Map.empty None [], Node [1] Map.empty None []],
         Node [2] Map.empty None []])
     [[[10, 0], [0, 20], [0, 20]]] [[1, 0], [0, 1]] ''PL0'' =
   Inr (Node [0, 1, 2] (Map.empty(''PL0'' \<mapsto> [[10, 40]])) None
        [Node [0, 1] (Map.empty(''PL0'' \<mapsto> [[10, 20]])) None
           [Node [0] (Map.empty(''PL0'' \<mapsto> [[10, 0]])) None [],
            Node [1] (Map.empty(''PL0'' \<mapsto> [[0, 20]])) None []],
         Node [2] (Map.empty(''PL0'' \<mapsto> [[0, 20]])) None []])"
  by (simp add: populate_tree_PL_def ncols_def sample_column_def np_get_def getattr_def
        transfer2_def dot2_def dot1_def p2phred_arr2_def p2phred_vec_def add2_def add1_def
        broadcast2_def zeros2_def p2phred_phred2p eval_nat_numeral)

text \<open>
  Claim C5, amended.  Under the conditions of claim C4, when the caller returns, the
  location \<open>mut_loc\<close> of the record of a site is an index into the post-order list of all
  nodes below the root, leaves included (\<open>2 * len tree - 2\<close> nodes), of the tree that the
  passes return, and the reported mutant genotype \<open>mut_alt\<close> is the genotype of
  \<open>GTYPE10\<close> whose index minimises the row of the site in the no-mutation aggregate of the
  node at that index (the first such index); \<open>mut_smpl\<close> names the samples of that node.
\<close>

theorem genotype_mutant_genotype:
  assumes bin: "binary tree" and leaf: "is_leaf tree \<longrightarrow> PLm tree = None"
      and g: "g = ncols (concat PLs)" and ax: "geno_axis g PLs"
      and sq: "square g mm" and sq0: "square g mm0" and sq1: "square g mm1"
      and lp: "length base_prior = g" and g1: "1 \<le> g" and g10: "g \<le> 10"
  shows "genotype PLs tree variants mm mm0 mm1 base_prior = Inr (records, score) \<longrightarrow>
           (\<exists>t1 t2 t3.
               populate_tree_PL tree PLs mm ''PL'' = Inr t1
             \<and> populate_tree_PL t1 PLs mm0 ''PL0'' = Inr t2
             \<and> calc_mut_likelihoods t2 mm0 mm1 = Inr t3
             \<and> length (iter_descendants t3) = 2 * len tree - 2
             \<and> (\<forall>s<length PLs.
                  mut_loc (records ! s) < length (iter_descendants t3)
                \<and> (\<exists>a0 k. attrs (iter_descendants t3 ! mut_loc (records ! s)) ''PL0'' = Some a0
                      \<and> k < g
                      \<and> (\<forall>j<g. a0 ! s ! k \<le> a0 ! s ! j)
                      \<and> (\<forall>j<k. a0 ! s ! k < a0 ! s ! j)
                      \<and> mut_alt (records ! s) = GTYPE10 ! k)
                \<and> mut_smpl (records ! s)
                    = take 128 (join '','' (map str_int
                        (sid (iter_descendants t3 ! mut_loc (records ! s)))))))"
proof
  assume run: "genotype PLs tree variants mm mm0 mm1 base_prior = Inr (records, score)"
  have int: "\<not> is_leaf tree" using genotype_leaf_raises[of tree] leaf run by blast
  note R = genotype_Inr_by_site[OF bin int g ax sq sq0 sq1 lp g1 g10 run]
  let ?ps = "descendant_paths tree"
  from genotype_passes[OF bin int g ax sq sq0 sq1 lp R(1), of variants] R(3)
  obtain t1 t2 t3 where
        p1: "populate_tree_PL tree PLs mm ''PL'' = Inr t1"
    and p2: "populate_tree_PL t1 PLs mm0 ''PL0'' = Inr t2"
    and p3: "calc_mut_likelihoods t2 mm0 mm1 = Inr t3"
    and nl: "length (iter_descendants t3) = length ?ps"
    and nodes: "\<forall>k<length ?ps.
                    getattr (iter_descendants t3 ! k) ''PL0''
                      = Inr (map (\<lambda>site. prune g mm0 site (iter_descendants tree ! k)) PLs)
                  \<and> sid (iter_descendants t3 ! k) = sid (iter_descendants tree ! k)
                  \<and> (\<forall>site \<in> set PLs. length (prune g mm0 site (iter_descendants tree ! k)) = g)"
    by (simp only: if_True) blast
  have len: "length (iter_descendants t3) = 2 * len tree - 2"
    using nl binary_paths_length[OF bin] by simp
  have g0: "0 < g" using g1 by simp
  have sites: "\<forall>s<length PLs.
         mut_loc (records ! s) < length (iter_descendants t3)
       \<and> (\<exists>a0 k. attrs (iter_descendants t3 ! mut_loc (records ! s)) ''PL0'' = Some a0
             \<and> k < g
             \<and> (\<forall>j<g. a0 ! s ! k \<le> a0 ! s ! j)
             \<and> (\<forall>j<k. a0 ! s ! k < a0 ! s ! j)
             \<and> mut_alt (records ! s) = GTYPE10 ! k)
       \<and> mut_smpl (records ! s)
           = take 128 (join '','' (map str_int
               (sid (iter_descendants t3 ! mut_loc (records ! s)))))"
  proof (intro allI impI)
    fix s assume s: "s < length PLs"
    let ?site = "PLs ! s"
    have in_s: "?site \<in> set PLs" using s by simp
    have rec: "records ! s = site_call g mm mm0 mm1 base_prior tree ?site (variants ! s)"
      using s R(2,4) by simp
    define k where "k = mut_loc (records ! s)"
    have kb: "k < length ?ps"
      unfolding k_def rec by (rule site_call_loc[OF internal_paths[OF int] g0 lp])
    let ?row = "prune g mm0 ?site (iter_descendants tree ! k)"
    let ?a0 = "map (\<lambda>site. prune g mm0 site (iter_descendants tree ! k)) PLs"
    from nodes kb have
          a: "attrs (iter_descendants t3 ! k) ''PL0'' = Some ?a0"
      and b: "sid (iter_descendants t3 ! k) = sid (iter_descendants tree ! k)"
      and c: "length ?row = g"
      using in_s by (auto simp: getattr_def split: option.splits)
    have row: "?a0 ! s = ?row" using s by simp
    have ne: "?row \<noteq> []" using c g0 by auto
    have lt: "argmin_index ?row < g" using argmin_index_less[OF ne] c by simp
    have mn: "\<forall>j<g. ?row ! argmin_index ?row \<le> ?row ! j"
      using argmin_index_min[OF ne] c by simp
    have fs: "\<forall>j<argmin_index ?row. ?row ! argmin_index ?row < ?row ! j"
      using argmin_index_first[OF ne] by blast
    have alt: "mut_alt (records ! s) = take 2 (GTYPE10 ! argmin_index ?row)"
      unfolding rec k_def by (simp add: site_call_def Let_def)
    have alt': "mut_alt (records ! s) = GTYPE10 ! argmin_index ?row"
      unfolding alt by (rule GTYPE10_take2) (use lt g10 in simp)
    have smp: "mut_smpl (records ! s)
        = take 128 (join '','' (map str_int (sid (iter_descendants tree ! k))))"
      unfolding rec k_def by (simp add: site_call_def Let_def)
    have "\<exists>a0 k'. attrs (iter_descendants t3 ! k) ''PL0'' = Some a0
             \<and> k' < g
             \<and> (\<forall>j<g. a0 ! s ! k' \<le> a0 ! s ! j)
             \<and> (\<forall>j<k'. a0 ! s ! k' < a0 ! s ! j)
             \<and> mut_alt (records ! s) = GTYPE10 ! k'"
      using a lt mn fs alt' unfolding row[symmetric] by blast
    then show "mut_loc (records ! s) < length (iter_descendants t3)
       \<and> (\<exists>a0 k. attrs (iter_descendants t3 ! mut_loc (records ! s)) ''PL0'' = Some a0
             \<and> k < g
             \<and> (\<forall>j<g. a0 ! s ! k \<le> a0 ! s ! j)
             \<and> (\<forall>j<k. a0 ! s ! k < a0 ! s ! j)
             \<and> mut_alt (records ! s) = GTYPE10 ! k)
       \<and> mut_smpl (records ! s)
           = take 128 (join '','' (map str_int
               (sid (iter_descendants t3 ! mut_loc (records ! s)))))"
      using kb nl smp b unfolding k_def by simp
  qed
  show "\<exists>t1 t2 t3.
               populate_tree_PL tree PLs mm ''PL'' = Inr t1
             \<and> populate_tree_PL t1 PLs mm0 ''PL0'' = Inr t2
             \<and> calc_mut_likelihoods t2 mm0 mm1 = Inr t3
             \<and> length (iter_descendants t3) = 2 * len tree - 2
             \<and> (\<forall>s<length PLs.
                  mut_loc (records ! s) < length (iter_descendants t3)
                \<and> (\<exists>a0 k. attrs (iter_descendants t3 ! mut_loc (records ! s)) ''PL0'' = Some a0
                      \<and> k < g
                      \<and> (\<forall>j<g. a0 ! s ! k \<le> a0 ! s ! j)
                      \<and> (\<forall>j<k. a0 ! s ! k < a0 ! s ! j)
                      \<and> mut_alt (records ! s) = GTYPE10 ! k)
                \<and> mut_smpl (records ! s)
                    = take 128 (join '','' (map str_int
                        (sid (iter_descendants t3 ! mut_loc (records ! s))))))"
    using p1 p2 p3 len sites by blast
qed


theorem genotype_mutant_genotype_witness:
  "genotype [[[10, 0], [0, 20], [0, 20]]]
     (Node [0, 1, 2] Map.empty None
        [Node [0, 1] Map.empty None [Node [0] Map.empty None [], Node [1] Map.empty None []],
         Node [2] Map.empty None []])
     [(''chr1'', 100, ''A'')] [[1/10, 0], [0, 1/10]] [[1, 0], [0, 1]] [[0, 1], [1, 0]] [0, 0]
   = Inr ([\<lparr> chrom = ''chr1'', pos = 100, ref = ''A'', null_p = 10000,
             mut_p = 103301000 / 1001,
             null_base = ''AA'', null_base_p = 10000000 / 1001,
             mut_base = ''AA'', mut_alt = ''AC'',
             mut_conf_p = 100000000 / 1001,
             mut_loc = 0, mut_smpl = ''0'' \<rparr>],
          - 10 * log 10 (113311000 / 1001))
   \<and> (\<exists>t1 t2 t3 a0 k.
         populate_tree_PL (Node [0, 1, 2] Map.empty None
            [Node [0, 1] Map.empty None [Node [0] Map.empty None [], Node [1] Map.empty None []],
             Node [2] Map.empty None []])
           [[[10, 0], [0, 20], [0, 20]]] [[1/10, 0], [0, 1/10]] ''PL'' = Inr t1
       \<and> populate_tree_PL t1 [[[10, 0], [0, 20], [0, 20]]] [[1, 0], [0, 1]] ''PL0'' = Inr t2
       \<and> calc_mut_likelihoods t2 [[1, 0], [0, 1]] [[0, 1], [1, 0]] = Inr t3
       \<and> length (iter_descendants t3) = 4
       \<and> attrs (iter_descendants t3 ! 0) ''PL0'' = Some a0
       \<and> k < 2 \<and> a0 ! 0 ! k \<le> a0 ! 0 ! 0 \<and> a0 ! 0 ! k \<le> a0 ! 0 ! 1
       \<and> ''AC'' = GTYPE10 ! k)"
proof -
  let ?T = "Node [0, 1, 2] Map.empty None
        [Node [0, 1] Map.empty None [Node [0] Map.empty None [], Node [1] Map.empty None []],
         Node [2] Map.empty None []]"
  let ?P = "[[[10, 0], [0, 20], [0, 20]]] :: arr3"
  let ?D = "[[1/10, 0], [0, 1/10]] :: arr2"
  let ?I = "[[1, 0], [0, 1]] :: arr2" and ?X = "[[0, 1], [1, 0]] :: arr2"
  let ?R = "\<lparr> chrom = ''chr1'', pos = 100, ref = ''A'', null_p = 10000,
             mut_p = 103301000 / 1001,
             null_base = ''AA'', null_base_p = 10000000 / 1001,
             mut_base = ''AA'', mut_alt = ''AC'',
             mut_conf_p = 100000000 / 1001,
             mut_loc = 0, mut_smpl = ''0'' \<rparr>"
  have g: "(2::nat) = ncols (concat ?P)" by (simp add: ncols_def)
  have ax: "geno_axis 2 ?P" by (simp add: geno_axis_def)
  have leaf: "is_leaf ?T \<longrightarrow> PLm ?T = None" by simp
  have lp: "length [0, 0 :: real] = 2" and g1: "1 \<le> (2::nat)" and g10: "(2::nat) \<le> 10"
    by simp_all
  have run: "genotype ?P ?T [(''chr1'', 100, ''A'')] ?D ?I ?X [0, 0]
       = Inr ([?R], - 10 * log 10 (113311000 / 1001))"
    by (rule example_run)
  from genotype_mutant_genotype[OF example_shapes(1) leaf g ax example_shapes(4,5,6) lp g1 g10,
         of "[(''chr1'', 100, ''A'')]" "[?R]" "- 10 * log 10 (113311000 / 1001)"] run
  obtain t1 t2 t3 where
       c: "populate_tree_PL ?T ?P ?D ''PL'' = Inr t1"
          "populate_tree_PL t1 ?P ?I ''PL0'' = Inr t2"
          "calc_mut_likelihoods t2 ?I ?X = Inr t3"
   and l: "length (iter_descendants t3) = 2 * len ?T - 2"
   and s: "\<forall>s<length ?P.
                  mut_loc ([?R] ! s) < length (iter_descendants t3)
                \<and> (\<exists>a0 k. attrs (iter_descendants t3 ! mut_loc ([?R] ! s)) ''PL0'' = Some a0
                      \<and> k < 2
                      \<and> (\<forall>j<2. a0 ! s ! k \<le> a0 ! s ! j)
                      \<and> (\<forall>j<k. a0 ! s ! k < a0 ! s ! j)
                      \<and> mut_alt ([?R] ! s) = GTYPE10 ! k)
                \<and> mut_smpl ([?R] ! s)
                    = take 128 (join '','' (map str_int
                        (sid (iter_descendants t3 ! mut_loc ([?R] ! s)))))"
    by blast
  from s[rule_format, of 0]
  obtain a0 k where a: "attrs (iter_descendants t3 ! 0) ''PL0'' = Some a0"
    and k: "k < 2" and m: "\<forall>j<2. a0 ! 0 ! k \<le> a0 ! 0 ! j" and alt: "''AC'' = GTYPE10 ! k"
    by auto
  from m have m0: "a0 ! 0 ! k \<le> a0 ! 0 ! 0" and m1: "a0 ! 0 ! k \<le> a0 ! 0 ! 1" by simp_all
  from l have l4: "length (iter_descendants t3) = 4" by simp
  show ?thesis using run c l4 a k m0 m1 alt by blast
qed

text \<open>
  The claim as stated fails on the example: the caller reports the location 0 and the
  mutant genotype \<open>AC\<close>.  Node 0 of the nodes below the root is the leaf of sample 0, whose
  no-mutation aggregate \<open>[10, 0]\<close> is least at \<open>AC\<close>; the nodes that are not leaves are the
  parent of samples 0 and 1 and the root, and their aggregates \<open>[10, 20]\<close> and \<open>[10, 40]\<close> are
  both least at \<open>AA\<close>.
\<close>

theorem genotype_mutant_genotype_counterexample:
  "genotype [[[10, 0], [0, 20], [0, 20]]]
     (Node [0, 1, 2] Map.empty None
        [Node [0, 1] Map.empty None [Node [0] Map.empty None [], Node [1] Map.empty None []],
         Node [2] Map.empty None []])
     [(''chr1'', 100, ''A'')] [[1/10, 0], [0, 1/10]] [[1, 0], [0, 1]] [[0, 1], [1, 0]] [0, 0]
   = Inr ([\<lparr> chrom = ''chr1'', pos = 100, ref = ''A'', null_p = 10000,
             mut_p = 103301000 / 1001,
             null_base = ''AA'', null_base_p = 10000000 / 1001,
             mut_base = ''AA'', mut_alt = ''AC'',
             mut_conf_p = 100000000 / 1001,
             mut_loc = 0, mut_smpl = ''0'' \<rparr>],
          - 10 * log 10 (113311000 / 1001))
   \<and> populate_tree_PL
     (Node [0, 1, 2] Map.empty None
        [Node [0, 1] Map.empty None [Node [0] Map.empty None [], Node [1] Map.empty None []],
         Node [2] Map.empty None []])
     [[[10, 0], [0, 20], [0, 20]]] [[1, 0], [0, 1]] ''PL0'' =
     Inr (Node [0, 1, 2] (Map.empty(''PL0'' \<mapsto> [[10, 40]])) None
        [Node [0, 1] (Map.empty(''PL0'' \<mapsto> [[10, 20]])) None
           [Node [0] (Map.empty(''PL0'' \<mapsto> [[10, 0]])) None [],
            Node [1] (Map.empty(''PL0'' \<mapsto> [[0, 20]])) None []],
         Node [2] (Map.empty(''PL0'' \<mapsto> [[0, 20]])) None []])
   \<and> spec_internal_nodes
       (Node [0, 1, 2] (Map.empty(''PL0'' \<mapsto> [[10, 40]])) None
        [Node [0, 1] (Map.empty(''PL0'' \<mapsto> [[10, 20]])) None
           [Node [0] (Map.empty(''PL0'' \<mapsto> [[10, 0]])) None [],
            Node [1] (Map.empty(''PL0'' \<mapsto> [[0, 20]])) None []],
         Node [2] (Map.empty(''PL0'' \<mapsto> [[0, 20]])) None []])
     = [Node [0, 1] (Map.empty(''PL0'' \<mapsto> [[10, 20]])) None
           [Node [0] (Map.empty(''PL0'' \<mapsto> [[10, 0]])) None [],
            Node [1] (Map.empty(''PL0'' \<mapsto> [[0, 20]])) None []],
        Node [0, 1, 2] (Map.empty(''PL0'' \<mapsto> [[10, 40]])) None
        [Node [0, 1] (Map.empty(''PL0'' \<mapsto> [[10, 20]])) None
           [Node [0] (Map.empty(''PL0'' \<mapsto> [[10, 0]])) None [],
            Node [1] (Map.empty(''PL0'' \<mapsto> [[0, 20]])) None []],
         Node [2] (Map.empty(''PL0'' \<mapsto> [[0, 20]])) None []]]
   \<and> GTYPE10 ! argmin_index [10, 20] = ''AA''
   \<and> GTYPE10 ! argmin_index [10, 40] = ''AA''
   \<and> iter_descendants
       (Node [0, 1, 2] (Map.empty(''PL0'' \<mapsto> [[10, 40]])) None
        [Node [0, 1] (Map.empty(''PL0'' \<mapsto> [[10, 20]])) None
           [Node [0] (Map.empty(''PL0'' \<mapsto> [[10, 0]])) None [],
            Node [1] (Map.empty(''PL0'' \<mapsto> [[0, 20]])) None []],
         Node [2] (Map.empty(''PL0'' \<mapsto> [[0, 20]])) None []]) ! 0
     = Node [0] (Map.empty(''PL0'' \<mapsto> [[10, 0]])) None []
   \<and> is_leaf (Node [0] (Map.empty(''PL0'' \<mapsto> [[10, 0]])) None [])
   \<and> GTYPE10 ! argmin_index [10, 0] = ''AC''"
proof -
  have a: "GTYPE10 ! argmin_index [10, 20] = ''AA''" "GTYPE10 ! argmin_index [10, 40] = ''AA''"
    "GTYPE10 ! argmin_index [10, 0] = ''AC''"
    by (simp_all add: argmin_index_def GTYPE10_def)
  show ?thesis
    unfolding example_run eval_populate_PL0 a
    by (simp add: spec_internal_nodes_def is_leaf_def iter_descendants_def)
qed

lemma genotype_by_site_append:
  assumes "A \<noteq> []" "B \<noteq> []" "length VA = length A" "length VB = length B"
  shows "genotype_by_site g (A @ B) tree (VA @ VB) mm mm0 mm1 base_prior = Some (records, score)
     \<longleftrightarrow> (\<exists>ra sa rb sb.
            genotype_by_site g A tree VA mm mm0 mm1 base_prior = Some (ra, sa)
          \<and> genotype_by_site g B tree VB mm mm0 mm1 base_prior = Some (rb, sb)
          \<and> records = ra @ rb \<and> score = sa + sb)"
  using assms by (auto simp: genotype_by_site_def Let_def)

text \<open>
  Claim C7, amended.  Let the tree be fully binary (a single leaf carrying no placement
  array), and let a list of sites, each of \<open>m\<close> samples with \<open>g\<close> genotypes (at most ten),
  be split into two consecutive batches \<open>A\<close> and \<open>B\<close>, neither empty, \<open>VA\<close> and \<open>VB\<close> being
  the rows of \<open>variants\<close> of the two batches.  The caller returns on the whole list exactly
  when it returns on both batches, and then the records of the whole list are the records
  of \<open>A\<close> followed by the records of \<open>B\<close>, and its score is the sum of the two scores.
\<close>

theorem genotype_batches:
  assumes bin: "binary tree" and leaf: "is_leaf tree \<longrightarrow> PLm tree = None"
      and m: "list_all (\<lambda>site. length site = m) (A @ B)" and m0: "0 < m"
      and ax: "geno_axis g (A @ B)"
      and sq: "square g mm" and sq0: "square g mm0" and sq1: "square g mm1"
      and lp: "length base_prior = g" and g1: "1 \<le> g" and g10: "g \<le> 10"
      and neA: "A \<noteq> []" and neB: "B \<noteq> []"
      and lA: "length VA = length A" and lB: "length VB = length B"
  shows "genotype (A @ B) tree (VA @ VB) mm mm0 mm1 base_prior = Inr (records, score)
     \<longleftrightarrow> (\<exists>ra sa rb sb.
            genotype A tree VA mm mm0 mm1 base_prior = Inr (ra, sa)
          \<and> genotype B tree VB mm mm0 mm1 base_prior = Inr (rb, sb)
          \<and> records = ra @ rb \<and> score = sa + sb)"
proof (cases "is_leaf tree")
  case True
  with leaf have "PLm tree = None" by simp
  from genotype_leaf_raises[OF True this] show ?thesis by blast
next
  case int: False
  have mA: "list_all (\<lambda>site. length site = m) A" and mB: "list_all (\<lambda>site. length site = m) B"
    using m by simp_all
  have axA: "geno_axis g A" and axB: "geno_axis g B"
    using ax by (simp_all add: geno_axis_def)
  have gA: "g = ncols (concat A)" using ncols_concat_rect[OF neA mA m0 axA] by simp
  have gB: "g = ncols (concat B)" using ncols_concat_rect[OF neB mB m0 axB] by simp
  have neAB: "A @ B \<noteq> []" using neA by simp
  have gAB: "g = ncols (concat (A @ B))" using ncols_concat_rect[OF neAB m m0 ax] by simp
  note eA = genotype_by_site_eq[OF bin int gA axA sq sq0 sq1 lp g1 g10]
  note eB = genotype_by_site_eq[OF bin int gB axB sq sq0 sq1 lp g1 g10]
  note eAB = genotype_by_site_eq[OF bin int gAB ax sq sq0 sq1 lp g1 g10]
  show ?thesis
    unfolding eA eB eAB by (rule genotype_by_site_append[OF neA neB lA lB])
qed

theorem genotype_batches_witness:
  "genotype [[[10, 0], [0, 20], [0, 20]]]
     (Node [0, 1, 2] Map.empty None
        [Node [0, 1] Map.empty None [Node [0] Map.empty None [], Node [1] Map.empty None []],
         Node [2] Map.empty None []])
     [(''chr1'', 100, ''A'')] [[1/10, 0], [0, 1/10]] [[1, 0], [0, 1]] [[0, 1], [1, 0]] [0, 0]
   = Inr ([\<lparr> chrom = ''chr1'', pos = 100, ref = ''A'', null_p = 10000,
             mut_p = 103301000 / 1001,
             null_base = ''AA'', null_base_p = 10000000 / 1001,
             mut_base = ''AA'', mut_alt = ''AC'',
             mut_conf_p = 100000000 / 1001,
             mut_loc = 0, mut_smpl = ''0'' \<rparr>],
          - 10 * log 10 (113311000 / 1001))
   \<and> genotype [[[10, 0], [0, 20], [0, 20]]]
     (Node [0, 1, 2] Map.empty None
        [Node [0, 1] Map.empty None [Node [0] Map.empty None [], Node [1] Map.empty None []],
         Node [2] Map.empty None []])
     [(''chr1'', 200, ''A'')] [[1/10, 0], [0, 1/10]] [[1, 0], [0, 1]] [[0, 1], [1, 0]] [0, 0]
   = Inr ([\<lparr> chrom = ''chr1'', pos = 200, ref = ''A'', null_p = 10000,
             mut_p = 103301000 / 1001,
             null_base = ''AA'', null_base_p = 10000000 / 1001,
             mut_base = ''AA'', mut_alt = ''AC'',
             mut_conf_p = 100000000 / 1001,
             mut_loc = 0, mut_smpl = ''0'' \<rparr>],
          - 10 * log 10 (113311000 / 1001))
   \<and> genotype [[[10, 0], [0, 20], [0, 20]], [[10, 0], [0, 20], [0, 20]]]
     (Node [0, 1, 2] Map.empty None
        [Node [0, 1] Map.empty None [Node [0] Map.empty None [], Node [1] Map.empty None []],
         Node [2] Map.empty None []])
     [(''chr1'', 100, ''A''), (''chr1'', 200, ''A'')]
     [[1/10, 0], [0, 1/10]] [[1, 0], [0, 1]] [[0, 1], [1, 0]] [0, 0]
   = Inr ([\<lparr> chrom = ''chr1'', pos = 100, ref = ''A'', null_p = 10000,
             mut_p = 103301000 / 1001,
             null_base = ''AA'', null_base_p = 10000000 / 1001,
             mut_base = ''AA'', mut_alt = ''AC'',
             mut_conf_p = 100000000 / 1001,
             mut_loc = 0, mut_smpl = ''0'' \<rparr>,
           \<lparr> chrom = ''chr1'', pos = 200, ref = ''A'', null_p = 10000,
             mut_p = 103301000 / 1001,
             null_base = ''AA'', null_base_p = 10000000 / 1001,
             mut_base = ''AA'', mut_alt = ''AC'',
             mut_conf_p = 100000000 / 1001,
             mut_loc = 0, mut_smpl = ''0'' \<rparr>],
          - 10 * log 10 (113311000 / 1001) + - 10 * log 10 (113311000 / 1001))"
proof -
  let ?T = "Node [0, 1, 2] Map.empty None
        [Node [0, 1] Map.empty None [Node [0] Map.empty None [], Node [1] Map.empty None []],
         Node [2] Map.empty None []]"
  let ?S = "[[10, 0], [0, 20], [0, 20]] :: vec list"
  let ?D = "[[1/10, 0], [0, 1/10]] :: arr2"
  let ?I = "[[1, 0], [0, 1]] :: arr2" and ?X = "[[0, 1], [1, 0]] :: arr2"
  have m: "list_all (\<lambda>site. length site = 3) ([?S] @ [?S])" by simp
  have m0: "0 < (3::nat)" by simp
  have ax: "geno_axis 2 ([?S] @ [?S])" by (simp add: geno_axis_def)
  have leaf: "is_leaf ?T \<longrightarrow> PLm ?T = None" by simp
  have lp: "length [0, 0 :: real] = 2" and g1: "1 \<le> (2::nat)" and g10: "(2::nat) \<le> 10"
    by simp_all
  have ne: "[?S] \<noteq> []" by simp
  have l1: "length [(''chr1'', 100 :: int, ''A'')] = length [?S]"
    and l2: "length [(''chr1'', 200 :: int, ''A'')] = length [?S]" by simp_all
  note r1 = example_run[of 100] and r2 = example_run[of 200]
  from genotype_batches[OF example_shapes(1) leaf m m0 ax example_shapes(4,5,6) lp g1 g10
         ne ne l1 l2] r1 r2
  have "genotype ([?S] @ [?S]) ?T ([(''chr1'', 100, ''A'')] @ [(''chr1'', 200, ''A'')])
          ?D ?I ?X [0, 0]
      = Inr ([\<lparr> chrom = ''chr1'', pos = 100, ref = ''A'', null_p = 10000,
             mut_p = 103301000 / 1001,
             null_base = ''AA'', null_base_p = 10000000 / 1001,
             mut_base = ''AA'', mut_alt = ''AC'',
             mut_conf_p = 100000000 / 1001,
             mut_loc = 0, mut_smpl = ''0'' \<rparr>]
           @ [\<lparr> chrom = ''chr1'', pos = 200, ref = ''A'', null_p = 10000,
             mut_p = 103301000 / 1001,
             null_base = ''AA'', null_base_p = 10000000 / 1001,
             mut_base = ''AA'', mut_alt = ''AC'',
             mut_conf_p = 100000000 / 1001,
             mut_loc = 0, mut_smpl = ''0'' \<rparr>],
          - 10 * log 10 (113311000 / 1001) + - 10 * log 10 (113311000 / 1001))"
    by blast
  then show ?thesis using r1 r2 by simp
qed

text \<open>
  The claim as stated fails when a batch is empty: on the split of the one-site list of
  the example into the site and no site, the caller returns the record on the first batch
  and raises IndexError on the second (\<open>k1[:,0]\<close> on an array of no rows), so the two runs
  give no records to compare with those of the whole list.
\<close>

theorem genotype_batches_counterexample:
  "genotype ([[[10, 0], [0, 20], [0, 20]]] @ [])
     (Node [0, 1, 2] Map.empty None
        [Node [0, 1] Map.empty None [Node [0] Map.empty None [], Node [1] Map.empty None []],
         Node [2] Map.empty None []])
     ([(''chr1'', 100, ''A'')] @ []) [[1/10, 0], [0, 1/10]] [[1, 0], [0, 1]] [[0, 1], [1, 0]] [0, 0]
   = Inr ([\<lparr> chrom = ''chr1'', pos = 100, ref = ''A'', null_p = 10000,
             mut_p = 103301000 / 1001,
             null_base = ''AA'', null_base_p = 10000000 / 1001,
             mut_base = ''AA'', mut_alt = ''AC'',
             mut_conf_p = 100000000 / 1001,
             mut_loc = 0, mut_smpl = ''0'' \<rparr>],
          - 10 * log 10 (113311000 / 1001))
   \<and> genotype [[[10, 0], [0, 20], [0, 20]]]
     (Node [0, 1, 2] Map.empty None
        [Node [0, 1] Map.empty None [Node [0] Map.empty None [], Node [1] Map.empty None []],
         Node [2] Map.empty None []])
     [(''chr1'', 100, ''A'')] [[1/10, 0], [0, 1/10]] [[1, 0], [0, 1]] [[0, 1], [1, 0]] [0, 0]
   = Inr ([\<lparr> chrom = ''chr1'', pos = 100, ref = ''A'', null_p = 10000,
             mut_p = 103301000 / 1001,
             null_base = ''AA'', null_base_p = 10000000 / 1001,
             mut_base = ''AA'', mut_alt = ''AC'',
             mut_conf_p = 100000000 / 1001,
             mut_loc = 0, mut_smpl = ''0'' \<rparr>],
          - 10 * log 10 (113311000 / 1001))
   \<and> genotype []
     (Node [0, 1, 2] Map.empty None
        [Node [0, 1] Map.empty None [Node [0] Map.empty None [], Node [1] Map.empty None []],
         Node [2] Map.empty None []])
     [] [[1/10, 0], [0, 1/10]] [[1, 0], [0, 1]] [[0, 1], [1, 0]] [0, 0] = Inl IndexError"
  using example_run[of 100] empty_batch by simp

section \<open>The caller leaves its inputs unchanged\<close>

lemma inv_start: "frame_inv s0 0 s0"
  by (auto simp: frame_inv_def keeps_def fresh_PLm_def)

lemma inv_mono: "frame_inv s0 M s \<Longrightarrow> M' \<le> M \<Longrightarrow> frame_inv s0 M' s"
  by (simp add: frame_inv_def)

lemma inv_zero: "frame_inv s0 M s \<Longrightarrow> frame_inv s0 0 s"
  by (simp add: frame_inv_def)

lemma hoareI:
  "(\<And>s. P s \<Longrightarrow> (case m s of (Inl e, s') \<Rightarrow> E s' | (Inr x, s') \<Rightarrow> Q x s')) \<Longrightarrow> hoare P m Q E"
  by (simp add: hoare_def)

lemma hoare_ret: "(\<And>s. P s \<Longrightarrow> Q x s) \<Longrightarrow> hoare P (ret x) Q E"
  by (simp add: hoare_def ret_def)

lemma hoare_lft: "(\<And>s. P s \<Longrightarrow> E s) \<Longrightarrow> (\<And>x s. P s \<Longrightarrow> Q x s) \<Longrightarrow> hoare P (lft r) Q E"
  by (cases r) (simp_all add: hoare_def lft_def)

lemma hoare_bnd:
  assumes "hoare P m Q E" "\<And>x. hoare (Q x) (f x) R E"
  shows "hoare P (bnd m f) R E"
proof (rule hoareI)
  fix s assume P: "P s"
  obtain r s' where m: "m s = (r, s')" by (cases "m s")
  show "case bnd m f s of (Inl e, s') \<Rightarrow> E s' | (Inr x, s') \<Rightarrow> R x s'"
  proof (cases r)
    case (Inl e)
    with assms(1) P m show ?thesis by (auto simp: hoare_def bnd_def)
  next
    case (Inr x)
    with assms(1) P m have "Q x s'" by (auto simp: hoare_def)
    with assms(2)[of x] have "case f x s' of (Inl e, s'') \<Rightarrow> E s'' | (Inr y, s'') \<Rightarrow> R y s''"
      by (simp add: hoare_def)
    then show ?thesis using m Inr by (simp add: bnd_def)
  qed
qed

lemma hoare_weaken:
  assumes "hoare P m Q E" "\<And>s. P' s \<Longrightarrow> P s" "\<And>x s. Q x s \<Longrightarrow> Q' x s"
  shows "hoare P' m Q' E"
  using assms unfolding hoare_def by (fastforce split: sum.splits prod.splits)

lemma hoare_if:
  "(c \<Longrightarrow> hoare P m Q E) \<Longrightarrow> (\<not> c \<Longrightarrow> hoare P m' Q E) \<Longrightarrow> hoare P (if c then m else m') Q E"
  by simp

text \<open>Operations that only read.\<close>

lemma hoare_read: "(\<And>s. P s \<Longrightarrow> E s) \<Longrightarrow> hoare P (read r) (\<lambda>v. P) E"
  by (auto simp: hoare_def read_def split: ref.splits option.splits buf.splits sum.splits)

lemma hoare_read2: "(\<And>s. P s \<Longrightarrow> E s) \<Longrightarrow> hoare P (read2 r) (\<lambda>v. P) E"
  unfolding read2_def
  by (rule hoare_bnd[OF hoare_read]) (auto simp: hoare_def ret_def lft_def split: buf.splits)

lemma hoare_read3: "(\<And>s. P s \<Longrightarrow> E s) \<Longrightarrow> hoare P (read3 r) (\<lambda>v. P) E"
  unfolding read3_def
  by (rule hoare_bnd[OF hoare_read]) (auto simp: hoare_def ret_def lft_def split: buf.splits)

lemma hoare_get_attr:
  "(\<And>s. P s \<Longrightarrow> E s) \<Longrightarrow>
   hoare P (get_attr i name) (\<lambda>r s. P s \<and> map_of (objs s i) name = Some r) E"
  by (auto simp: hoare_def get_attr_def split: option.splits)

lemma hoare_dict:
  "hoare P (\<lambda>s. (Inr (objs s i), s)) (\<lambda>d. P) E"
  by (simp add: hoare_def)

text \<open>Operations that write.\<close>

lemma hoare_new_buf:
  "hoare (frame_inv s0 M) (new_buf v) (\<lambda>b s. frame_inv s0 M s \<and> nbuf s0 \<le> b) E"
  by (auto simp: hoare_def new_buf_def frame_inv_def keeps_def fresh_PLm_def)

lemma map_of_filter_other:
  "k \<noteq> name \<Longrightarrow> map_of (filter (\<lambda>kv. fst kv \<noteq> name) d) k = map_of d k"
  by (induction d) auto

lemma hoare_set_attr:
  assumes "nobj s0 \<le> i" "name = ''PLm'' \<longrightarrow> new_ref s0 r"
  shows "hoare (frame_inv s0 M) (set_attr i name r) (\<lambda>u. frame_inv s0 M) E"
  using assms
  by (auto simp: hoare_def set_attr_def frame_inv_def keeps_def fresh_PLm_def map_of_filter_other)

lemma hoare_new_obj:
  assumes "list_all (\<lambda>kr. new_ref s0 (snd kr)) d"
  shows "hoare (frame_inv s0 M) (new_obj d) (\<lambda>j s. frame_inv s0 M s \<and> nobj s0 \<le> j \<and> j < nobj s) E"
proof -
  have "\<And>r. map_of d ''PLm'' = Some r \<Longrightarrow> new_ref s0 r"
    using assms by (auto simp: list_all_iff dest!: map_of_SomeD)
  then show ?thesis
    unfolding hoare_def new_obj_def frame_inv_def keeps_def fresh_PLm_def
    by (simp add: less_Suc_eq)
qed

lemma hoare_store_back:
  assumes "new_ref s0 r"
  shows "hoare (frame_inv s0 M) (store_back r v) (\<lambda>u. frame_inv s0 M) (frame_inv s0 M)"
  using assms
  by (auto simp: hoare_def store_back_def frame_inv_def keeps_def fresh_PLm_def new_ref_def
           split: ref.splits)

lemma hoare_update_ref:
  assumes "new_ref s0 r"
  shows "hoare (frame_inv s0 M) (update_ref r f) (\<lambda>u. frame_inv s0 M) (frame_inv s0 M)"
  unfolding update_ref_def
proof (rule hoare_bnd)
  show "hoare (frame_inv s0 M) (read r) (\<lambda>v. frame_inv s0 M) (frame_inv s0 M)" by (rule hoare_read)
next
  fix v
  show "hoare (frame_inv s0 M) (bnd (lft (f v)) (store_back r)) (\<lambda>u. frame_inv s0 M) (frame_inv s0 M)"
  proof (rule hoare_bnd)
    show "hoare (frame_inv s0 M) (lft (f v)) (\<lambda>v'. frame_inv s0 M) (frame_inv s0 M)" by (rule hoare_lft)
  next
    fix v'
    show "hoare (frame_inv s0 M) (store_back r v') (\<lambda>u. frame_inv s0 M) (frame_inv s0 M)"
      by (rule hoare_store_back[OF assms])
  qed
qed

lemma hoare_assume:
  "(C \<Longrightarrow> hoare P m Q E) \<Longrightarrow> hoare (\<lambda>s. P s \<and> C) m Q E"
  by (auto simp: hoare_def)

lemma hoare_post:
  "hoare P m Q E \<Longrightarrow> (\<And>x s. Q x s \<Longrightarrow> Q' x s) \<Longrightarrow> hoare P m Q' E"
  unfolding hoare_def by (fastforce split: sum.splits prod.splits)

lemma hoare_at_bound:
  assumes "\<And>N. list_all (bounded lo N) ts \<Longrightarrow> M \<le> N \<Longrightarrow> hoare (frame_inv s0 N) m R (frame_inv s0 0)"
  shows "hoare (\<lambda>s. frame_inv s0 M s \<and> list_all (bounded lo (nobj s)) ts) m R (frame_inv s0 0)"
proof (rule hoareI)
  fix s assume P: "frame_inv s0 M s \<and> list_all (bounded lo (nobj s)) ts"
  then have "frame_inv s0 (nobj s) s" and "M \<le> nobj s" by (simp_all add: frame_inv_def)
  with assms[of "nobj s"] P show "case m s of (Inl e, s') \<Rightarrow> frame_inv s0 0 s' | (Inr x, s') \<Rightarrow> R x s'"
    by (simp add: hoare_def)
qed

lemma bounded_mono:
  "bounded lo N t \<Longrightarrow> N \<le> N' \<Longrightarrow> bounded lo N' t"
  by (induction t) (auto simp: list_all_iff)

text \<open>The operations that only read, with the invariant.\<close>

lemma rd_read: "hoare (frame_inv s0 M) (read r) (\<lambda>v. frame_inv s0 M) (frame_inv s0 0)"
  by (rule hoare_read) (rule inv_zero)

lemma rd_read2: "hoare (frame_inv s0 M) (read2 r) (\<lambda>v. frame_inv s0 M) (frame_inv s0 0)"
  by (rule hoare_read2) (rule inv_zero)

lemma rd_read3: "hoare (frame_inv s0 M) (read3 r) (\<lambda>v. frame_inv s0 M) (frame_inv s0 0)"
  by (rule hoare_read3) (rule inv_zero)

lemma rd_lft: "hoare (frame_inv s0 M) (lft r) (\<lambda>v. frame_inv s0 M) (frame_inv s0 0)"
  by (rule hoare_lft) (simp_all add: inv_zero)

lemma rd_ret: "hoare (frame_inv s0 M) (ret x) (\<lambda>v. frame_inv s0 M) (frame_inv s0 0)"
  by (rule hoare_ret)

lemma rd_get_attr: "hoare (frame_inv s0 M) (get_attr i name) (\<lambda>r. frame_inv s0 M) (frame_inv s0 0)"
  by (rule hoare_post[OF hoare_get_attr]) (simp_all add: inv_zero)

lemma rd_dict: "hoare (frame_inv s0 M) (\<lambda>s. (Inr (objs s i), s)) (\<lambda>d. frame_inv s0 M) (frame_inv s0 0)"
  by (rule hoare_dict)

lemma wr_get_PLm:
  assumes "nobj s0 \<le> i" "i < M"
  shows "hoare (frame_inv s0 M) (get_attr i ''PLm'') (\<lambda>r s. frame_inv s0 M s \<and> new_ref s0 r) (frame_inv s0 0)"
proof (rule hoareI)
  fix s assume P: "frame_inv s0 M s"
  then have F: "fresh_PLm s0 s" and MN: "M \<le> nobj s" by (simp_all add: frame_inv_def)
  have lt: "i < nobj s" using assms(2) MN by simp
  show "case get_attr i ''PLm'' s of (Inl e, s') \<Rightarrow> frame_inv s0 0 s'
        | (Inr r, s') \<Rightarrow> frame_inv s0 M s' \<and> new_ref s0 r"
  proof (cases "map_of (objs s i) ''PLm''")
    case None
    then show ?thesis using P by (simp add: get_attr_def inv_zero)
  next
    case (Some r)
    have "new_ref s0 r" using F assms(1) lt Some unfolding fresh_PLm_def by blast
    then show ?thesis using P Some by (simp add: get_attr_def)
  qed
qed

lemma wr_new_buf:
  "hoare (frame_inv s0 M) (new_buf v) (\<lambda>b s. frame_inv s0 M s \<and> nbuf s0 \<le> b) (frame_inv s0 0)"
  by (rule hoare_new_buf)

lemma wr_set_attr:
  assumes "nobj s0 \<le> i" "name = ''PLm'' \<longrightarrow> new_ref s0 r"
  shows "hoare (frame_inv s0 M) (set_attr i name r) (\<lambda>u. frame_inv s0 M) (frame_inv s0 0)"
  by (rule hoare_set_attr[OF assms])

lemma wr_store_back:
  assumes "new_ref s0 r"
  shows "hoare (frame_inv s0 M) (store_back r v) (\<lambda>u. frame_inv s0 M) (frame_inv s0 0)"
  using assms
  by (auto simp: hoare_def store_back_def frame_inv_def keeps_def fresh_PLm_def new_ref_def
           split: ref.splits)

lemma wr_update_ref:
  assumes "new_ref s0 r"
  shows "hoare (frame_inv s0 M) (update_ref r f) (\<lambda>u. frame_inv s0 M) (frame_inv s0 0)"
  unfolding update_ref_def
  by (intro hoare_bnd[OF rd_read] hoare_bnd[OF rd_lft] wr_store_back[OF assms])

text \<open>Copying a tree.\<close>

lemma copy_attrs_inv:
  "hoare (frame_inv s0 M) (copy_attrs d)
     (\<lambda>d' s. frame_inv s0 M s \<and> list_all (\<lambda>kr. new_ref s0 (snd kr)) d') (frame_inv s0 0)"
proof (induction d)
  case Nil
  show ?case by (simp add: hoare_ret)
next
  case (Cons kr d)
  show ?case
    unfolding copy_attrs.simps
  proof (rule hoare_bnd[OF rd_read], rule hoare_bnd[OF wr_new_buf], rule hoare_assume)
    fix v b assume b: "nbuf s0 \<le> b"
    show "hoare (frame_inv s0 M) (bnd (copy_attrs d) (\<lambda>d'. ret ((fst kr, Own b) # d')))
       (\<lambda>d' s. frame_inv s0 M s \<and> list_all (\<lambda>kr. new_ref s0 (snd kr)) d') (frame_inv s0 0)"
    proof (rule hoare_bnd[OF Cons.IH])
      fix d'
      show "hoare (\<lambda>s. frame_inv s0 M s \<and> list_all (\<lambda>kr. new_ref s0 (snd kr)) d')
              (ret ((fst kr, Own b) # d'))
              (\<lambda>d' s. frame_inv s0 M s \<and> list_all (\<lambda>kr. new_ref s0 (snd kr)) d') (frame_inv s0 0)"
        by (rule hoare_ret) (use b in \<open>simp add: new_ref_def\<close>)
    qed
  qed
qed

lemma wr_new_obj:
  assumes "list_all (\<lambda>kr. new_ref s0 (snd kr)) d"
  shows "hoare (frame_inv s0 M) (new_obj d) (\<lambda>j s. frame_inv s0 M s \<and> nobj s0 \<le> j \<and> j < nobj s) (frame_inv s0 0)"
  by (rule hoare_new_obj[OF assms])

lemma copy_inv:
  "hoare (frame_inv s0 M) (copy_obj t)
     (\<lambda>t' s. frame_inv s0 M s \<and> list_all (bounded (nobj s0) (nobj s)) [t']) (frame_inv s0 0)"
  "hoare (frame_inv s0 M) (copy_objs ts)
     (\<lambda>ts' s. frame_inv s0 M s \<and> list_all (bounded (nobj s0) (nobj s)) ts') (frame_inv s0 0)"
proof (induction t and ts arbitrary: M and M rule: copy_obj_copy_objs.induct)
  case (1 i sd ks)
  show ?case
    unfolding copy_obj.simps
  proof (rule hoare_bnd[OF 1], rule hoare_at_bound)
    fix ks' N assume ks': "list_all (bounded (nobj s0) N) ks'" and MN: "M \<le> N"
    show "hoare (frame_inv s0 N)
        (bnd (\<lambda>s. (Inr (objs s i), s)) (\<lambda>d. bnd (copy_attrs d) (\<lambda>d'. bnd (new_obj d')
            (\<lambda>j. ret (Obj j sd ks')))))
        (\<lambda>t' s. frame_inv s0 M s \<and> list_all (bounded (nobj s0) (nobj s)) [t']) (frame_inv s0 0)"
    proof (rule hoare_bnd[OF rd_dict], rule hoare_bnd[OF copy_attrs_inv], rule hoare_assume)
      fix d and d' :: "(string \<times> ref) list" assume d': "list_all (\<lambda>kr. new_ref s0 (snd kr)) d'"
      show "hoare (frame_inv s0 N) (bnd (new_obj d') (\<lambda>j. ret (Obj j sd ks')))
        (\<lambda>t' s. frame_inv s0 M s \<and> list_all (bounded (nobj s0) (nobj s)) [t']) (frame_inv s0 0)"
      proof (rule hoare_bnd[OF wr_new_obj[OF d']])
        fix j
        show "hoare (\<lambda>s. frame_inv s0 N s \<and> nobj s0 \<le> j \<and> j < nobj s) (ret (Obj j sd ks'))
          (\<lambda>t' s. frame_inv s0 M s \<and> list_all (bounded (nobj s0) (nobj s)) [t']) (frame_inv s0 0)"
        proof (rule hoare_ret)
          fix s assume P: "frame_inv s0 N s \<and> nobj s0 \<le> j \<and> j < nobj s"
          then have "N \<le> nobj s" by (simp add: frame_inv_def)
          then have "list_all (bounded (nobj s0) (nobj s)) ks'"
            using ks' bounded_mono by (auto simp: list_all_iff)
          then show "frame_inv s0 M s \<and> list_all (bounded (nobj s0) (nobj s)) [Obj j sd ks']"
            using P MN inv_mono[of s0 N s M] by simp
        qed
      qed
    qed
  qed
next
  case 2
  show ?case by (simp add: hoare_ret)
next
  case (3 k ks)
  show ?case
    unfolding copy_objs.simps
  proof (rule hoare_bnd[OF 3(1)], rule hoare_at_bound)
    fix k' N assume k': "list_all (bounded (nobj s0) N) [k']" and MN: "M \<le> N"
    show "hoare (frame_inv s0 N) (bnd (copy_objs ks) (\<lambda>ks'. ret (k' # ks')))
        (\<lambda>ts' s. frame_inv s0 M s \<and> list_all (bounded (nobj s0) (nobj s)) ts') (frame_inv s0 0)"
    proof (rule hoare_bnd[OF 3(2)])
      fix ks'
      show "hoare (\<lambda>s. frame_inv s0 N s \<and> list_all (bounded (nobj s0) (nobj s)) ks') (ret (k' # ks'))
        (\<lambda>ts' s. frame_inv s0 M s \<and> list_all (bounded (nobj s0) (nobj s)) ts') (frame_inv s0 0)"
      proof (rule hoare_ret)
        fix s assume P: "frame_inv s0 N s \<and> list_all (bounded (nobj s0) (nobj s)) ks'"
        then have "N \<le> nobj s" by (simp add: frame_inv_def)
        then have "bounded (nobj s0) (nobj s) k'" using k' bounded_mono by auto
        then show "frame_inv s0 M s \<and> list_all (bounded (nobj s0) (nobj s)) (k' # ks')"
          using P MN inv_mono[of s0 N s M] by simp
      qed
    qed
  qed
qed

text \<open>Attaching the aggregates.\<close>

lemma rd_new_buf: "hoare (frame_inv s0 M) (new_buf v) (\<lambda>b. frame_inv s0 M) (frame_inv s0 0)"
  by (rule hoare_post[OF wr_new_buf]) simp

lemma add_children_h_inv:
  assumes i: "nobj s0 \<le> i" and a: "attr \<noteq> ''PLm''"
  shows "hoare (frame_inv s0 M) (add_children_h i cs mm attr) (\<lambda>u. frame_inv s0 M) (frame_inv s0 0)"
proof (induction cs)
  case Nil
  show ?case by (simp add: rd_ret)
next
  case (Cons c rest)
  have s: "\<And>r. hoare (frame_inv s0 M) (set_attr i attr r) (\<lambda>u. frame_inv s0 M) (frame_inv s0 0)"
    by (rule wr_set_attr[OF i]) (simp add: a)
  show ?case
    unfolding add_children_h.simps
    by (intro hoare_bnd[OF rd_get_attr] hoare_bnd[OF rd_read2] hoare_bnd[OF rd_lft]
              hoare_bnd[OF rd_new_buf] hoare_bnd[OF s] Cons.IH)
qed

lemma populate_inv:
  "attr \<noteq> ''PLm'' \<Longrightarrow> bounded (nobj s0) N t
     \<Longrightarrow> hoare (frame_inv s0 M) (populate_obj n g t P mm attr) (\<lambda>u. frame_inv s0 M) (frame_inv s0 0)"
  "attr \<noteq> ''PLm'' \<Longrightarrow> list_all (bounded (nobj s0) N) ts
     \<Longrightarrow> hoare (frame_inv s0 M) (populate_objs n g ts P mm attr) (\<lambda>u. frame_inv s0 M) (frame_inv s0 0)"
proof (induction n g t P mm attr and n g ts P mm attr rule: populate_obj_populate_objs.induct)
  case (1 n g i sd ks P mm attr)
  have a: "attr \<noteq> ''PLm''" and i: "nobj s0 \<le> i"
    and ks: "list_all (bounded (nobj s0) N) ks"
    using "1.prems" by simp_all
  have s: "\<And>r. hoare (frame_inv s0 M) (set_attr i attr r) (\<lambda>u. frame_inv s0 M) (frame_inv s0 0)"
    by (rule wr_set_attr[OF i]) (simp add: a)
  show ?case
  proof (cases "ks = []")
    case True
    show ?thesis
      unfolding populate_obj.simps if_P[OF True]
      by (intro hoare_bnd[OF rd_lft] hoare_bnd[OF rd_read] s)
  next
    case False
    have ih: "hoare (frame_inv s0 M) (populate_objs n g ks P mm attr) (\<lambda>u. frame_inv s0 M) (frame_inv s0 0)"
      using "1.IH"[OF False a ks] .
    show ?thesis
      unfolding populate_obj.simps if_not_P[OF False]
      by (intro hoare_bnd[OF ih] hoare_bnd[OF rd_new_buf] hoare_bnd[OF s]
                add_children_h_inv[OF i a])
  qed
next
  case 2
  show ?case by (simp add: rd_ret)
next
  case (3 n g c cs P mm attr)
  have a: "attr \<noteq> ''PLm''" and c: "bounded (nobj s0) N c"
    and cs: "list_all (bounded (nobj s0) N) cs"
    using "3.prems" by simp_all
  show ?case
    unfolding populate_objs.simps
    by (intro hoare_bnd[OF "3.IH"(1)[OF a c]] "3.IH"(2)[OF a cs])
qed

lemma populate_tree_PL_h_inv:
  assumes "attr \<noteq> ''PLm''" "bounded (nobj s0) N t"
  shows "hoare (frame_inv s0 M) (populate_tree_PL_h t P mm attr) (\<lambda>u. frame_inv s0 M) (frame_inv s0 0)"
  unfolding populate_tree_PL_h_def
  by (intro hoare_bnd[OF rd_read3] populate_inv(1)[OF assms])

text \<open>The placement arrays.\<close>

lemma alloc_PLm_inv:
  "bounded (nobj s0) N t
     \<Longrightarrow> hoare (frame_inv s0 M) (alloc_PLm n g t) (\<lambda>u. frame_inv s0 M) (frame_inv s0 0)"
  "list_all (bounded (nobj s0) N) ts
     \<Longrightarrow> hoare (frame_inv s0 M) (alloc_PLms n g ts) (\<lambda>u. frame_inv s0 M) (frame_inv s0 0)"
proof (induction n g t and n g ts rule: alloc_PLm_alloc_PLms.induct)
  case (1 n g i sd ks)
  have i: "nobj s0 \<le> i" and ks: "list_all (bounded (nobj s0) N) ks"
    using "1.prems" by simp_all
  have ih: "hoare (frame_inv s0 M) (alloc_PLms n g ks) (\<lambda>u. frame_inv s0 M) (frame_inv s0 0)"
    using "1.IH"[OF ks] .
  have new: "hoare (frame_inv s0 M)
       (bnd (new_buf (A3 (zeros3 (2 * len_obj (Obj i sd ks) - 2) n g)))
            (\<lambda>b. set_attr i ''PLm'' (Own b)))
       (\<lambda>u. frame_inv s0 M) (frame_inv s0 0)"
  proof (rule hoare_bnd[OF wr_new_buf], rule hoare_assume)
    fix b assume "nbuf s0 \<le> b"
    then have "new_ref s0 (Own b)" by (simp add: new_ref_def)
    then show "hoare (frame_inv s0 M) (set_attr i ''PLm'' (Own b)) (\<lambda>u. frame_inv s0 M) (frame_inv s0 0)"
      by (intro wr_set_attr[OF i]) simp
  qed
  show ?case
    unfolding alloc_PLm.simps
    by (rule hoare_bnd[OF ih]) (simp add: rd_ret new del: len_obj.simps)
next
  case 2
  show ?case by (simp add: rd_ret)
next
  case (3 n g c cs)
  have c: "bounded (nobj s0) N c" and cs: "list_all (bounded (nobj s0) N) cs"
    using "3.prems" by simp_all
  show ?case
    unfolding alloc_PLms.simps
    by (intro hoare_bnd[OF "3.IH"(1)[OF c]] "3.IH"(2)[OF cs])
qed

lemma sister_PL0_inv:
  "hoare (frame_inv s0 M) (sister_PL0 sister mm0) (\<lambda>u. frame_inv s0 M) (frame_inv s0 0)"
  unfolding sister_PL0_def
  by (intro hoare_bnd[OF rd_get_attr] hoare_bnd[OF rd_read2] rd_lft)

lemma inherited_h_inv:
  "hoare (frame_inv s0 M) (inherited_h child sister mm0) (\<lambda>u. frame_inv s0 M) (frame_inv s0 0)"
  unfolding inherited_h_def
  by (intro hoare_bnd[OF rd_get_attr] hoare_bnd[OF rd_read3] hoare_bnd[OF rd_lft]
            hoare_bnd[OF sister_PL0_inv] rd_lft)

lemma on_edge_h_inv:
  "hoare (frame_inv s0 M) (on_edge_h child sister mm0 mm1) (\<lambda>u. frame_inv s0 M) (frame_inv s0 0)"
  unfolding on_edge_h_def
  by (intro hoare_bnd[OF rd_get_attr] hoare_bnd[OF rd_read2] hoare_bnd[OF rd_lft]
            hoare_bnd[OF sister_PL0_inv] rd_lft)

lemma assign_PLm_inv:
  assumes i: "nobj s0 \<le> i" "i < M"
  assumes rest: "hoare (frame_inv s0 M) m R (frame_inv s0 0)"
  shows "hoare (frame_inv s0 M)
           (bnd (get_attr i ''PLm'') (\<lambda>rp. bnd (update_ref rp f) (\<lambda>u. m))) R (frame_inv s0 0)"
proof (rule hoare_bnd[OF wr_get_PLm[OF i]], rule hoare_assume)
  fix rp assume "new_ref s0 rp"
  then show "hoare (frame_inv s0 M) (bnd (update_ref rp f) (\<lambda>u. m)) R (frame_inv s0 0)"
    by (intro hoare_bnd[OF wr_update_ref] rest)
qed

lemma fill_h_inv:
  assumes i: "nobj s0 \<le> i" "i < M"
  shows "hoare (frame_inv s0 M) (fill_h n g mm0 mm1 i cs k) (\<lambda>u. frame_inv s0 M) (frame_inv s0 0)"
proof (induction cs arbitrary: k)
  case Nil
  show ?case by (simp add: rd_ret)
next
  case (Cons c rest)
  have inner: "\<And>sister. hoare (frame_inv s0 M)
       (if okids (fst c) \<noteq> [] then
            bnd (get_attr (oid (fst c)) ''PLm'') (\<lambda>rc.
            bnd (read3 rc) (\<lambda>cm.
            bnd (inherited_h (fst c) sister mm0) (\<lambda>v.
            bnd (get_attr i ''PLm'') (\<lambda>rp.
            bnd (update_ref rp (assign_slice n g k (length cm) v)) (\<lambda>u.
            ret (k + length cm))))))
          else ret k) (\<lambda>u. frame_inv s0 M) (frame_inv s0 0)"
    by (intro hoare_if hoare_bnd[OF rd_get_attr] hoare_bnd[OF rd_read3]
              hoare_bnd[OF inherited_h_inv] assign_PLm_inv[OF i] rd_ret)
  show ?case
    unfolding fill_h.simps
    by (intro hoare_bnd[OF rd_lft] hoare_bnd[OF inner] hoare_bnd[OF on_edge_h_inv]
              assign_PLm_inv[OF i] Cons.IH)
qed

lemma fill_inv:
  "bounded (nobj s0) M t
     \<Longrightarrow> hoare (frame_inv s0 M) (fill_obj n g mm0 mm1 t) (\<lambda>u. frame_inv s0 M) (frame_inv s0 0)"
  "list_all (bounded (nobj s0) M) ts
     \<Longrightarrow> hoare (frame_inv s0 M) (fill_objs n g mm0 mm1 ts) (\<lambda>u. frame_inv s0 M) (frame_inv s0 0)"
proof (induction n g mm0 mm1 t and n g mm0 mm1 ts rule: fill_obj_fill_objs.induct)
  case (1 n g mm0 mm1 i sd ks)
  have i: "nobj s0 \<le> i" "i < M" and ks: "list_all (bounded (nobj s0) M) ks"
    using "1.prems" by simp_all
  show ?case
    unfolding fill_obj.simps
    by (intro hoare_bnd[OF "1.IH"[OF ks]] fill_h_inv[OF i])
next
  case 2
  show ?case by (simp add: rd_ret)
next
  case (3 n g mm0 mm1 c cs)
  have c: "bounded (nobj s0) M c" and cs: "list_all (bounded (nobj s0) M) cs"
    using "3.prems" by simp_all
  show ?case
    unfolding fill_objs.simps
    by (intro hoare_bnd[OF "3.IH"(1)[OF c]] "3.IH"(2)[OF cs])
qed

lemma calc_mut_likelihoods_h_inv:
  assumes "bounded (nobj s0) M t"
  shows "hoare (frame_inv s0 M) (calc_mut_likelihoods_h t mm0 mm1) (\<lambda>u. frame_inv s0 M) (frame_inv s0 0)"
  unfolding calc_mut_likelihoods_h_def
  by (intro hoare_bnd[OF rd_get_attr] hoare_bnd[OF rd_read2]
            hoare_bnd[OF alloc_PLm_inv(1)[OF assms]] fill_inv(1)[OF assms])

lemma bounded_oid: "bounded lo N t \<Longrightarrow> lo \<le> oid t \<and> oid t < N"
  by (cases t) simp

lemma rd_state:
  "hoare (frame_inv s0 M) (\<lambda>s. (f s, s)) (\<lambda>x. frame_inv s0 0) (frame_inv s0 0)"
  by (rule hoareI) (auto simp: inv_zero split: sum.splits)

lemma hoare_at_bound1:
  assumes "\<And>N. bounded lo N t \<Longrightarrow> M \<le> N \<Longrightarrow> hoare (frame_inv s0 N) m R (frame_inv s0 0)"
  shows "hoare (\<lambda>s. frame_inv s0 M s \<and> list_all (bounded lo (nobj s)) [t]) m R (frame_inv s0 0)"
  by (rule hoare_at_bound) (simp add: assms)

lemma genotype_h_inv:
  "hoare (frame_inv s0 0) (genotype_h P tree variants mm mm0 mm1 base_prior)
     (\<lambda>x. frame_inv s0 0) (frame_inv s0 0)"
  unfolding genotype_h_def
proof (rule hoare_bnd[OF copy_inv(1)], rule hoare_at_bound1)
  fix t1 N1 assume t1: "bounded (nobj s0) N1 t1"
  show "hoare (frame_inv s0 N1)
     (bnd (populate_tree_PL_h t1 P mm ''PL'') (\<lambda>u.
     bnd (get_attr (oid t1) ''PL'') (\<lambda>r.
     bnd (read2 r) (\<lambda>pl.
     bnd (lft (add2_1 pl base_prior)) (\<lambda>tree_PL.
     bnd (copy_obj t1) (\<lambda>t2.
     bnd (populate_tree_PL_h t2 P mm0 ''PL0'') (\<lambda>u.
     bnd (get_attr (oid t2) ''PL0'') (\<lambda>r0.
     bnd (read2 r0) (\<lambda>pl0.
     bnd (lft (add2_1 pl0 base_prior)) (\<lambda>tree_PL0.
     bnd (copy_obj t2) (\<lambda>t3.
     bnd (calc_mut_likelihoods_h t3 mm0 mm1) (\<lambda>u.
     bnd (get_attr (oid t3) ''PLm'') (\<lambda>rp.
     bnd (read3 rp) (\<lambda>plm.
     bnd (lft (iadd3_1 (swapaxes01 plm) base_prior)) (\<lambda>mut_PLs.
     bnd (store_back rp (A3 (swapaxes01 mut_PLs))) (\<lambda>u.
     (\<lambda>s. (call_sites tree_PL tree_PL0 mut_PLs (snapshot s t3) variants, s))))))))))))))))))
     (\<lambda>x. frame_inv s0 0) (frame_inv s0 0)"
  proof (rule hoare_bnd[OF populate_tree_PL_h_inv[OF _ t1]], simp,
         rule hoare_bnd[OF rd_get_attr], rule hoare_bnd[OF rd_read2], rule hoare_bnd[OF rd_lft],
         rule hoare_bnd[OF copy_inv(1)], rule hoare_at_bound1)
    fix tree_PL t2 N2 assume t2: "bounded (nobj s0) N2 t2"
    show "hoare (frame_inv s0 N2)
     (bnd (populate_tree_PL_h t2 P mm0 ''PL0'') (\<lambda>u.
     bnd (get_attr (oid t2) ''PL0'') (\<lambda>r0.
     bnd (read2 r0) (\<lambda>pl0.
     bnd (lft (add2_1 pl0 base_prior)) (\<lambda>tree_PL0.
     bnd (copy_obj t2) (\<lambda>t3.
     bnd (calc_mut_likelihoods_h t3 mm0 mm1) (\<lambda>u.
     bnd (get_attr (oid t3) ''PLm'') (\<lambda>rp.
     bnd (read3 rp) (\<lambda>plm.
     bnd (lft (iadd3_1 (swapaxes01 plm) base_prior)) (\<lambda>mut_PLs.
     bnd (store_back rp (A3 (swapaxes01 mut_PLs))) (\<lambda>u.
     (\<lambda>s. (call_sites tree_PL tree_PL0 mut_PLs (snapshot s t3) variants, s)))))))))))))
     (\<lambda>x. frame_inv s0 0) (frame_inv s0 0)"
    proof (rule hoare_bnd[OF populate_tree_PL_h_inv[OF _ t2]], simp,
         rule hoare_bnd[OF rd_get_attr], rule hoare_bnd[OF rd_read2], rule hoare_bnd[OF rd_lft],
         rule hoare_bnd[OF copy_inv(1)], rule hoare_at_bound1)
      fix tree_PL0 t3 N3 assume t3: "bounded (nobj s0) N3 t3"
      have i: "nobj s0 \<le> oid t3" "oid t3 < N3" using bounded_oid[OF t3] by simp_all
      show "hoare (frame_inv s0 N3)
       (bnd (calc_mut_likelihoods_h t3 mm0 mm1) (\<lambda>u.
       bnd (get_attr (oid t3) ''PLm'') (\<lambda>rp.
       bnd (read3 rp) (\<lambda>plm.
       bnd (lft (iadd3_1 (swapaxes01 plm) base_prior)) (\<lambda>mut_PLs.
       bnd (store_back rp (A3 (swapaxes01 mut_PLs))) (\<lambda>u.
       (\<lambda>s. (call_sites tree_PL tree_PL0 mut_PLs (snapshot s t3) variants, s))))))))
       (\<lambda>x. frame_inv s0 0) (frame_inv s0 0)"
      proof (rule hoare_bnd[OF calc_mut_likelihoods_h_inv[OF t3]],
             rule hoare_bnd[OF wr_get_PLm[OF i]], rule hoare_assume)
        fix rp assume rp: "new_ref s0 rp"
        show "hoare (frame_inv s0 N3)
         (bnd (read3 rp) (\<lambda>plm.
         bnd (lft (iadd3_1 (swapaxes01 plm) base_prior)) (\<lambda>mut_PLs.
         bnd (store_back rp (A3 (swapaxes01 mut_PLs))) (\<lambda>u.
         (\<lambda>s. (call_sites tree_PL tree_PL0 mut_PLs (snapshot s t3) variants, s))))))
         (\<lambda>x. frame_inv s0 0) (frame_inv s0 0)"
          by (intro hoare_bnd[OF rd_read3] hoare_bnd[OF rd_lft]
                    hoare_bnd[OF wr_store_back[OF rp]] rd_state)
      qed
    qed
  qed
qed

lemma genotype_h_keeps:
  "keeps s (snd (genotype_h P tree variants mm mm0 mm1 base_prior s))"
proof -
  have "frame_inv s 0 s" by (rule inv_start)
  obtain r s' where run: "genotype_h P tree variants mm mm0 mm1 base_prior s = (r, s')"
    by (cases "genotype_h P tree variants mm mm0 mm1 base_prior s")
  have "frame_inv s 0 s'"
    using genotype_h_inv[of s P tree variants mm mm0 mm1 base_prior] \<open>frame_inv s 0 s\<close> run
    unfolding hoare_def by (cases r) fastforce+
  then show ?thesis by (simp add: frame_inv_def run)
qed

lemma read_keeps:
  assumes "keeps s s'" "buf_of r < nbuf s"
  shows "fst (read r s') = fst (read r s)"
  using assms by (cases r) (simp_all add: read_def keeps_def)

lemma map_of_in_set: "map_of d name = Some r \<Longrightarrow> (name, r) \<in> set d"
  by (rule map_of_SomeD)

lemma attr_value_keeps:
  assumes k: "keeps s s'" and w: "refs_below s" and i: "i < nobj s"
  shows "attr_value s' i name = attr_value s i name"
proof -
  have o: "objs s' i = objs s i" using k i by (simp add: keeps_def)
  show ?thesis
  proof (cases "map_of (objs s i) name")
    case None
    then show ?thesis by (simp add: attr_value_def o)
  next
    case (Some r)
    then have "(name, r) \<in> set (objs s i)" by (rule map_of_SomeD)
    then have "buf_of r < nbuf s"
      using w i unfolding refs_below_def list_all_iff by fastforce
    then have "fst (read r s') = fst (read r s)" by (rule read_keeps[OF k])
    then show ?thesis by (simp add: attr_value_def o Some)
  qed
qed

lemma snapshot_keeps:
  assumes k: "keeps s s'" and w: "refs_below s"
  shows "bounded 0 (nobj s) t \<Longrightarrow> snapshot s' t = snapshot s t"
proof (induction t)
  case (Obj i sd ks)
  have i: "i < nobj s" and ks: "list_all (bounded 0 (nobj s)) ks" using Obj.prems by simp_all
  have "map (snapshot s') ks = map (snapshot s) ks"
    using Obj.IH ks by (auto simp: list_all_iff)
  then show ?case by (simp add: attr_value_keeps[OF k w i])
qed

lemma oids_bounded: "bounded lo N t \<Longrightarrow> list_all (\<lambda>i. lo \<le> i \<and> i < N) (oids t)"
  by (induction t) (auto simp: list_all_iff)

text \<open>
  Claim C10.  Whatever \<open>genotype\<close> does, return or raise, the node objects of the caller's
  tree have the attribute dictionaries in the store after the call that they had before it,
  the array \<open>PLs\<close> has the contents it had, and so has every array that an attribute of the
  caller's tree refers to: the tree of values that the caller's handle stands for is the same.
  (The children and the \<open>sid\<close> of a node are in the handle; the code assigns to neither.)
\<close>

theorem genotype_inputs_unchanged:
  assumes tree: "bounded 0 (nobj s) tree" and P: "P < nbuf s"
  shows "list_all (\<lambda>i. objs (snd (genotype_h P tree variants mm mm0 mm1 base_prior s)) i
                           = objs s i) (oids tree)
       \<and> bufs (snd (genotype_h P tree variants mm mm0 mm1 base_prior s)) P = bufs s P
       \<and> (refs_below s \<longrightarrow>
            snapshot (snd (genotype_h P tree variants mm mm0 mm1 base_prior s)) tree
              = snapshot s tree)"
proof -
  let ?s = "snd (genotype_h P tree variants mm mm0 mm1 base_prior s)"
  have k: "keeps s ?s" by (rule genotype_h_keeps)
  have "list_all (\<lambda>i. objs ?s i = objs s i) (oids tree)"
    using oids_bounded[OF tree] k by (auto simp: list_all_iff keeps_def)
  moreover have "bufs ?s P = bufs s P" using k P by (simp add: keeps_def)
  moreover have "refs_below s \<longrightarrow> snapshot ?s tree = snapshot s tree"
    using snapshot_keeps[OF k _ tree] by simp
  ultimately show ?thesis by simp
qed

theorem genotype_inputs_unchanged_witness:
  "bounded 0 (nobj example_store) example_handle \<and> 0 < nbuf example_store
   \<and> refs_below example_store
   \<and> oids example_handle = [0, 1, 2]
   \<and> objs (snd (genotype_h 0 example_handle [(''chr1'', 7, ''A'')]
        [[1/10, 0], [0, 1/10]] [[1, 0], [0, 1]] [[0, 1], [1, 0]] [0, 0] example_store)) 0
       = [(''PL'', Own 1)]
   \<and> objs (snd (genotype_h 0 example_handle [(''chr1'', 7, ''A'')]
        [[1/10, 0], [0, 1/10]] [[1, 0], [0, 1]] [[0, 1], [1, 0]] [0, 0] example_store)) 1
       = [(''PL'', Col 0 0)]
   \<and> objs (snd (genotype_h 0 example_handle [(''chr1'', 7, ''A'')]
        [[1/10, 0], [0, 1/10]] [[1, 0], [0, 1]] [[0, 1], [1, 0]] [0, 0] example_store)) 2
       = []
   \<and> bufs (snd (genotype_h 0 example_handle [(''chr1'', 7, ''A'')]
        [[1/10, 0], [0, 1/10]] [[1, 0], [0, 1]] [[0, 1], [1, 0]] [0, 0] example_store)) 0
       = Some (A3 [[[10, 0], [0, 20]]])
   \<and> snapshot (snd (genotype_h 0 example_handle [(''chr1'', 7, ''A'')]
        [[1/10, 0], [0, 1/10]] [[1, 0], [0, 1]] [[0, 1], [1, 0]] [0, 0] example_store))
        example_handle
       = snapshot example_store example_handle"
proof -
  have b: "bounded 0 (nobj example_store) example_handle"
    by (simp add: example_store_def example_handle_def)
  have p: "0 < nbuf example_store" by (simp add: example_store_def)
  have w: "refs_below example_store"
    by (simp add: refs_below_def example_store_def upt_conv_Cons)
  have o: "oids example_handle = [0, 1, 2]" by (simp add: example_handle_def)
  show ?thesis
    using genotype_inputs_unchanged[OF b p, of "[(''chr1'', 7, ''A'')]"
        "[[1/10, 0], [0, 1/10]]" "[[1, 0], [0, 1]]" "[[0, 1], [1, 0]]" "[0, 0]"] b p w
    unfolding o by (simp add: example_store_def)
qed

end
